(* ===== verification/Prelude.thy ===== *)
theory Prelude
  imports
    Main
    "HOL-Library.Word"
    "HOL-Library.Char_ord"
    "HOL-Library.List_Lexorder"
    "HOL-Library.Product_Lexorder"
    "HOL-Library.Sublist"
begin

text \<open>
  Shared ground of the development: the types every component uses (bytes, Go strings, instants of
  time, error values), the collections of rewrite rules the component proofs draw on, and generic
  facts about lists that are sorted by a strictly increasing key.

  A Go \<open>string\<close> is a sequence of bytes, and so is Isabelle's \<open>string\<close> (a list of 8-bit
  characters); its order from \<open>List_Lexorder\<close> and \<open>Char_ord\<close> is Go's byte-wise \<open><\<close>.
  A \<open>[]byte\<close> is a list of \<open>8 word\<close>; the nil slice and the empty slice are both \<open>[]\<close>, and
  where the code tests a slice against nil the model uses an \<open>option\<close>.
\<close>

named_theorems store_simps \<open>equations of the storage operations in terms of the event log\<close>
named_theorems chain_simps \<open>equations of the hash-chain definitions\<close>
named_theorems frame_simps \<open>what an operation leaves unchanged\<close>

section \<open>Bytes and strings\<close>

type_synonym byte = "8 word"
type_synonym bytes = "8 word list"

text \<open>Go's conversion \<open>[]byte(s)\<close>, and back.\<close>

definition byte_of :: "char \<Rightarrow> byte" where
  "byte_of c = of_char c"

definition bytes_of :: "string \<Rightarrow> bytes" where
  "bytes_of s = map byte_of s"

definition string_of :: "bytes \<Rightarrow> string" where
  "string_of bs = map (\<lambda>b. char_of (unat b)) bs"

lemma unat_byte_of: "unat (byte_of c) = of_char c"
proof -
  have "byte_of c = word_of_nat (of_char c)"
    by (simp add: byte_of_def of_nat_of_char)
  moreover have "of_char c < (256 :: nat)"
    by simp
  ultimately show ?thesis
    by (simp add: unat_of_nat)
qed

lemma byte_of_eq_iff [simp]: "byte_of c = byte_of d \<longleftrightarrow> c = d"
  by (metis unat_byte_of char_of_char)

lemma bytes_of_eq_iff [simp]: "bytes_of s = bytes_of t \<longleftrightarrow> s = t"
  unfolding bytes_of_def by (rule inj_map_eq_map) (simp add: inj_def)

lemma length_bytes_of [simp]: "length (bytes_of s) = length s"
  by (simp add: bytes_of_def)

lemma string_of_bytes_of [simp]: "string_of (bytes_of s) = s"
  by (simp add: string_of_def bytes_of_def unat_byte_of o_def)

lemma bytes_of_string_of [simp]: "bytes_of (string_of b) = b"
proof -
  have "byte_of (char_of (unat x)) = x" for x :: byte
  proof -
    have "unat x < 256"
      using unsigned_less [of x] by simp
    then have "unat (byte_of (char_of (unat x))) = unat x"
      by (simp only: unat_byte_of of_char_of) simp
    then show ?thesis
      by (rule unsigned_word_eqI)
  qed
  then show ?thesis
    by (simp add: string_of_def bytes_of_def o_def)
qed

section \<open>Instants of time\<close>

text \<open>
  A \<open>time.Time\<close> is the instant it denotes, in nanoseconds from the Unix epoch. Its location and its
  monotonic reading do not influence \<open>Equal\<close>, \<open>Before\<close>, \<open>After\<close>, \<open>IsZero\<close> or \<open>UnixNano\<close>,
  the only observations the program makes. The zero \<open>Time\<close> is 1 January of year 1, 00:00 UTC.
\<close>

datatype time = Time (nanos: int)

instantiation time :: linorder
begin

definition less_eq_time :: "time \<Rightarrow> time \<Rightarrow> bool" where
  "less_eq_time s t \<longleftrightarrow> nanos s \<le> nanos t"

definition less_time :: "time \<Rightarrow> time \<Rightarrow> bool" where
  "less_time s t \<longleftrightarrow> nanos s < nanos t"

instance
  by standard (auto simp: less_eq_time_def less_time_def time.expand)

end

lemma Time_le [simp]: "Time a \<le> Time b \<longleftrightarrow> a \<le> b"
  by (simp add: less_eq_time_def)

lemma Time_less [simp]: "Time a < Time b \<longleftrightarrow> a < b"
  by (simp add: less_time_def)

definition zero_time :: time where
  "zero_time = Time (- 62135596800000000000)"

definition is_zero :: "time \<Rightarrow> bool" where
  "is_zero t \<longleftrightarrow> t = zero_time"

lemma is_zero_zero_time [simp]: "is_zero zero_time"
  by (simp add: is_zero_def)

lemma is_zero_Time [simp]: "is_zero (Time n) \<longleftrightarrow> n = - 62135596800000000000"
  by (simp add: is_zero_def zero_time_def)

text \<open>
  \<open>UnixNano\<close> computes in \<open>int64\<close> and wraps outside the years 1678 to 2262. The instants it
  represents exactly are those of \<open>in_nano_range\<close>.
\<close>

definition unix_nano :: "time \<Rightarrow> 64 word" where
  "unix_nano t = word_of_int (nanos t)"

definition in_nano_range :: "time \<Rightarrow> bool" where
  "in_nano_range t \<longleftrightarrow> - (2 ^ 63) \<le> nanos t \<and> nanos t < 2 ^ 63"

lemma unix_nano_inj:
  assumes "unix_nano s = unix_nano t" and "in_nano_range s" and "in_nano_range t"
  shows "s = t"
proof -
  from assms(1) have "sint (unix_nano s) = sint (unix_nano t)"
    by simp
  moreover have "sint (unix_nano u) = nanos u" if "in_nano_range u" for u
    using that by (simp add: unix_nano_def in_nano_range_def sint_sbintrunc' signed_take_bit_int_eq_self)
  ultimately show ?thesis
    using assms(2,3) by (simp add: time.expand)
qed

section \<open>Errors\<close>

text \<open>
  Go error values, one constructor per error type or sentinel of the program. \<open>ErrMsg\<close> is an
  \<open>errors.New\<close> or a \<open>fmt.Errorf\<close> without \<open>%w\<close>; \<open>ErrWrap\<close> is \<open>fmt.Errorf("prefix: %w", err)\<close>,
  which \<open>errors.As\<close> and \<open>errors.Is\<close> look through. A formatted message is kept as its fixed text
  with its string argument; no code branches on the text.
\<close>

datatype go_error =
    ErrValidation string
  | ErrNotFound string
  | ErrRetentionActive string
  | ErrObjectNotFound string
  | ErrEmptyChain
  | ErrContext
  | ErrHexByte char
  | ErrHexLength
  | ErrMsg string
  | ErrWrap string go_error

primrec root_cause :: "go_error \<Rightarrow> go_error" where
  "root_cause (ErrValidation r) = ErrValidation r"
| "root_cause (ErrNotFound i) = ErrNotFound i"
| "root_cause (ErrRetentionActive k) = ErrRetentionActive k"
| "root_cause (ErrObjectNotFound k) = ErrObjectNotFound k"
| "root_cause ErrEmptyChain = ErrEmptyChain"
| "root_cause ErrContext = ErrContext"
| "root_cause (ErrHexByte c) = ErrHexByte c"
| "root_cause ErrHexLength = ErrHexLength"
| "root_cause (ErrMsg m) = ErrMsg m"
| "root_cause (ErrWrap m e) = root_cause e"

type_synonym 'a result = "go_error + 'a"

section \<open>Lists with a strictly increasing key\<close>

abbreviation ascending :: "('a \<Rightarrow> 'k :: linorder) \<Rightarrow> 'a list \<Rightarrow> bool" where
  "ascending k xs \<equiv> sorted_wrt (\<lambda>x y. k x < k y) xs"

lemma ascending_imp_sorted: "ascending k xs \<Longrightarrow> sorted (map k xs)"
  by (induction xs) auto

lemma ascending_filter: "ascending k xs \<Longrightarrow> ascending k (filter P xs)"
  by (rule sorted_wrt_filter)

lemma ascending_distinct: "ascending k xs \<Longrightarrow> distinct (map k xs)"
  by (induction xs) auto

text \<open>A stable insertion into an ascending list: everything smaller, the new element, the rest.\<close>

lemma insort_key_split:
  "sorted (map k xs) \<Longrightarrow>
   insort_key k x xs = filter (\<lambda>y. k y < k x) xs @ x # filter (\<lambda>y. \<not> k y < k x) xs"
proof (induction xs)
  case (Cons y ys)
  show ?case
  proof (cases "k x \<le> k y")
    case True
    with Cons.prems have "\<forall>z \<in> set ys. k x \<le> k z"
      by auto
    then have "filter (\<lambda>z. k z < k x) ys = []" and "filter (\<lambda>z. \<not> k z < k x) ys = ys"
      by (auto simp: filter_empty_conv filter_id_conv)
    with True show ?thesis by (simp add: leD)
  next
    case False
    with Cons show ?thesis by auto
  qed
qed simp

lemma sort_key_insert_last:
  assumes "ascending k xs" and "k x \<notin> k ` set xs"
  shows "sort_key k (xs @ [x]) = filter (\<lambda>y. k y < k x) xs @ x # filter (\<lambda>y. k x < k y) xs"
proof -
  have s: "sorted (map k xs)"
    using assms(1) by (rule ascending_imp_sorted)
  have n: "filter (\<lambda>y. \<not> k y < k x) xs = filter (\<lambda>y. k x < k y) xs"
    using assms(2) by (intro filter_cong) (auto simp: image_iff)
  have "sort_key k (xs @ [x]) = insort_key k x xs"
  proof (rule map_sorted_distinct_set_unique [symmetric])
    show "inj_on k (set (insort_key k x xs) \<union> set (sort_key k (xs @ [x])))"
      using ascending_distinct [OF assms(1)] assms(2) by (auto simp: set_insort_key distinct_map)
    show "sorted (map k (insort_key k x xs))"
      using s by (simp add: sorted_insort_key)
    show "distinct (map k (insort_key k x xs))"
      using ascending_distinct [OF assms(1)] assms(2)
      by (auto simp: distinct_map distinct_insort set_insort_key)
    show "distinct (map k (sort_key k (xs @ [x])))"
      using ascending_distinct [OF assms(1)] assms(2) by (auto simp: distinct_map)
  qed (auto simp: set_insort_key)
  then show ?thesis
    using insort_key_split [OF s, of x] n by simp
qed

lemma ascending_insert:
  assumes "ascending k xs" and "k x \<notin> k ` set xs"
  shows "ascending k (filter (\<lambda>y. k y < k x) xs @ x # filter (\<lambda>y. k x < k y) xs)"
  using assms(1) by (auto simp: sorted_wrt_append ascending_filter)

lemma ascending_last_max:
  assumes "ascending k xs" and "y \<in> set xs"
  shows "k y \<le> k (last xs)"
proof -
  from assms(2) obtain us vs where xs: "xs = us @ y # vs"
    by (meson split_list)
  show ?thesis
  proof (cases "vs = []")
    case True
    with xs show ?thesis by simp
  next
    case False
    then have "last vs \<in> set vs" by simp
    with assms(1) have "k y < k (last vs)"
      by (auto simp: xs sorted_wrt_append)
    with False xs show ?thesis by simp
  qed
qed

lemma ascending_filter_after:
  assumes "ascending k xs" and "take n xs \<noteq> []"
  shows "filter (\<lambda>y. k (last (take n xs)) < k y) xs = drop n xs"
proof -
  let ?us = "take n xs" and ?vs = "drop n xs"
  from assms(1) have s: "ascending k (?us @ ?vs)"
    by simp
  then have "\<forall>y \<in> set ?us. \<not> k (last ?us) < k y"
    using ascending_last_max [of k ?us] by (auto simp: sorted_wrt_append not_less)
  then have "filter (\<lambda>y. k (last ?us) < k y) ?us = []"
    by (simp add: filter_empty_conv)
  moreover have "\<forall>y \<in> set ?vs. k (last ?us) < k y"
    using s last_in_set [OF assms(2)] by (auto simp: sorted_wrt_append simp del: append_take_drop_id)
  then have "filter (\<lambda>y. k (last ?us) < k y) ?vs = ?vs"
    by (simp add: filter_id_conv)
  ultimately have "filter (\<lambda>y. k (last ?us) < k y) (?us @ ?vs) = ?vs"
    by (simp only: filter_append) simp
  then show ?thesis
    by simp
qed

lemma find_distinct_key:
  assumes "distinct (map k xs)" and "x \<in> set xs" and "k x = v"
  shows "find (\<lambda>y. k y = v) xs = Some x"
  using assms by (induction xs) (auto simp: image_iff)

lemma find_key_None: "v \<notin> k ` set xs \<Longrightarrow> find (\<lambda>y. k y = v) xs = None"
  by (auto simp: find_None_iff)

lemma ascending_partition:
  assumes "ascending k xs" and "v \<notin> k ` set xs"
  shows "filter (\<lambda>y. k y < v) xs @ filter (\<lambda>y. v < k y) xs = xs"
  using assms
proof (induction xs)
  case (Cons x xs)
  show ?case
  proof (cases "k x < v")
    case True
    with Cons show ?thesis by auto
  next
    case False
    with Cons.prems(2) have "v < k x"
      by auto
    moreover from this Cons.prems(1) have "\<forall>y \<in> set xs. v < k y"
      by auto
    ultimately have "filter (\<lambda>y. k y < v) (x # xs) = []" "filter (\<lambda>y. v < k y) (x # xs) = x # xs"
      by (auto simp: filter_empty_conv filter_id_conv dest: less_asym)
    then show ?thesis by simp
  qed
qed simp

lemma all_nat_shift:
  "(\<forall>i. Suc i < length (x # y # zs) \<longrightarrow> P i) \<longleftrightarrow> P 0 \<and> (\<forall>i. Suc i < length (y # zs) \<longrightarrow> P (Suc i))"
proof (intro iffI conjI allI impI)
  fix i
  assume "P 0 \<and> (\<forall>i. Suc i < length (y # zs) \<longrightarrow> P (Suc i))" and "Suc i < length (x # y # zs)"
  then show "P i"
    by (cases i) auto
qed auto

end
