(* ===== verification/Gostd.thy ===== *)
theory Gostd
  imports Prelude
begin

text \<open>
  The functions of Go's standard library the program calls on strings and bytes: prefixes,
  splitting and trimming (\<open>strings\<close>), decimal integers (\<open>strconv.Atoi\<close>), ASCII case mapping,
  and hexadecimal text (\<open>encoding/hex\<close>), with the facts the components need of them.
\<close>

section \<open>strings\<close>

definition has_prefix :: "string \<Rightarrow> string \<Rightarrow> bool" where
  "has_prefix s p \<longleftrightarrow> prefix p s"

definition trim_prefix :: "string \<Rightarrow> string \<Rightarrow> string" where
  "trim_prefix s p = (if has_prefix s p then drop (length p) s else s)"

lemma has_prefix_append [simp]: "has_prefix (p @ s) p"
  by (simp add: has_prefix_def)

lemma trim_prefix_append [simp]: "trim_prefix (p @ s) p = s"
  by (simp add: trim_prefix_def)

lemma has_prefix_iff: "has_prefix s p \<longleftrightarrow> s = p @ trim_prefix s p"
  by (auto simp: has_prefix_def trim_prefix_def prefix_def)

lemma trim_prefix_id: "\<not> has_prefix s p \<Longrightarrow> trim_prefix s p = s"
  by (simp add: trim_prefix_def)

definition has_suffix :: "string \<Rightarrow> string \<Rightarrow> bool" where
  "has_suffix s p \<longleftrightarrow> suffix p s"

definition trim_suffix :: "string \<Rightarrow> string \<Rightarrow> string" where
  "trim_suffix s p = (if has_suffix s p then take (length s - length p) s else s)"

text \<open>\<open>strings.Split\<close> with a one-byte separator: always at least one part.\<close>

fun split_on :: "char \<Rightarrow> string \<Rightarrow> string list" where
  "split_on c [] = [[]]"
| "split_on c (x # xs) =
     (if x = c then [] # split_on c xs
      else case split_on c xs of [] \<Rightarrow> [[x]] | p # ps \<Rightarrow> (x # p) # ps)"

fun join_with :: "char \<Rightarrow> string list \<Rightarrow> string" where
  "join_with c [] = []"
| "join_with c [p] = p"
| "join_with c (p # q # ps) = p @ c # join_with c (q # ps)"

lemma split_on_nonempty [simp]: "split_on c s \<noteq> []"
  by (induction s) (auto split: list.splits)

lemma join_split_on: "join_with c (split_on c s) = s"
proof (induction s)
  case (Cons x s)
  obtain p ps where ps: "split_on c s = p # ps"
    by (cases "split_on c s") auto
  with Cons show ?case
    by (cases ps) auto
qed simp

lemma split_on_no_sep: "c \<notin> set s \<Longrightarrow> split_on c s = [s]"
  by (induction s) auto

lemma split_on_append: "c \<notin> set s \<Longrightarrow> split_on c (s @ c # t) = s # split_on c t"
  by (induction s) auto

lemma split_join: "ps \<noteq> [] \<Longrightarrow> \<forall>p \<in> set ps. c \<notin> set p \<Longrightarrow> split_on c (join_with c ps) = ps"
  by (induction c ps rule: join_with.induct) (auto simp: split_on_no_sep split_on_append)

text \<open>
  \<open>strings.TrimSpace\<close> drops the white space of \<open>unicode.IsSpace\<close> at both ends. The UTF-8 encodings
  of these code points are listed; no encoding is a prefix of another.
\<close>

definition space_encodings :: "string list" where
  "space_encodings = map (map char_of)
     [[9], [10], [11], [12], [13], [32], [194, 133], [194, 160], [225, 154, 128 :: nat],
      [226, 128, 128], [226, 128, 129], [226, 128, 130], [226, 128, 131], [226, 128, 132],
      [226, 128, 133], [226, 128, 134], [226, 128, 135], [226, 128, 136], [226, 128, 137],
      [226, 128, 138], [226, 128, 168], [226, 128, 169], [226, 128, 175], [226, 129, 159],
      [227, 128, 128]]"

function strip_all :: "string list \<Rightarrow> string \<Rightarrow> string" where
  "strip_all ws s =
     (case find (\<lambda>w. w \<noteq> [] \<and> prefix w s) ws of
        None \<Rightarrow> s
      | Some w \<Rightarrow> strip_all ws (drop (length w) s))"
  by pat_completeness auto
termination
  by (relation "measure (\<lambda>(ws, s). length s)") (auto simp: find_Some_iff prefix_def)

declare strip_all.simps [simp del]

definition trim_left :: "string \<Rightarrow> string" where
  "trim_left s = strip_all space_encodings s"

definition trim_right :: "string \<Rightarrow> string" where
  "trim_right s = rev (strip_all (map rev space_encodings) (rev s))"

definition trim_space :: "string \<Rightarrow> string" where
  "trim_space s = trim_right (trim_left s)"

text \<open>A printable ASCII byte starts and ends no encoding of white space.\<close>

definition is_graphic :: "char \<Rightarrow> bool" where
  "is_graphic c \<longleftrightarrow> 32 < (of_char c :: nat) \<and> (of_char c :: nat) < 127"

lemma strip_all_stop:
  assumes "s = [] \<or> is_graphic (hd s)" and "\<forall>w \<in> set ws. \<forall>c \<in> set w. \<not> is_graphic c"
  shows "strip_all ws s = s"
proof -
  have "find (\<lambda>w. w \<noteq> [] \<and> prefix w s) ws = None"
    using assms by (auto simp: find_None_iff prefix_def neq_Nil_conv)
  then show ?thesis
    by (simp add: strip_all.simps [of ws s])
qed

lemma space_encodings_not_graphic: "w \<in> set space_encodings \<Longrightarrow> c \<in> set w \<Longrightarrow> \<not> is_graphic c"
  by (auto simp: space_encodings_def is_graphic_def)

lemma trim_space_graphic:
  assumes "s = [] \<or> is_graphic (hd s) \<and> is_graphic (last s)"
  shows "trim_space s = s"
proof -
  have "trim_left s = s"
    unfolding trim_left_def
    by (rule strip_all_stop) (use assms space_encodings_not_graphic in auto)
  moreover have "trim_right s = s"
    unfolding trim_right_def
    by (subst strip_all_stop) (use assms space_encodings_not_graphic in \<open>auto simp: hd_rev\<close>)
  ultimately show ?thesis
    by (simp add: trim_space_def)
qed

text \<open>
  Case mapping. On ASCII text \<open>strings.ToLower\<close> and \<open>strings.ToUpper\<close> map the letters; any other
  text goes through the Unicode tables, the parameter \<open>tab\<close>.
\<close>

definition is_ascii :: "string \<Rightarrow> bool" where
  "is_ascii s \<longleftrightarrow> list_all (\<lambda>c. (of_char c :: nat) < 128) s"

definition lower_char :: "char \<Rightarrow> char" where
  "lower_char c = (let n = of_char c :: nat in if 65 \<le> n \<and> n \<le> 90 then char_of (n + 32) else c)"

definition upper_char :: "char \<Rightarrow> char" where
  "upper_char c = (let n = of_char c :: nat in if 97 \<le> n \<and> n \<le> 122 then char_of (n - 32) else c)"

definition to_lower :: "(string \<Rightarrow> string) \<Rightarrow> string \<Rightarrow> string" where
  "to_lower tab s = (if is_ascii s then map lower_char s else tab s)"

definition to_upper :: "(string \<Rightarrow> string) \<Rightarrow> string \<Rightarrow> string" where
  "to_upper tab s = (if is_ascii s then map upper_char s else tab s)"

lemma lower_char_ascii: "(of_char c :: nat) < 128 \<Longrightarrow> (of_char (lower_char c) :: nat) < 128"
  by (auto simp: lower_char_def Let_def)

lemma lower_char_not_upper:
  "\<not> (65 \<le> (of_char (lower_char c) :: nat) \<and> (of_char (lower_char c) :: nat) \<le> 90)"
  by (auto simp: lower_char_def Let_def)

section \<open>strconv.Atoi\<close>

definition is_digit :: "char \<Rightarrow> bool" where
  "is_digit c \<longleftrightarrow> 48 \<le> (of_char c :: nat) \<and> (of_char c :: nat) \<le> 57"

definition digits_value :: "string \<Rightarrow> nat" where
  "digits_value s = foldl (\<lambda>n c. 10 * n + (of_char c - 48)) 0 s"

definition atoi :: "string \<Rightarrow> int option" where
  "atoi s =
     (let neg = has_prefix s ''-'';
          ds = (if neg \<or> has_prefix s ''+'' then drop 1 s else s);
          v = (if neg then - int (digits_value ds) else int (digits_value ds))
      in if ds = [] \<or> \<not> list_all is_digit ds then None
         else if v < - (2 ^ 63) \<or> 2 ^ 63 \<le> v then None
         else Some v)"

section \<open>encoding/hex\<close>

definition hex_digit :: "nat \<Rightarrow> char" where
  "hex_digit n = (if n < 10 then char_of (48 + n) else char_of (87 + n))"

definition from_hex :: "char \<Rightarrow> nat option" where
  "from_hex c =
     (let n = of_char c :: nat in
      if 48 \<le> n \<and> n \<le> 57 then Some (n - 48)
      else if 97 \<le> n \<and> n \<le> 102 then Some (n - 87)
      else if 65 \<le> n \<and> n \<le> 70 then Some (n - 55)
      else None)"

fun hex_encode :: "bytes \<Rightarrow> string" where
  "hex_encode [] = []"
| "hex_encode (b # bs) = hex_digit (unat b div 16) # hex_digit (unat b mod 16) # hex_encode bs"

text \<open>\<open>hex.DecodeString\<close>: pairs of digits, the first offending byte or an odd length as error.\<close>

fun hex_decode :: "string \<Rightarrow> bytes result" where
  "hex_decode [] = Inr []"
| "hex_decode [p] = (if from_hex p = None then Inl (ErrHexByte p) else Inl ErrHexLength)"
| "hex_decode (p # q # rest) =
     (case from_hex p of
        None \<Rightarrow> Inl (ErrHexByte p)
      | Some a \<Rightarrow>
          (case from_hex q of
             None \<Rightarrow> Inl (ErrHexByte q)
           | Some b \<Rightarrow>
               (case hex_decode rest of
                  Inl e \<Rightarrow> Inl e
                | Inr bs \<Rightarrow> Inr (word_of_nat (16 * a + b) # bs))))"

lemma from_hex_hex_digit [simp]: "n < 16 \<Longrightarrow> from_hex (hex_digit n) = Some n"
  by (auto simp: from_hex_def hex_digit_def Let_def)

lemma length_hex_encode [simp]: "length (hex_encode bs) = 2 * length bs"
  by (induction bs) auto

lemma unat_byte_less: "unat (b :: byte) < 256"
  using unsigned_less [of b] by simp

lemma hex_decode_encode [simp]: "hex_decode (hex_encode bs) = Inr bs"
proof (induction bs)
  case (Cons b bs)
  have "16 * (unat b div 16) + unat b mod 16 = unat b"
    by simp
  moreover have "unat b div 16 < 16"
    using unat_byte_less [of b] by simp
  ultimately show ?case
    using Cons by simp
qed simp

lemma hex_encode_inject [simp]: "hex_encode a = hex_encode b \<longleftrightarrow> a = b"
  by (metis hex_decode_encode sum.inject(2))

lemma hex_decode_length: "hex_decode s = Inr bs \<Longrightarrow> length s = 2 * length bs"
  by (induction s arbitrary: bs rule: hex_decode.induct) (auto split: option.splits sum.splits if_splits)

lemma hex_decode_digits: "hex_decode s = Inr bs \<Longrightarrow> list_all (\<lambda>c. from_hex c \<noteq> None) s"
  by (induction s arbitrary: bs rule: hex_decode.induct) (auto split: option.splits sum.splits if_splits)

lemma hex_decode_total:
  "list_all (\<lambda>c. from_hex c \<noteq> None) s \<Longrightarrow> even (length s) \<Longrightarrow> \<exists>bs. hex_decode s = Inr bs"
  by (induction s rule: hex_decode.induct) fastforce+

lemma hex_encode_digits: "list_all (\<lambda>c. from_hex c \<noteq> None) (hex_encode bs)"
  by (rule hex_decode_digits [OF hex_decode_encode])

section \<open>Decimal text (\<open>fmt\<close>'s \<open>%d\<close>)\<close>

fun decimal :: "nat \<Rightarrow> string" where
  "decimal n = (if n < 10 then [char_of (48 + n)] else decimal (n div 10) @ [char_of (48 + n mod 10)])"

declare decimal.simps [simp del]

definition int_text :: "int \<Rightarrow> string" where
  "int_text i = (if i < 0 then CHR ''-'' # decimal (nat (- i)) else decimal (nat i))"

lemma digits_value_snoc [simp]: "digits_value (s @ [c]) = 10 * digits_value s + (of_char c - 48)"
  by (simp add: digits_value_def)

lemma digit_char:
  fixes n :: nat
  shows "n < 10 \<Longrightarrow> is_digit (char_of (48 + n)) \<and> of_char (char_of (48 + n) :: char) = 48 + n"
  by (simp add: is_digit_def)

lemma decimal_digits: "decimal n \<noteq> [] \<and> list_all is_digit (decimal n) \<and> digits_value (decimal n) = n"
proof (induction n rule: decimal.induct)
  case (1 n)
  show ?case
  proof (cases "n < 10")
    case True
    then show ?thesis
      using digit_char [of n] by (simp add: decimal.simps [of n] digits_value_def)
  next
    case False
    with 1 show ?thesis
      using digit_char [of "n mod 10"] by (simp add: decimal.simps [of n])
  qed
qed

section \<open>The text of an error\<close>

text \<open>\<open>%q\<close> of text that needs no escapes (hashes and the like in error messages).\<close>

definition quoted :: "string \<Rightarrow> string" where
  "quoted s = CHR 0x22 # s @ [CHR 0x22]"

text \<open>The \<open>Error\<close> methods of the repository's error types.\<close>

definition validation_text :: "string \<Rightarrow> string" where
  "validation_text reason = ''event: invalid: '' @ reason"

definition not_found_text :: "string \<Rightarrow> string" where
  "not_found_text i = ''store: not found: '' @ i"

definition retention_text :: "string \<Rightarrow> string" where
  "retention_text key = ''s3store: object under retention: '' @ key"

definition object_not_found_text :: "string \<Rightarrow> string" where
  "object_not_found_text key = ''s3store: not found: '' @ key"

text \<open>\<open>Error\<close> of any error value; \<open>rune_text\<close> is the form \<open>%#U\<close> of a character.\<close>

primrec go_error_text :: "(char \<Rightarrow> string) \<Rightarrow> go_error \<Rightarrow> string" where
  "go_error_text rune_text (ErrValidation r) = validation_text r"
| "go_error_text rune_text (ErrNotFound i) = not_found_text i"
| "go_error_text rune_text (ErrRetentionActive k) = retention_text k"
| "go_error_text rune_text (ErrObjectNotFound k) = object_not_found_text k"
| "go_error_text rune_text ErrEmptyChain = ''chain: no events to anchor''"
| "go_error_text rune_text ErrContext = ''context canceled''"
| "go_error_text rune_text (ErrHexByte c) = ''encoding/hex: invalid byte: '' @ rune_text c"
| "go_error_text rune_text ErrHexLength = ''encoding/hex: odd length hex string''"
| "go_error_text rune_text (ErrMsg m) = m"
| "go_error_text rune_text (ErrWrap m e) = m @ '': '' @ go_error_text rune_text e"

text \<open>However often an error was wrapped, its text ends with the cause.\<close>

lemma go_error_text_cause: "suffix (go_error_text rune_text (root_cause e)) (go_error_text rune_text e)"
proof (induction e)
  case (ErrWrap m e)
  then show ?case
    by (auto simp: suffix_def intro: append_assoc [symmetric])
qed simp_all

end
