(* ===== verification/Store.thy ===== *)
theory Store
  imports Gostd
begin

text \<open>
  \<open>internal/store\<close>: the persisted records, the search filter and its keyset cursor, and the storage
  interfaces. The Go interface \<open>EventStore\<close> is the locales \<open>event_pager\<close>, \<open>event_reader\<close> and
  \<open>event_store\<close>, each an extension of the one before: the operations a client calls and the laws a provider promises, stated against the
  abstract event log, the list of all events in \<open>(ts, id)\<close> order. The loop by which clients page
  through \<open>List\<close> is defined here, and proved to return every matching event exactly once.
\<close>

section \<open>Records\<close>

record event =
  ev_id :: string
  ev_ts :: time
  ev_source_service :: string
  ev_actor_id :: string
  ev_action :: string
  ev_target_type :: string
  ev_target_id :: string
  ev_payload_hash :: bytes
  ev_payload_ref :: string
  ev_prev_hash :: bytes
  ev_this_hash :: bytes
  ev_anchored :: bool
  ev_legal_hold :: bool
  ev_redacted :: bool

definition ev_key :: "event \<Rightarrow> time \<times> string" where
  "ev_key e = (ev_ts e, ev_id e)"

text \<open>The part of a row that no operation may change: everything but the two flags.\<close>

definition immutable_part :: "event \<Rightarrow> event" where
  "immutable_part e = e\<lparr>ev_anchored := False, ev_legal_hold := False\<rparr>"

record cursor =
  cur_ts :: time
  cur_id :: string

definition zero_cursor :: cursor where
  "zero_cursor = \<lparr>cur_ts = zero_time, cur_id = ''''\<rparr>"

definition cursor_at :: "event \<Rightarrow> cursor" where
  "cursor_at e = \<lparr>cur_ts = ev_ts e, cur_id = ev_id e\<rparr>"

record filter =
  f_from :: time
  f_to :: time
  f_service :: string
  f_actor :: string
  f_action :: string
  f_target_type :: string
  f_target_id :: string
  f_limit :: int
  f_cursor :: cursor

definition zero_filter :: filter where
  "zero_filter = \<lparr>f_from = zero_time, f_to = zero_time, f_service = '''', f_actor = '''',
     f_action = '''', f_target_type = '''', f_target_id = '''', f_limit = 0, f_cursor = zero_cursor\<rparr>"

record list_result =
  lr_events :: "event list"
  lr_next :: cursor

record anchor =
  an_id :: string
  an_anchored_at :: time
  an_root_hash :: bytes
  an_last_event_id :: string
  an_last_event_ts :: time
  an_signature :: bytes
  an_kms_key_id :: string
  an_notary_url :: string
  an_event_count :: int

record export_job =
  job_id :: string
  job_query :: bytes
  job_format :: string
  job_retention_days :: int
  job_status :: string
  job_row_count :: int
  job_payload_ref :: string
  job_chain_root :: bytes
  job_anchor_id :: string
  job_created_at :: time
  job_completed_at :: time

record dead_letter =
  dl_id :: string
  dl_topic :: string
  dl_partition :: int
  dl_offset :: int
  dl_key :: string
  dl_payload :: bytes
  dl_reason :: string
  dl_rejected_at :: time

definition is_not_found :: "go_error \<Rightarrow> bool" where
  "is_not_found err = (case root_cause err of ErrNotFound _ \<Rightarrow> True | _ \<Rightarrow> False)"

section \<open>Cursor text\<close>

text \<open>
  \<open>Cursor.String\<close> and \<open>ParseCursor\<close>. The formatting and parsing of a time in RFC 3339 with
  nanoseconds are the parameters \<open>fmt_time\<close> and \<open>parse_time\<close>.
\<close>

definition cursor_string :: "(time \<Rightarrow> string) \<Rightarrow> cursor \<Rightarrow> string" where
  "cursor_string fmt_time c =
     (if is_zero (cur_ts c) \<and> cur_id c = '''' then ''''
      else fmt_time (cur_ts c) @ ''|'' @ cur_id c)"

fun scan_cursor :: "(string \<Rightarrow> time result) \<Rightarrow> string \<Rightarrow> string \<Rightarrow> cursor result" where
  "scan_cursor parse_time before [] = Inl (ErrMsg ''store: invalid cursor'')"
| "scan_cursor parse_time before (c # cs) =
     (if c = CHR ''|'' then
        (case parse_time before of
           Inl err \<Rightarrow> Inl err
         | Inr ts \<Rightarrow> Inr \<lparr>cur_ts = ts, cur_id = cs\<rparr>)
      else scan_cursor parse_time (before @ [c]) cs)"

definition parse_cursor :: "(string \<Rightarrow> time result) \<Rightarrow> string \<Rightarrow> cursor result" where
  "parse_cursor parse_time s = (if s = '''' then Inr zero_cursor else scan_cursor parse_time '''' s)"

lemma scan_cursor_append:
  "CHR ''|'' \<notin> set t \<Longrightarrow>
   scan_cursor parse_time before (t @ CHR ''|'' # i) =
     (case parse_time (before @ t) of Inl err \<Rightarrow> Inl err | Inr ts \<Rightarrow> Inr \<lparr>cur_ts = ts, cur_id = i\<rparr>)"
  by (induction t arbitrary: before) auto

lemma scan_cursor_no_bar:
  "CHR ''|'' \<notin> set t \<Longrightarrow> scan_cursor parse_time before t = Inl (ErrMsg ''store: invalid cursor'')"
  by (induction t arbitrary: before) auto

lemma parse_cursor_string:
  assumes "is_zero (cur_ts c) \<and> cur_id c = '''' \<or>
    parse_time (fmt_time (cur_ts c)) = Inr (cur_ts c) \<and> CHR ''|'' \<notin> set (fmt_time (cur_ts c))"
  shows "parse_cursor parse_time (cursor_string fmt_time c) = Inr c"
proof (cases "is_zero (cur_ts c) \<and> cur_id c = ''''")
  case True
  then have "c = zero_cursor"
    by (simp add: zero_cursor_def is_zero_def)
  with True show ?thesis
    by (simp add: cursor_string_def parse_cursor_def)
next
  case False
  with assms show ?thesis
    by (auto simp: cursor_string_def parse_cursor_def scan_cursor_append)
qed

section \<open>The search filter\<close>

text \<open>The guards of \<open>List\<close> that do not concern the cursor, in the order of the code.\<close>

definition matches_fields :: "filter \<Rightarrow> event \<Rightarrow> bool" where
  "matches_fields f e \<longleftrightarrow>
     (if \<not> is_zero (f_from f) \<and> ev_ts e < f_from f then False
      else if \<not> is_zero (f_to f) \<and> \<not> ev_ts e < f_to f then False
      else if f_service f \<noteq> '''' \<and> ev_source_service e \<noteq> f_service f then False
      else if f_actor f \<noteq> '''' \<and> ev_actor_id e \<noteq> f_actor f then False
      else if f_action f \<noteq> '''' \<and> ev_action e \<noteq> f_action f then False
      else if f_target_type f \<noteq> '''' \<and> ev_target_type e \<noteq> f_target_type f then False
      else if f_target_id f \<noteq> '''' \<and> ev_target_id e \<noteq> f_target_id f then False
      else True)"

text \<open>The keyset guard: without a cursor every row passes, else only rows strictly after it.\<close>

definition after_cursor :: "cursor \<Rightarrow> event \<Rightarrow> bool" where
  "after_cursor c e \<longleftrightarrow>
     (if \<not> is_zero (cur_ts c) \<or> cur_id c \<noteq> '''' then
        ev_ts e > cur_ts c \<or> (ev_ts e = cur_ts c \<and> ev_id e > cur_id c)
      else True)"

definition passes_filter :: "filter \<Rightarrow> event \<Rightarrow> bool" where
  "passes_filter f e \<longleftrightarrow> matches_fields f e \<and> after_cursor (f_cursor f) e"

lemma after_cursor_at:
  "\<not> is_zero (ev_ts c) \<Longrightarrow> after_cursor (cursor_at c) e \<longleftrightarrow> ev_key c < ev_key e"
  by (auto simp: after_cursor_def cursor_at_def ev_key_def less_prod_def')

lemma after_zero_cursor [simp]: "after_cursor zero_cursor e"
  by (simp add: after_cursor_def zero_cursor_def)

lemma after_cursor_mono: "after_cursor c e \<Longrightarrow> ev_key e < ev_key e' \<Longrightarrow> after_cursor c e'"
  by (auto simp: after_cursor_def ev_key_def less_prod_def' split: if_splits)

lemma matches_fields_cursor [simp]: "matches_fields (f\<lparr>f_cursor := c\<rparr>) = matches_fields f"
  by (simp add: matches_fields_def fun_eq_iff)

lemma matches_fields_limit [simp]: "matches_fields (f\<lparr>f_limit := n\<rparr>) = matches_fields f"
  by (simp add: matches_fields_def fun_eq_iff)

section \<open>Paging through a list\<close>

text \<open>
  The loop shared by the integrity sweep and the export runner: poll the context, list one page,
  stop on an empty page or a zero next cursor, else continue after the page's last row. The \<open>k\<close>-th
  poll of the context finds it cancelled if \<open>cancelled k\<close>. Nothing bounds the number of pages for an
  arbitrary provider, so not returning is the value \<open>None\<close>.
\<close>

datatype page_error = Cancelled | ListFailed go_error

partial_function (option) collect_pages ::
  "(nat \<Rightarrow> bool) \<Rightarrow> (filter \<Rightarrow> list_result result) \<Rightarrow> nat \<Rightarrow> filter \<Rightarrow> event list \<Rightarrow>
   (page_error + event list) option" where
  "collect_pages cancelled list_events k f acc =
     (if cancelled k then Some (Inl Cancelled)
      else case list_events f of
             Inl err \<Rightarrow> Some (Inl (ListFailed err))
           | Inr res \<Rightarrow>
               (if lr_events res = [] then Some (Inr acc)
                else if is_zero (cur_ts (lr_next res)) then Some (Inr (acc @ lr_events res))
                else collect_pages cancelled list_events (Suc k) (f\<lparr>f_cursor := lr_next res\<rparr>)
                       (acc @ lr_events res)))"

text \<open>
  What a provider's page must be: a non-empty prefix of the matching rows, and a next cursor that is
  the last row of the page unless nothing follows it.
\<close>

definition lawful_page :: "event list \<Rightarrow> filter \<Rightarrow> list_result \<Rightarrow> bool" where
  "lawful_page log f res \<longleftrightarrow>
     (let rows = List.filter (passes_filter f) log; n = length (lr_events res) in
      lr_events res = take n rows \<and>
      (lr_events res = [] \<longrightarrow> rows = []) \<and>
      (lr_next res = zero_cursor \<and> n = length rows \<or>
       lr_events res \<noteq> [] \<and> lr_next res = cursor_at (last (lr_events res))))"

lemma rows_after_page:
  assumes asc: "ascending ev_key log"
    and page: "take n (List.filter (passes_filter f) log) \<noteq> []"
    and last: "c = last (take n (List.filter (passes_filter f) log))" "\<not> is_zero (ev_ts c)"
  shows "List.filter (passes_filter (f\<lparr>f_cursor := cursor_at c\<rparr>)) log =
    drop n (List.filter (passes_filter f) log)"
proof -
  let ?rows = "List.filter (passes_filter f) log"
  have "c \<in> set ?rows"
    using page last(1) by (metis in_set_takeD last_in_set)
  then have "after_cursor (f_cursor f) c"
    by (simp add: passes_filter_def)
  then have "List.filter (passes_filter (f\<lparr>f_cursor := cursor_at c\<rparr>)) log =
      List.filter (\<lambda>e. ev_key c < ev_key e) ?rows"
    by (auto simp: passes_filter_def after_cursor_at [OF last(2)] intro!: filter_cong
        dest: after_cursor_mono)
  also have "\<dots> = drop n ?rows"
    using ascending_filter_after [OF ascending_filter [OF asc] page] last(1) by simp
  finally show ?thesis .
qed

lemma collect_pages_complete:
  assumes asc: "ascending ev_key log"
    and pages: "\<And>f. admits f \<Longrightarrow> \<exists>res. list_events f = Inr res \<and> lawful_page log f res"
    and step: "\<And>f e. admits f \<Longrightarrow> e \<in> set log \<Longrightarrow> admits (f\<lparr>f_cursor := cursor_at e\<rparr>)"
    and nonzero: "\<forall>e \<in> set log. \<not> is_zero (ev_ts e)"
    and live: "\<And>k. \<not> cancelled k"
    and first: "admits f"
  shows "collect_pages cancelled list_events k f acc =
    Some (Inr (acc @ List.filter (passes_filter f) log))"
  using first
proof (induction "length (List.filter (passes_filter f) log)" arbitrary: k f acc rule: less_induct)
  case less
  let ?rows = "List.filter (passes_filter f) log"
  obtain res where res: "list_events f = Inr res" and law: "lawful_page log f res"
    using pages [OF less.prems] by blast
  define n where "n = length (lr_events res)"
  have page: "lr_events res = take n ?rows"
    using law by (simp add: lawful_page_def Let_def n_def)
  show ?case
  proof (cases "lr_events res = []")
    case True
    with law have "?rows = []"
      by (simp add: lawful_page_def Let_def)
    with True res live show ?thesis
      by (simp add: collect_pages.simps [of cancelled list_events k f acc])
  next
    case nonempty: False
    define c where "c = last (lr_events res)"
    have "c \<in> set ?rows"
      using last_in_set [OF nonempty] unfolding c_def page by (rule in_set_takeD)
    with nonzero have c_nonzero: "\<not> is_zero (ev_ts c)"
      by simp
    have admits_next: "admits (f\<lparr>f_cursor := cursor_at c\<rparr>)"
      using step [OF less.prems] \<open>c \<in> set ?rows\<close> by simp
    show ?thesis
    proof (cases "lr_next res = zero_cursor")
      case True
      with law c_nonzero nonempty have "n = length ?rows"
        by (auto simp: lawful_page_def Let_def n_def c_def zero_cursor_def cursor_at_def)
      with page have "lr_events res = ?rows"
        by simp
      with True nonempty res live show ?thesis
        by (simp add: collect_pages.simps [of cancelled list_events k f acc] zero_cursor_def)
    next
      case False
      with law have next_c: "lr_next res = cursor_at c"
        by (auto simp: lawful_page_def Let_def c_def)
      have rest: "List.filter (passes_filter (f\<lparr>f_cursor := cursor_at c\<rparr>)) log = drop n ?rows"
        by (rule rows_after_page [OF asc]) (use nonempty page c_nonzero in \<open>auto simp: c_def\<close>)
      have "0 < n"
        using nonempty by (simp add: n_def)
      moreover have "0 < length ?rows"
        using \<open>c \<in> set ?rows\<close> by (cases ?rows) auto
      ultimately have "length (drop n ?rows) < length ?rows"
        by simp
      with less.hyps [of "f\<lparr>f_cursor := cursor_at c\<rparr>" "Suc k" "acc @ lr_events res"] rest admits_next
      have "collect_pages cancelled list_events (Suc k) (f\<lparr>f_cursor := cursor_at c\<rparr>) (acc @ lr_events res)
          = Some (Inr (acc @ lr_events res @ drop n ?rows))"
        by simp
      moreover have "lr_events res @ drop n ?rows = ?rows"
        by (subst page) simp
      ultimately show ?thesis
        using res live nonempty next_c c_nonzero
        by (simp add: collect_pages.simps [of cancelled list_events k f acc] cursor_at_def)
    qed
  qed
qed

section \<open>The event-store interface\<close>

text \<open>
  What paging through a store needs: a page is lawful for every filter the store takes as it is written
  (\<open>admits\<close>), and the cursor of a stored row makes no filter worse. Sweeps, exports and the operator
  command only need this much.
\<close>

locale event_pager =
  fixes inv :: "'s \<Rightarrow> bool"
    and log :: "'s \<Rightarrow> event list"
    and get :: "'s \<Rightarrow> string \<Rightarrow> event result"
    and list_events :: "'s \<Rightarrow> filter \<Rightarrow> list_result result"
    and admits :: "filter \<Rightarrow> bool"
  assumes log_ascending: "inv s \<Longrightarrow> ascending ev_key (log s)"
    and log_ids: "inv s \<Longrightarrow> distinct (map ev_id (log s))"
    and get_member: "inv s \<Longrightarrow> e \<in> set (log s) \<Longrightarrow> get s (ev_id e) = Inr e"
    and list_log: "inv s \<Longrightarrow> admits f \<Longrightarrow> \<exists>res. list_events s f = Inr res \<and> lawful_page (log s) f res"
    and list_next: "inv s \<Longrightarrow> admits f \<Longrightarrow> e \<in> set (log s) \<Longrightarrow> admits (f\<lparr>f_cursor := cursor_at e\<rparr>)"
begin

lemma pages_complete:
  "inv s \<Longrightarrow> \<forall>e \<in> set (log s). \<not> is_zero (ev_ts e) \<Longrightarrow> (\<And>k. \<not> cancelled k) \<Longrightarrow> admits f \<Longrightarrow>
   collect_pages cancelled (list_events s) k f acc =
     Some (Inr (acc @ List.filter (passes_filter f) (log s)))"
  by (rule collect_pages_complete [where admits = admits]) (auto simp: log_ascending list_log list_next)

end

text \<open>The whole reading half: what \<open>chain.Sweep\<close>, the export runner, the REST handlers and the CLI use.\<close>

locale event_reader = event_pager inv log get list_events "\<lambda>f. True"
  for inv :: "'s \<Rightarrow> bool" and log :: "'s \<Rightarrow> event list" and get :: "'s \<Rightarrow> string \<Rightarrow> event result"
    and list_events :: "'s \<Rightarrow> filter \<Rightarrow> list_result result" +
  fixes chain_head :: "'s \<Rightarrow> event option result"
  assumes get_log: "inv s \<Longrightarrow> get s i =
      (case find (\<lambda>e. ev_id e = i) (log s) of None \<Rightarrow> Inl (ErrNotFound i) | Some e \<Rightarrow> Inr e)"
    and head_log: "inv s \<Longrightarrow>
      chain_head s = Inr (if log s = [] then None else Some (last (log s)))"
begin

lemma get_missing: "inv s \<Longrightarrow> i \<notin> ev_id ` set (log s) \<Longrightarrow> get s i = Inl (ErrNotFound i)"
  by (simp add: get_log find_key_None)

lemma get_Inr_iff: "inv s \<Longrightarrow> get s i = Inr e \<longleftrightarrow> e \<in> set (log s) \<and> ev_id e = i"
proof
  assume "inv s" and "get s i = Inr e"
  then show "e \<in> set (log s) \<and> ev_id e = i"
    by (auto simp: get_log find_Some_iff split: option.splits)
qed (auto simp: get_member)

lemma head_max: "inv s \<Longrightarrow> chain_head s = Inr (Some h) \<Longrightarrow> e \<in> set (log s) \<Longrightarrow> ev_key e \<le> ev_key h"
  using ascending_last_max [OF log_ascending] by (auto simp: head_log split: if_splits)

end

text \<open>
  The writing half. \<open>insert_chained\<close> also returns the caller's row, whose two hash fields it fills
  in; the hash function is the caller's.
\<close>

definition chain_tip :: "event list \<Rightarrow> bytes" where
  "chain_tip l = (if l = [] then replicate 32 0 else ev_this_hash (last l))"

definition link_event :: "(bytes \<Rightarrow> bytes) \<Rightarrow> bytes \<Rightarrow> event \<Rightarrow> event" where
  "link_event hash_fn prev e = e\<lparr>ev_prev_hash := prev, ev_this_hash := hash_fn prev\<rparr>"

definition log_insert :: "event \<Rightarrow> event list \<Rightarrow> event list" where
  "log_insert e l =
     List.filter (\<lambda>x. ev_key x < ev_key e) l @ e # List.filter (\<lambda>x. ev_key e < ev_key x) l"

definition set_hold :: "string \<Rightarrow> bool \<Rightarrow> event \<Rightarrow> event" where
  "set_hold i hold e = (if ev_id e = i then e\<lparr>ev_legal_hold := hold\<rparr> else e)"

definition covered_by :: "time \<Rightarrow> string \<Rightarrow> event \<Rightarrow> bool" where
  "covered_by to_ts to_id e \<longleftrightarrow> ev_ts e < to_ts \<or> (ev_ts e = to_ts \<and> ev_id e \<le> to_id)"

definition anchor_event :: "time \<Rightarrow> string \<Rightarrow> event \<Rightarrow> event" where
  "anchor_event to_ts to_id e = (if covered_by to_ts to_id e then e\<lparr>ev_anchored := True\<rparr> else e)"

locale event_store = event_reader +
  fixes insert_chained :: "'s \<Rightarrow> event \<Rightarrow> (bytes \<Rightarrow> bytes) \<Rightarrow> bool result \<times> event \<times> 's"
    and set_legal_hold :: "'s \<Rightarrow> string \<Rightarrow> bool \<Rightarrow> go_error option \<times> 's"
    and mark_anchored :: "'s \<Rightarrow> time \<Rightarrow> string \<Rightarrow> int result \<times> 's"
  assumes insert_duplicate: "inv s \<Longrightarrow> ev_id e \<in> ev_id ` set (log s) \<Longrightarrow>
      insert_chained s e hash_fn = (Inr False, e, s)"
    and insert_fresh: "inv s \<Longrightarrow> ev_id e \<notin> ev_id ` set (log s) \<Longrightarrow>
      \<exists>s'. insert_chained s e hash_fn = (Inr True, link_event hash_fn (chain_tip (log s)) e, s') \<and>
        inv s' \<and> log s' = log_insert (link_event hash_fn (chain_tip (log s)) e) (log s)"
    and hold_missing: "inv s \<Longrightarrow> i \<notin> ev_id ` set (log s) \<Longrightarrow>
      set_legal_hold s i hold = (Some (ErrNotFound i), s)"
    and hold_present: "inv s \<Longrightarrow> i \<in> ev_id ` set (log s) \<Longrightarrow>
      \<exists>s'. set_legal_hold s i hold = (None, s') \<and> inv s' \<and> log s' = map (set_hold i hold) (log s)"
    and mark_log: "inv s \<Longrightarrow>
      \<exists>s'. mark_anchored s to_ts to_id =
          (Inr (int (length [e \<leftarrow> log s. covered_by to_ts to_id e \<and> \<not> ev_anchored e])), s') \<and>
        inv s' \<and> log s' = map (anchor_event to_ts to_id) (log s)"

lemma ev_key_immutable [simp]: "ev_key (immutable_part e) = ev_key e"
  by (simp add: ev_key_def immutable_part_def)

lemma link_event_fields [simp]:
  "ev_id (link_event h p e) = ev_id e" "ev_ts (link_event h p e) = ev_ts e"
  "ev_key (link_event h p e) = ev_key e" "ev_prev_hash (link_event h p e) = p"
  "ev_this_hash (link_event h p e) = h p"
  by (simp_all add: link_event_def ev_key_def)

lemma set_hold_fields [simp]:
  "ev_id (set_hold i b e) = ev_id e" "ev_ts (set_hold i b e) = ev_ts e"
  "ev_key (set_hold i b e) = ev_key e" "immutable_part (set_hold i b e) = immutable_part e"
  by (simp_all add: set_hold_def ev_key_def immutable_part_def)

lemma anchor_event_fields [simp]:
  "ev_id (anchor_event t i e) = ev_id e" "ev_ts (anchor_event t i e) = ev_ts e"
  "ev_key (anchor_event t i e) = ev_key e" "immutable_part (anchor_event t i e) = immutable_part e"
  by (simp_all add: anchor_event_def ev_key_def immutable_part_def)

lemma covered_by_key: "covered_by to_ts to_id e \<longleftrightarrow> ev_key e \<le> (to_ts, to_id)"
  by (auto simp: covered_by_def ev_key_def)

lemma ascending_map_key:
  "(\<And>e. ev_key (g e) = ev_key e) \<Longrightarrow> ascending ev_key (map g l) \<longleftrightarrow> ascending ev_key l"
  by (simp add: sorted_wrt_map)

lemma set_log_insert:
  "ev_key e \<notin> ev_key ` set l \<Longrightarrow> set (log_insert e l) = insert e (set l)"
  by (auto simp: log_insert_def image_iff)

section \<open>The anchor-store interface\<close>

definition stamp_anchor :: "string \<Rightarrow> time \<Rightarrow> anchor \<Rightarrow> anchor" where
  "stamp_anchor i now a =
     a\<lparr>an_id := i, an_anchored_at := (if is_zero (an_anchored_at a) then now else an_anchored_at a)\<rparr>"

definition in_window :: "time \<Rightarrow> time \<Rightarrow> time \<Rightarrow> bool" where
  "in_window from to t \<longleftrightarrow> (is_zero from \<or> from \<le> t) \<and> (is_zero to \<or> t \<le> to)"

locale anchor_store =
  fixes anchors :: "'a \<Rightarrow> anchor list"
    and insert_anchor :: "'a \<Rightarrow> anchor \<Rightarrow> string result \<times> 'a"
    and list_anchors :: "'a \<Rightarrow> time \<Rightarrow> time \<Rightarrow> anchor list result"
  assumes insert_anchor: "\<exists>i now s'. insert_anchor s a = (Inr i, s') \<and>
      anchors s' = anchors s @ [stamp_anchor i now a]"
    and list_anchors: "\<exists>as. list_anchors s from to = Inr as \<and> sorted (map an_anchored_at as) \<and>
      set as = {a \<in> set (anchors s). in_window from to (an_anchored_at a)}"

section \<open>Sample rows\<close>

text \<open>A row with the given id and time, for closed instances.\<close>

definition sample_event :: "string \<Rightarrow> int \<Rightarrow> event" where
  "sample_event i t =
     \<lparr>ev_id = i, ev_ts = Time t, ev_source_service = ''orch'', ev_actor_id = ''user_7f3a'',
      ev_action = ''tx.initiated'', ev_target_type = ''transaction'', ev_target_id = ''tx_01'',
      ev_payload_hash = replicate 32 7, ev_payload_ref = i, ev_prev_hash = [], ev_this_hash = [],
      ev_anchored = False, ev_legal_hold = False, ev_redacted = False\<rparr>"

lemma sample_event_fields [simp]:
  "ev_id (sample_event i t) = i" "ev_ts (sample_event i t) = Time t"
  "ev_key (sample_event i t) = (Time t, i)"
  "ev_prev_hash (sample_event i t) = []" "ev_this_hash (sample_event i t) = []"
  by (simp_all add: sample_event_def ev_key_def)

end
