(* ===== verification/Sha256.thy ===== *)
theory Sha256
  imports Prelude
begin

text \<open>
  \<open>crypto/sha256\<close> of Go's standard library, after FIPS 180-4: message schedule, compression, padding
  and the big-endian words it is built from. The constants are the first 32 bits of the fractional
  parts of the cube roots of the first 64 primes and of the square roots of the first 8.
  The development never relies on more than the digest's length: where a property needs two inputs
  not to collide, it names the two inputs.
\<close>

unbundle bit_operations_syntax

section \<open>Big-endian words\<close>

text \<open>\<open>binary.BigEndian.PutUint32\<close> and \<open>PutUint64\<close>.\<close>

definition be32 :: "32 word \<Rightarrow> bytes" where
  "be32 x = [ucast (drop_bit 24 x), ucast (drop_bit 16 x), ucast (drop_bit 8 x), ucast x]"

definition be64 :: "64 word \<Rightarrow> bytes" where
  "be64 x = be32 (ucast (drop_bit 32 x)) @ be32 (ucast x)"

lemma length_be32 [simp]: "length (be32 x) = 4"
  by (simp add: be32_def)

lemma length_be64 [simp]: "length (be64 x) = 8"
  by (simp add: be64_def)

lemma be32_inject [simp]: "be32 x = be32 y \<longleftrightarrow> x = y"
proof
  assume eq: "be32 x = be32 y"
  show "x = y"
  proof (rule bit_word_eqI)
    fix n
    assume "n < LENGTH(32)"
    then consider "n < 8" | "8 \<le> n" "n < 16" | "16 \<le> n" "n < 24" | "24 \<le> n" "n < 32"
      by force
    then show "bit x n \<longleftrightarrow> bit y n"
    proof cases
      case 1
      from eq have "bit (ucast x :: byte) n = bit (ucast y :: byte) n"
        by (simp add: be32_def)
      with 1 show ?thesis by (simp add: bit_simps)
    next
      case 2
      from eq have "bit (ucast (drop_bit 8 x) :: byte) (n - 8) = bit (ucast (drop_bit 8 y) :: byte) (n - 8)"
        by (simp add: be32_def)
      with 2 show ?thesis by (simp add: bit_simps less_diff_conv2)
    next
      case 3
      from eq have "bit (ucast (drop_bit 16 x) :: byte) (n - 16) = bit (ucast (drop_bit 16 y) :: byte) (n - 16)"
        by (simp add: be32_def)
      with 3 show ?thesis by (simp add: bit_simps less_diff_conv2)
    next
      case 4
      from eq have "bit (ucast (drop_bit 24 x) :: byte) (n - 24) = bit (ucast (drop_bit 24 y) :: byte) (n - 24)"
        by (simp add: be32_def)
      with 4 show ?thesis by (simp add: bit_simps less_diff_conv2)
    qed
  qed
qed simp

lemma be64_inject [simp]: "be64 x = be64 y \<longleftrightarrow> x = y"
proof
  assume eq: "be64 x = be64 y"
  then have hi: "(ucast (drop_bit 32 x) :: 32 word) = ucast (drop_bit 32 y)"
    and lo: "(ucast x :: 32 word) = ucast y"
    by (simp_all add: be64_def)
  show "x = y"
  proof (rule bit_word_eqI)
    fix n
    assume n: "n < LENGTH(64)"
    show "bit x n \<longleftrightarrow> bit y n"
    proof (cases "n < 32")
      case True
      from lo have "bit (ucast x :: 32 word) n = bit (ucast y :: 32 word) n"
        by simp
      with True show ?thesis by (simp add: bit_simps)
    next
      case False
      from hi have "bit (ucast (drop_bit 32 x) :: 32 word) (n - 32) = bit (ucast (drop_bit 32 y) :: 32 word) (n - 32)"
        by simp
      with False n show ?thesis by (simp add: bit_simps less_diff_conv2)
    qed
  qed
qed simp

section \<open>The hash function\<close>

definition round_constants :: "32 word list" where
  "round_constants = [
    1116352408, 1899447441, 3049323471, 3921009573, 961987163,
    1508970993, 2453635748, 2870763221, 3624381080, 310598401,
    607225278, 1426881987, 1925078388, 2162078206, 2614888103,
    3248222580, 3835390401, 4022224774, 264347078, 604807628,
    770255983, 1249150122, 1555081692, 1996064986, 2554220882,
    2821834349, 2952996808, 3210313671, 3336571891, 3584528711,
    113926993, 338241895, 666307205, 773529912, 1294757372,
    1396182291, 1695183700, 1986661051, 2177026350, 2456956037,
    2730485921, 2820302411, 3259730800, 3345764771, 3516065817,
    3600352804, 4094571909, 275423344, 430227734, 506948616,
    659060556, 883997877, 958139571, 1322822218, 1537002063,
    1747873779, 1955562222, 2024104815, 2227730452, 2361852424,
    2428436474, 2756734187, 3204031479, 3329325298]"

type_synonym sha_state = "32 word \<times> 32 word \<times> 32 word \<times> 32 word \<times> 32 word \<times> 32 word \<times> 32 word \<times> 32 word"

definition initial_state :: "sha_state" where
  "initial_state = (
    1779033703, 3144134277, 1013904242, 2773480762, 1359893119,
    2600822924, 528734635, 1541459225)"

definition rotr :: "nat \<Rightarrow> 32 word \<Rightarrow> 32 word" where
  "rotr n x = drop_bit n x OR push_bit (32 - n) x"

fun schedule :: "nat \<Rightarrow> 32 word list \<Rightarrow> 32 word list" where
  \<comment> \<open>the window of the last 16 words, oldest first\<close>
  "schedule 0 w = []"
| "schedule (Suc n) [w0,w1,w2,w3,w4,w5,w6,w7,w8,w9,w10,w11,w12,w13,w14,w15] =
    (let s0 = rotr 7 w1 XOR rotr 18 w1 XOR drop_bit 3 w1;
         s1 = rotr 17 w14 XOR rotr 19 w14 XOR drop_bit 10 w14
     in w0 # schedule n [w1,w2,w3,w4,w5,w6,w7,w8,w9,w10,w11,w12,w13,w14,w15, w0 + s0 + w9 + s1])"
| "schedule (Suc n) w = []"

fun compress_round :: "sha_state \<Rightarrow> 32 word \<times> 32 word \<Rightarrow> sha_state" where
  "compress_round (a, b, c, d, e, f, g, h) (k, w) =
    (let s1 = rotr 6 e XOR rotr 11 e XOR rotr 25 e;
         ch = (e AND f) XOR (NOT e AND g);
         t1 = h + s1 + ch + k + w;
         s0 = rotr 2 a XOR rotr 13 a XOR rotr 22 a;
         maj = (a AND b) XOR (a AND c) XOR (b AND c);
         t2 = s0 + maj
     in (t1 + t2, a, b, c, d + t1, e, f, g))"

fun add_state :: "sha_state \<Rightarrow> sha_state \<Rightarrow> sha_state" where
  "add_state (a, b, c, d, e, f, g, h) (a', b', c', d', e', f', g', h') =
    (a + a', b + b', c + c', d + d', e + e', f + f', g + g', h + h')"

fun words_of :: "bytes \<Rightarrow> 32 word list" where
  "words_of (b0 # b1 # b2 # b3 # bs) =
     (push_bit 24 (ucast b0) OR push_bit 16 (ucast b1) OR push_bit 8 (ucast b2) OR ucast b3) # words_of bs"
| "words_of _ = []"

definition compress_block :: "sha_state \<Rightarrow> bytes \<Rightarrow> sha_state" where
  "compress_block st blk = add_state st (foldl compress_round st (zip round_constants (schedule 64 (words_of blk))))"

definition pad_sha :: "bytes \<Rightarrow> bytes" where
  "pad_sha m = m @ [0x80] @ replicate ((119 - length m mod 64) mod 64) 0 @ be64 (of_nat (8 * length m))"

function compress_blocks :: "sha_state \<Rightarrow> bytes \<Rightarrow> sha_state" where
  "compress_blocks st m = (if length m < 64 then st else compress_blocks (compress_block st (take 64 m)) (drop 64 m))"
  by pat_completeness auto
termination
  by (relation "measure (\<lambda>(st, m). length m)") auto

declare compress_blocks.simps [simp del]

fun digest_of :: "sha_state \<Rightarrow> bytes" where
  "digest_of (a, b, c, d, e, f, g, h) = be32 a @ be32 b @ be32 c @ be32 d @ be32 e @ be32 f @ be32 g @ be32 h"

definition sha256 :: "bytes \<Rightarrow> bytes" where
  "sha256 m = digest_of (compress_blocks initial_state (pad_sha m))"

lemma length_sha256 [simp]: "length (sha256 m) = 32"
  by (cases "compress_blocks initial_state (pad_sha m)" rule: digest_of.cases) (simp add: sha256_def be32_def)

end
