(* ===== verification/Event.thy ===== *)
theory Event
  imports Gostd Sha256
begin

text \<open>
  \<open>internal/event\<close>: the wire envelope, its validation, and the textual form of SHA-256 hashes.
  The JSON decoder that turns a message into an envelope is the parameter \<open>unmarshal\<close>: it is driven by
  struct tags and the whole JSON grammar, and the program relies on no fact about it.
\<close>

record envelope =
  env_id :: string
  env_ts :: time
  env_source_service :: string
  env_actor_id :: string
  env_action :: string
  env_target_type :: string
  env_target_id :: string
  env_payload_hash :: string
  env_payload :: bytes
  env_prev_hash :: string
  env_this_hash :: string
  env_redaction :: string

section \<open>Validation\<close>

definition is_validation :: "go_error \<Rightarrow> bool" where
  "is_validation err = (case root_cause err of ErrValidation _ \<Rightarrow> True | _ \<Rightarrow> False)"

text \<open>\<open>Validate\<close>: a nil receiver is \<open>None\<close>; the result \<open>None\<close> is Go's nil error.\<close>

definition validate :: "envelope option \<Rightarrow> go_error option" where
  "validate e =
     (case e of
        None \<Rightarrow> Some (ErrValidation ''nil envelope'')
      | Some ev \<Rightarrow>
          if env_id ev = '''' then Some (ErrValidation ''missing id'')
          else if is_zero (env_ts ev) then Some (ErrValidation ''missing ts'')
          else if env_source_service ev = '''' then Some (ErrValidation ''missing source_service'')
          else if env_actor_id ev = '''' then Some (ErrValidation ''missing actor_id'')
          else if env_action ev = '''' then Some (ErrValidation ''missing action'')
          else if env_target_type ev = '''' then Some (ErrValidation ''missing target_type'')
          else if env_target_id ev = '''' then Some (ErrValidation ''missing target_id'')
          else if env_payload_hash ev = '''' then Some (ErrValidation ''missing payload_hash'')
          else None)"

definition decode :: "(bytes \<Rightarrow> envelope result) \<Rightarrow> bytes \<Rightarrow> envelope result" where
  "decode unmarshal b =
     (if b = [] then Inl (ErrValidation ''empty payload'')
      else case unmarshal b of
             Inl err \<Rightarrow> Inl (ErrWrap ''event: decode'' err)
           | Inr ev \<Rightarrow> Inr ev)"

definition decode_and_validate :: "(bytes \<Rightarrow> envelope result) \<Rightarrow> bytes \<Rightarrow> envelope result" where
  "decode_and_validate unmarshal b =
     (case decode unmarshal b of
        Inl err \<Rightarrow> Inl err
      | Inr ev \<Rightarrow> (case validate (Some ev) of Some err \<Rightarrow> Inl err | None \<Rightarrow> Inr ev))"

text \<open>The required fields of \<open>docs/ENVELOPE.md\<close>, as one predicate.\<close>

definition well_formed :: "envelope \<Rightarrow> bool" where
  "well_formed ev \<longleftrightarrow>
     env_id ev \<noteq> '''' \<and> \<not> is_zero (env_ts ev) \<and> env_source_service ev \<noteq> '''' \<and>
     env_actor_id ev \<noteq> '''' \<and> env_action ev \<noteq> '''' \<and> env_target_type ev \<noteq> '''' \<and>
     env_target_id ev \<noteq> '''' \<and> env_payload_hash ev \<noteq> ''''"

lemma validate_None_iff: "validate (Some ev) = None \<longleftrightarrow> well_formed ev"
  by (simp add: validate_def well_formed_def)

lemma validate_Some_validation: "validate e = Some err \<Longrightarrow> is_validation err"
  by (auto simp: validate_def is_validation_def split: option.splits if_splits)

lemma decode_and_validate_Inr:
  "decode_and_validate unmarshal b = Inr ev \<longleftrightarrow> b \<noteq> [] \<and> unmarshal b = Inr ev \<and> well_formed ev"
  by (auto simp: decode_and_validate_def decode_def simp flip: validate_None_iff
      split: sum.splits option.splits if_splits)

section \<open>Hashes in text\<close>

definition hash_prefix :: string where
  "hash_prefix = ''sha256:''"

definition zero_hash_text :: string where
  "zero_hash_text = hash_prefix @ replicate 64 CHR ''0''"

definition hash_payload :: "bytes \<Rightarrow> string" where
  "hash_payload payload = hash_prefix @ hex_encode (sha256 payload)"

definition is_hex :: "string \<Rightarrow> bool" where
  "is_hex s = list_all (\<lambda>r. let n = of_char r :: nat in
     (48 \<le> n \<and> n \<le> 57) \<or> (97 \<le> n \<and> n \<le> 102) \<or> (65 \<le> n \<and> n \<le> 70)) s"

definition normalize_hash :: "string \<Rightarrow> string" where
  "normalize_hash h =
     (if h = '''' then ''''
      else if has_prefix h hash_prefix then h
      else if length h = 64 \<and> is_hex h then hash_prefix @ h
      else h)"

definition verify_payload :: "string \<Rightarrow> bytes \<Rightarrow> bool" where
  "verify_payload payload_hash payload =
     (let want = normalize_hash payload_hash in hash_payload payload = want)"

definition wrong_hash_size :: "string \<Rightarrow> nat \<Rightarrow> go_error" where
  "wrong_hash_size h n =
     ErrMsg (''event: hash '' @ quoted h @ '' is '' @ int_text (int n) @ '' bytes, want 32'')"

definition decode_hash_to_bytes :: "string \<Rightarrow> bytes result" where
  "decode_hash_to_bytes h =
     (let s = trim_prefix h hash_prefix in
      case hex_decode s of
        Inl err \<Rightarrow> Inl (ErrWrap (''event: bad hash '' @ quoted h) err)
      | Inr b \<Rightarrow>
          if length b \<noteq> 32 then Inl (wrong_hash_size h (length b))
          else Inr b)"

definition encode_hash_from_bytes :: "bytes \<Rightarrow> string" where
  "encode_hash_from_bytes b = (if length b \<noteq> 32 then '''' else hash_prefix @ hex_encode b)"

lemma is_hex_iff: "is_hex s \<longleftrightarrow> list_all (\<lambda>c. from_hex c \<noteq> None) s"
  by (simp add: is_hex_def from_hex_def Let_def list_all_iff) blast

lemma hash_prefix_nonempty [simp]: "hash_prefix \<noteq> []"
  by (simp add: hash_prefix_def)

lemma hex_no_hash_prefix: "is_hex s \<Longrightarrow> \<not> has_prefix s hash_prefix"
  by (auto simp: has_prefix_def hash_prefix_def prefix_def is_hex_def Let_def)

lemma is_hex_encode [simp]: "is_hex (hex_encode b)"
  unfolding is_hex_iff by (rule hex_encode_digits)

lemma normalize_hash_canonical [simp]: "normalize_hash (hash_prefix @ s) = hash_prefix @ s"
  by (simp add: normalize_hash_def)

lemma normalize_hash_bare: "length h = 64 \<Longrightarrow> is_hex h \<Longrightarrow> normalize_hash h = hash_prefix @ h"
  by (auto simp: normalize_hash_def hex_no_hash_prefix)

lemma normalize_hash_cases:
  obtains (canonical) s where "h = hash_prefix @ s" "normalize_hash h = h"
  | (bare) "length h = 64" "is_hex h" "normalize_hash h = hash_prefix @ h"
  | (other) "\<not> has_prefix h hash_prefix" "\<not> (length h = 64 \<and> is_hex h)" "normalize_hash h = h"
proof (cases "has_prefix h hash_prefix")
  case True
  then show ?thesis
    using canonical by (metis has_prefix_iff normalize_hash_canonical)
next
  case False
  show ?thesis
  proof (cases "length h = 64 \<and> is_hex h")
    case True
    with bare show ?thesis by (simp add: normalize_hash_bare)
  next
    case nb: False
    with False have "normalize_hash h = h"
      by (auto simp: normalize_hash_def)
    with False nb other show ?thesis by blast
  qed
qed

lemma normalize_hash_idem [simp]: "normalize_hash (normalize_hash h) = normalize_hash h"
  by (cases h rule: normalize_hash_cases) auto

lemma decode_hash_prefixed: "decode_hash_to_bytes (hash_prefix @ hex_encode b) =
  (if length b = 32 then Inr b else Inl (wrong_hash_size (hash_prefix @ hex_encode b) (length b)))"
  by (simp add: decode_hash_to_bytes_def)

lemma decode_encode_hash [simp]: "length b = 32 \<Longrightarrow> decode_hash_to_bytes (encode_hash_from_bytes b) = Inr b"
  by (simp add: encode_hash_from_bytes_def decode_hash_prefixed)

lemma decode_hash_length: "decode_hash_to_bytes h = Inr b \<Longrightarrow> length b = 32"
  by (auto simp: decode_hash_to_bytes_def Let_def split: sum.splits if_splits)

lemma decode_hash_payload [simp]: "decode_hash_to_bytes (hash_payload p) = Inr (sha256 p)"
  by (simp add: hash_payload_def decode_hash_prefixed)

lemma verify_payload_iff:
  "verify_payload h p \<longleftrightarrow> h = hash_payload p \<or> h = hex_encode (sha256 p)"
proof
  assume v: "verify_payload h p"
  show "h = hash_payload p \<or> h = hex_encode (sha256 p)"
    using v by (cases h rule: normalize_hash_cases) (auto simp: verify_payload_def hash_payload_def)
qed (auto simp: verify_payload_def hash_payload_def normalize_hash_bare)

end
