(* ===== verification/Chain.thy ===== *)
theory Chain
  imports Store Event
begin

text \<open>
  \<open>internal/chain\<close>: the canonical encoding and hash of an event, verification of single links and of
  whole chains, the Merkle root, the anchor job and the integrity sweep. The stores the anchor job
  and the sweep work on are passed as the operations of the interfaces in \<open>Store\<close>.
\<close>

section \<open>Canonical encoding\<close>

definition zero_hash :: bytes where
  "zero_hash = replicate 32 0"

definition write_bytes :: "bytes \<Rightarrow> bytes" where
  "write_bytes b = be32 (word_of_nat (length b)) @ b"

definition write_str :: "string \<Rightarrow> bytes" where
  "write_str s = be32 (word_of_nat (length s)) @ bytes_of s"

definition write_time :: "time \<Rightarrow> bytes" where
  "write_time ts = be64 (unix_nano ts)"

text \<open>What \<open>CanonicalHash\<close> writes to the hasher, in order.\<close>

definition canonical_bytes ::
  "string \<Rightarrow> time \<Rightarrow> string \<Rightarrow> string \<Rightarrow> string \<Rightarrow> string \<Rightarrow> string \<Rightarrow> bytes \<Rightarrow> bytes \<Rightarrow> bytes" where
  "canonical_bytes i ts source_service actor_id action target_type target_id payload_hash prev_hash =
     write_str i @ write_time ts @ write_str source_service @ write_str actor_id @ write_str action @
     write_str target_type @ write_str target_id @ write_bytes payload_hash @ write_bytes prev_hash"

definition canonical_hash ::
  "string \<Rightarrow> time \<Rightarrow> string \<Rightarrow> string \<Rightarrow> string \<Rightarrow> string \<Rightarrow> string \<Rightarrow> bytes \<Rightarrow> bytes \<Rightarrow> bytes" where
  "canonical_hash i ts source_service actor_id action target_type target_id payload_hash prev_hash =
     sha256 (canonical_bytes i ts source_service actor_id action target_type target_id payload_hash prev_hash)"

definition event_bytes :: "event \<Rightarrow> bytes" where
  "event_bytes e = canonical_bytes (ev_id e) (ev_ts e) (ev_source_service e) (ev_actor_id e) (ev_action e)
     (ev_target_type e) (ev_target_id e) (ev_payload_hash e) (ev_prev_hash e)"

definition event_hash :: "event \<Rightarrow> bytes" where
  "event_hash e = canonical_hash (ev_id e) (ev_ts e) (ev_source_service e) (ev_actor_id e) (ev_action e)
     (ev_target_type e) (ev_target_id e) (ev_payload_hash e) (ev_prev_hash e)"

definition event_hash_from_envelope :: "envelope \<Rightarrow> bytes \<Rightarrow> bytes result" where
  "event_hash_from_envelope ev prev_hash =
     (case decode_hash_to_bytes (env_payload_hash ev) of
        Inl err \<Rightarrow> Inl (ErrWrap ''chain: payload_hash'' err)
      | Inr payload_hash \<Rightarrow>
          Inr (canonical_hash (env_id ev) (env_ts ev) (env_source_service ev) (env_actor_id ev)
            (env_action ev) (env_target_type ev) (env_target_id ev) payload_hash prev_hash))"

definition hash_hex :: "bytes \<Rightarrow> string" where
  "hash_hex b = (if length b \<noteq> 32 then '''' else hash_prefix @ hex_encode b)"

definition parse_hash :: "string \<Rightarrow> bytes result" where
  "parse_hash s = decode_hash_to_bytes s"

lemma event_hash_bytes: "event_hash e = sha256 (event_bytes e)"
  by (simp add: event_hash_def canonical_hash_def event_bytes_def)

lemma length_event_hash [simp]: "length (event_hash e) = 32"
  by (simp add: event_hash_bytes)

lemma length_zero_hash [simp]: "length zero_hash = 32"
  by (simp add: zero_hash_def)

lemma parse_hash_hex [simp]: "length b = 32 \<Longrightarrow> parse_hash (hash_hex b) = Inr b"
  by (simp add: parse_hash_def hash_hex_def decode_hash_prefixed)

text \<open>
  The encoding is a sequence of length-prefixed fields, so it can be read back: equal encodings have
  equal first fields and equal rests, as long as lengths fit the 32-bit prefix.
\<close>

definition fits :: "nat \<Rightarrow> bool" where
  "fits n \<longleftrightarrow> n < 2 ^ 32"

lemma length_prefix_inject:
  assumes "fits m" and "fits n" and "(word_of_nat m :: 32 word) = word_of_nat n"
  shows "m = n"
proof -
  have "unat (word_of_nat k :: 32 word) = k" if "fits k" for k
    using that by (simp add: fits_def unat_of_nat)
  with assms show ?thesis
    by metis
qed

lemma write_bytes_append_inject:
  assumes "write_bytes a @ r = write_bytes b @ q" and "fits (length a)" and "fits (length b)"
  shows "a = b \<and> r = q"
proof -
  from assms(1) have "be32 (word_of_nat (length a)) = be32 (word_of_nat (length b))" and "a @ r = b @ q"
    by (simp_all add: write_bytes_def append_eq_append_conv del: be32_inject)
  moreover from this(1) assms(2,3) have "length a = length b"
    by (auto dest: length_prefix_inject)
  ultimately show ?thesis
    by simp
qed

lemma write_bytes_inject:
  "write_bytes a = write_bytes b \<Longrightarrow> fits (length a) \<Longrightarrow> fits (length b) \<Longrightarrow> a = b"
  using write_bytes_append_inject [of a "[]" b "[]"] by simp

lemma write_str_bytes: "write_str s = write_bytes (bytes_of s)"
  by (simp add: write_str_def write_bytes_def)

lemma write_str_append_inject:
  "write_str s @ r = write_str t @ q \<Longrightarrow> fits (length s) \<Longrightarrow> fits (length t) \<Longrightarrow> s = t \<and> r = q"
  using write_bytes_append_inject [of "bytes_of s" r "bytes_of t" q] by (simp add: write_str_bytes)

lemma write_time_append_inject:
  "write_time s @ r = write_time t @ q \<Longrightarrow> in_nano_range s \<Longrightarrow> in_nano_range t \<Longrightarrow> s = t \<and> r = q"
  by (auto simp: write_time_def append_eq_append_conv dest: unix_nano_inj)

text \<open>The fields of a row fit the encoding: lengths below \<open>2 ^ 32\<close>, time within \<open>int64\<close> nanoseconds.\<close>

definition encodable :: "event \<Rightarrow> bool" where
  "encodable e \<longleftrightarrow> in_nano_range (ev_ts e) \<and>
     fits (length (ev_id e)) \<and> fits (length (ev_source_service e)) \<and> fits (length (ev_actor_id e)) \<and>
     fits (length (ev_action e)) \<and> fits (length (ev_target_type e)) \<and> fits (length (ev_target_id e)) \<and>
     fits (length (ev_payload_hash e)) \<and> fits (length (ev_prev_hash e))"

text \<open>Two rows agree on every column the hash covers.\<close>

definition same_content :: "event \<Rightarrow> event \<Rightarrow> bool" where
  "same_content e e' \<longleftrightarrow>
     ev_id e = ev_id e' \<and> ev_ts e = ev_ts e' \<and> ev_source_service e = ev_source_service e' \<and>
     ev_actor_id e = ev_actor_id e' \<and> ev_action e = ev_action e' \<and>
     ev_target_type e = ev_target_type e' \<and> ev_target_id e = ev_target_id e' \<and>
     ev_payload_hash e = ev_payload_hash e' \<and> ev_prev_hash e = ev_prev_hash e'"

lemma event_bytes_inject:
  assumes "event_bytes e = event_bytes e'" and "encodable e" and "encodable e'"
  shows "same_content e e'"
  using assms unfolding event_bytes_def canonical_bytes_def encodable_def same_content_def
  by (auto dest!: write_str_append_inject write_time_append_inject write_bytes_append_inject
      write_bytes_inject)

lemma event_bytes_same: "same_content e e' \<Longrightarrow> event_bytes e = event_bytes e'"
  by (simp add: event_bytes_def same_content_def)

text \<open>
  Two hash inputs collide if they differ and have the same digest. Properties about tampering name the
  two inputs; they never assume that SHA-256 has no collision at all.
\<close>

definition collision :: "bytes \<Rightarrow> bytes \<Rightarrow> bool" where
  "collision x y \<longleftrightarrow> x \<noteq> y \<and> sha256 x = sha256 y"

lemma event_hash_binding:
  "event_hash e = event_hash e' \<Longrightarrow> encodable e \<Longrightarrow> encodable e' \<Longrightarrow>
   same_content e e' \<or> collision (event_bytes e) (event_bytes e')"
  using event_bytes_inject [of e e'] by (auto simp: event_hash_bytes collision_def)

section \<open>Verification\<close>

datatype verify_status = StatusOK | StatusBroken | StatusGap

definition status_string :: "verify_status \<Rightarrow> string" where
  "status_string st = (case st of StatusOK \<Rightarrow> ''ok'' | StatusBroken \<Rightarrow> ''broken'' | StatusGap \<Rightarrow> ''gap'')"

record verify_result =
  vr_event :: "event option"
  vr_prev_hash :: "bytes option"
  vr_this_hash :: bytes
  vr_computed :: bytes
  vr_status :: verify_status
  vr_reason :: string

definition bytes_equal :: "bytes \<Rightarrow> bytes \<Rightarrow> bool" where
  "bytes_equal a b = (if length a \<noteq> length b then False else list_all (\<lambda>(x, y). x = y) (zip a b))"

lemma bytes_equal_iff [simp]: "bytes_equal a b \<longleftrightarrow> a = b"
proof -
  have "length a = length b \<Longrightarrow> list_all (\<lambda>(x, y). x = y) (zip a b) \<Longrightarrow> a = b"
    by (induction a b rule: list_induct2) auto
  moreover have "list_all (\<lambda>(x, y). x = y) (zip a a)"
    by (induction a) auto
  ultimately show ?thesis
    by (auto simp: bytes_equal_def)
qed

text \<open>\<open>VerifyEvent\<close>: the previous hash to compare with is \<open>None\<close> for Go's nil.\<close>

definition verify_event :: "event \<Rightarrow> bytes option \<Rightarrow> verify_result" where
  "verify_event e prev =
     (let computed = event_hash e;
          res = \<lparr>vr_event = Some e, vr_prev_hash = prev, vr_this_hash = ev_this_hash e,
                 vr_computed = computed, vr_status = StatusOK, vr_reason = ''''\<rparr>
      in if \<not> bytes_equal computed (ev_this_hash e) then
           res\<lparr>vr_status := StatusBroken, vr_reason := ''stored this_hash does not match recomputed hash''\<rparr>
         else if prev \<noteq> None \<and> \<not> bytes_equal (the prev) (ev_prev_hash e) then
           res\<lparr>vr_status := StatusGap, vr_reason := ''prev_hash linkage broken''\<rparr>
         else res)"

text \<open>
  The loop of \<open>VerifyChain\<close>; \<open>i\<close> is the position, the first event is not compared with a previous
  hash. The stored hash carried to the next position is never nil: it equals a computed digest.
\<close>

fun verify_loop :: "nat \<Rightarrow> bytes \<Rightarrow> event list \<Rightarrow> verify_result + bytes" where
  "verify_loop i prev [] = Inr prev"
| "verify_loop i prev (e # es) =
     (let res = verify_event e (if i = 0 then None else Some prev) in
      if vr_status res \<noteq> StatusOK then Inl res
      else verify_loop (Suc i) (ev_this_hash e) es)"

definition ok_result :: verify_result where
  "ok_result = \<lparr>vr_event = None, vr_prev_hash = None, vr_this_hash = [], vr_computed = [],
     vr_status = StatusOK, vr_reason = ''''\<rparr>"

text \<open>\<open>VerifyChain\<close>: the outcome and the root, which is nil (\<open>[]\<close>) for a chain that is not intact.\<close>

definition verify_chain :: "event list \<Rightarrow> verify_result \<times> bytes" where
  "verify_chain events =
     (case verify_loop 0 zero_hash events of
        Inl res \<Rightarrow> (res, [])
      | Inr prev \<Rightarrow> if length events = 0 then (ok_result, zero_hash) else (ok_result, prev))"

subsection \<open>What verification decides\<close>

text \<open>The specification: every stored hash is the event's own, and neighbours are linked.\<close>

definition hash_ok :: "event \<Rightarrow> bool" where
  "hash_ok e \<longleftrightarrow> ev_this_hash e = event_hash e"

fun linked :: "event list \<Rightarrow> bool" where
  "linked (d # e # es) \<longleftrightarrow> ev_prev_hash e = ev_this_hash d \<and> linked (e # es)"
| "linked _ \<longleftrightarrow> True"

definition intact :: "event list \<Rightarrow> bool" where
  "intact es \<longleftrightarrow> (\<forall>e \<in> set es. hash_ok e) \<and> linked es"

lemma linked_append:
  "linked (xs @ ys) \<longleftrightarrow> linked xs \<and> linked ys \<and>
     (xs \<noteq> [] \<longrightarrow> ys \<noteq> [] \<longrightarrow> ev_prev_hash (hd ys) = ev_this_hash (last xs))"
proof (induction xs)
  case (Cons x xs)
  then show ?case by (cases xs; cases ys) auto
qed simp

lemma intact_Nil [simp, chain_simps]: "intact []"
  by (simp add: intact_def)

lemma intact_append [chain_simps]:
  "intact (xs @ ys) \<longleftrightarrow> intact xs \<and> intact ys \<and>
     (xs \<noteq> [] \<longrightarrow> ys \<noteq> [] \<longrightarrow> ev_prev_hash (hd ys) = ev_this_hash (last xs))"
  by (auto simp: intact_def linked_append)

lemma intact_single [simp, chain_simps]: "intact [e] \<longleftrightarrow> hash_ok e"
  by (simp add: intact_def)

lemma intact_Cons [chain_simps]:
  "intact (e # es) \<longleftrightarrow> hash_ok e \<and> intact es \<and> (es \<noteq> [] \<longrightarrow> ev_prev_hash (hd es) = ev_this_hash e)"
  using intact_append [of "[e]" es] by simp

text \<open>The same by position.\<close>

lemma linked_nth: "linked es \<longleftrightarrow> (\<forall>i. Suc i < length es \<longrightarrow> ev_prev_hash (es ! Suc i) = ev_this_hash (es ! i))"
proof (induction es rule: linked.induct)
  case (1 d e es)
  have "(\<forall>i. Suc i < length (d # e # es) \<longrightarrow> P i) \<longleftrightarrow> P 0 \<and> (\<forall>i. Suc i < length (e # es) \<longrightarrow> P (Suc i))" for P
    by (rule all_nat_shift)
  with 1 show ?case by simp
qed auto

lemma intact_nth:
  "intact es \<longleftrightarrow> (\<forall>i < length es. ev_this_hash (es ! i) = event_hash (es ! i) \<and>
     (if i = 0 then True else ev_prev_hash (es ! i) = ev_this_hash (es ! (i - 1))))"
proof -
  have "linked es \<longleftrightarrow> (\<forall>i < length es. i \<noteq> 0 \<longrightarrow> ev_prev_hash (es ! i) = ev_this_hash (es ! (i - 1)))"
    unfolding linked_nth by (metis Suc_pred diff_Suc_1 neq0_conv zero_less_Suc)
  then show ?thesis
    by (auto simp: intact_def hash_ok_def all_set_conv_all_nth)
qed

lemma verify_event_status:
  "vr_status (verify_event e prev) =
     (if \<not> hash_ok e then StatusBroken
      else if prev \<noteq> None \<and> prev \<noteq> Some (ev_prev_hash e) then StatusGap
      else StatusOK)"
  by (cases prev) (auto simp: verify_event_def hash_ok_def Let_def)

lemma verify_event_event [simp]: "vr_event (verify_event e prev) = Some e"
  by (simp add: verify_event_def Let_def)

text \<open>The loop from an arbitrary position: how it succeeds and where it stops.\<close>

definition joins :: "nat \<Rightarrow> bytes \<Rightarrow> event list \<Rightarrow> bool" where
  "joins i prev es \<longleftrightarrow> i = 0 \<or> es = [] \<or> ev_prev_hash (hd es) = prev"

lemma verify_loop_Inr:
  "verify_loop i prev es = Inr r \<longleftrightarrow>
     intact es \<and> joins i prev es \<and> r = (if es = [] then prev else ev_this_hash (last es))"
proof (induction i prev es rule: verify_loop.induct)
  case (2 i prev e es)
  show ?case
  proof (cases "vr_status (verify_event e (if i = 0 then None else Some prev)) = StatusOK")
    case True
    with 2 show ?thesis
      by (auto simp: Let_def intact_Cons joins_def verify_event_status split: if_splits)
  next
    case False
    then show ?thesis
      by (auto simp: Let_def intact_Cons joins_def verify_event_status split: if_splits)
  qed
qed (auto simp: joins_def)

lemma verify_loop_Inl:
  "verify_loop i prev es = Inl res \<Longrightarrow>
   \<exists>pre e post. es = pre @ e # post \<and> intact pre \<and> joins i prev pre \<and> vr_event res = Some e \<and>
     (\<not> hash_ok e \<and> vr_status res = StatusBroken \<or>
      hash_ok e \<and> vr_status res = StatusGap \<and> (i \<noteq> 0 \<or> pre \<noteq> []) \<and>
      ev_prev_hash e \<noteq> (if pre = [] then prev else ev_this_hash (last pre)))"
proof (induction i prev es rule: verify_loop.induct)
  case (2 i prev e es)
  let ?res = "verify_event e (if i = 0 then None else Some prev)"
  show ?case
  proof (cases "vr_status ?res = StatusOK")
    case True
    with 2 obtain pre x post where split: "es = pre @ x # post" and pre: "intact pre"
      "joins (Suc i) (ev_this_hash e) pre" and x: "vr_event res = Some x"
      "\<not> hash_ok x \<and> vr_status res = StatusBroken \<or>
       hash_ok x \<and> vr_status res = StatusGap \<and>
       ev_prev_hash x \<noteq> (if pre = [] then ev_this_hash e else ev_this_hash (last pre))"
      by (auto simp: Let_def)
    have "hash_ok e" and "joins i prev (e # pre)"
      using True by (auto simp: verify_event_status joins_def split: if_splits)
    with split pre x show ?thesis
      by (intro exI [of _ "e # pre"] exI [of _ x] exI [of _ post]) (auto simp: intact_Cons joins_def)
  next
    case False
    with 2 have "res = ?res"
      by (simp add: Let_def)
    with False show ?thesis
      by (intro exI [of _ "[]"] exI [of _ e] exI [of _ es])
        (auto simp: verify_event_status joins_def split: if_splits)
  qed
qed simp

text \<open>\<open>VerifyChain\<close> accepts exactly the intact chains, and its root is the last stored hash.\<close>

lemma verify_chain_ok: "vr_status (fst (verify_chain es)) = StatusOK \<longleftrightarrow> intact es"
proof (cases "verify_loop 0 zero_hash es")
  case (Inl res)
  then have "\<not> intact es"
    using verify_loop_Inr [of 0 zero_hash es] by (auto simp: joins_def)
  moreover have "vr_status res \<noteq> StatusOK"
    using verify_loop_Inl [OF Inl] by auto
  ultimately show ?thesis
    using Inl by (simp add: verify_chain_def)
next
  case (Inr r)
  with verify_loop_Inr [of 0 zero_hash es r] have "intact es"
    by simp
  with Inr show ?thesis
    by (simp add: verify_chain_def ok_result_def)
qed

lemma verify_chain_root:
  "snd (verify_chain es) = (if \<not> intact es then [] else if es = [] then zero_hash else ev_this_hash (last es))"
proof (cases "verify_loop 0 zero_hash es")
  case (Inl res)
  then show ?thesis
    using verify_loop_Inr [of 0 zero_hash es] by (auto simp: joins_def verify_chain_def)
next
  case (Inr r)
  with verify_loop_Inr [of 0 zero_hash es r]
  have "intact es" "r = (if es = [] then zero_hash else ev_this_hash (last es))"
    by simp_all
  with Inr show ?thesis
    by (simp add: verify_chain_def)
qed

lemma intact_root_length:
  "intact es \<Longrightarrow> length (snd (verify_chain es)) = 32"
  by (auto simp: verify_chain_root intact_def hash_ok_def)

lemma verify_chain_first_failure:
  assumes "vr_status (fst (verify_chain es)) \<noteq> StatusOK"
  shows "\<exists>pre e post. es = pre @ e # post \<and> intact pre \<and> vr_event (fst (verify_chain es)) = Some e \<and>
     (\<not> hash_ok e \<and> vr_status (fst (verify_chain es)) = StatusBroken \<or>
      hash_ok e \<and> vr_status (fst (verify_chain es)) = StatusGap \<and> pre \<noteq> [] \<and>
      ev_prev_hash e \<noteq> ev_this_hash (last pre))"
proof (cases "verify_loop 0 zero_hash es")
  case (Inl res)
  then have "fst (verify_chain es) = res"
    by (simp add: verify_chain_def)
  with verify_loop_Inl [OF Inl] show ?thesis
    by fastforce
next
  case (Inr r)
  with assms show ?thesis
    by (simp add: verify_chain_def ok_result_def split: if_splits)
qed

subsection \<open>What an intact chain commits to\<close>

text \<open>What rows with the same immutable columns agree on.\<close>

lemma immutable_fields:
  assumes "immutable_part r = immutable_part r'"
  shows "ev_id r = ev_id r'" "ev_ts r = ev_ts r'" "ev_this_hash r = ev_this_hash r'" "ev_prev_hash r = ev_prev_hash r'"
    "ev_payload_hash r = ev_payload_hash r'" "ev_key r = ev_key r'" "hash_ok r = hash_ok r'"
proof -
  have "ev_id (immutable_part r) = ev_id (immutable_part r')" "ev_ts (immutable_part r) = ev_ts (immutable_part r')"
    "ev_this_hash (immutable_part r) = ev_this_hash (immutable_part r')" "ev_prev_hash (immutable_part r) = ev_prev_hash (immutable_part r')"
    "ev_payload_hash (immutable_part r) = ev_payload_hash (immutable_part r')" "ev_key (immutable_part r) = ev_key (immutable_part r')"
    "hash_ok (immutable_part r) = hash_ok (immutable_part r')"
    by (simp_all only: assms)
  then show "ev_id r = ev_id r'" "ev_ts r = ev_ts r'" "ev_this_hash r = ev_this_hash r'" "ev_prev_hash r = ev_prev_hash r'"
    "ev_payload_hash r = ev_payload_hash r'" "ev_key r = ev_key r'" "hash_ok r = hash_ok r'"
    by (simp_all add: immutable_part_def ev_key_def hash_ok_def event_hash_def)
qed

lemma intact_window:
  assumes "intact es"
  shows "intact (take n (drop m es))"
proof -
  from assms have "intact (drop m es)"
    using intact_append [of "take m es" "drop m es"] by simp
  then show ?thesis
    using intact_append by (metis append_take_drop_id)
qed

text \<open>Equal roots over chains of equal length: equal contents, or a collision at some position.\<close>

lemma root_binding:
  assumes "length es = length es'" and "intact es" and "intact es'"
    and "\<forall>e \<in> set es \<union> set es'. encodable e"
    and "es \<noteq> [] \<Longrightarrow> ev_this_hash (last es) = ev_this_hash (last es')"
  shows "list_all2 same_content es es' \<or>
    (\<exists>i < length es. collision (event_bytes (es ! i)) (event_bytes (es' ! i)))"
  using assms
proof (induction es arbitrary: es' rule: rev_induct)
  case (snoc e es0)
  then obtain es0' e' where es': "es' = es0' @ [e']" and len: "length es0 = length es0'"
    by (cases es' rule: rev_cases) auto
  have hashes: "event_hash e = event_hash e'"
    using snoc.prems by (auto simp: es' intact_append hash_ok_def)
  show ?case
  proof (cases "same_content e e'")
    case False
    then have "collision (event_bytes e) (event_bytes e')"
      using event_hash_binding [OF hashes] snoc.prems(4) by (auto simp: es')
    with len show ?thesis
      by (intro disjI2 exI [of _ "length es0"]) (auto simp: es' nth_append)
  next
    case True
    have "ev_this_hash (last es0) = ev_this_hash (last es0')" if "es0 \<noteq> []"
      using True that len snoc.prems(2,3) by (auto simp: es' intact_append same_content_def)
    then have "list_all2 same_content es0 es0' \<or>
        (\<exists>i < length es0. collision (event_bytes (es0 ! i)) (event_bytes (es0' ! i)))"
      using snoc.prems(2,3,4) len by (intro snoc.IH) (auto simp: es' intact_append)
    then show ?thesis
    proof
      assume "list_all2 same_content es0 es0'"
      with True show ?thesis
        by (simp add: es' list_all2_appendI)
    next
      assume "\<exists>i < length es0. collision (event_bytes (es0 ! i)) (event_bytes (es0' ! i))"
      then obtain i where "i < length es0" "collision (event_bytes (es0 ! i)) (event_bytes (es0' ! i))"
        by blast
      with len show ?thesis
        by (intro disjI2 exI [of _ i]) (auto simp: es' nth_append)
    qed
  qed
qed simp

subsection \<open>Extending a chain\<close>

text \<open>
  The link the ingest pipeline adds: the row with the given previous hash and its own hash, as
  \<open>InsertChained\<close> fills them in with \<open>CanonicalHash\<close> bound to the row.
\<close>

definition chain_hash_fn :: "event \<Rightarrow> bytes \<Rightarrow> bytes" where
  "chain_hash_fn e prev = canonical_hash (ev_id e) (ev_ts e) (ev_source_service e) (ev_actor_id e)
     (ev_action e) (ev_target_type e) (ev_target_id e) (ev_payload_hash e) prev"

lemma hash_ok_link [simp]: "hash_ok (link_event (chain_hash_fn e) prev e)"
  by (simp add: hash_ok_def link_event_def event_hash_def chain_hash_fn_def)

lemma chain_tip_zero: "chain_tip [] = zero_hash"
  by (simp add: chain_tip_def zero_hash_def)

text \<open>In chronological order the new row goes last, and the chain stays intact.\<close>

lemma log_insert_last:
  assumes "\<forall>x \<in> set l. ev_key x < ev_key e"
  shows "log_insert e l = l @ [e]"
proof -
  from assms have "List.filter (\<lambda>x. ev_key x < ev_key e) l = l"
    by (simp add: filter_id_conv)
  moreover from assms have "List.filter (\<lambda>x. ev_key e < ev_key x) l = []"
    by (auto simp: filter_empty_conv dest: less_asym)
  ultimately show ?thesis
    by (simp add: log_insert_def)
qed

lemma intact_append_link:
  "intact l \<Longrightarrow> intact (l @ [link_event (chain_hash_fn e) (chain_tip l) e])"
  by (auto simp: intact_append chain_tip_def)

text \<open>Sample links: a row of \<open>sample_event\<close> linked to a previous hash, and a chain of two.\<close>

definition sample_link :: "bytes \<Rightarrow> string \<Rightarrow> int \<Rightarrow> event" where
  "sample_link prev i t = link_event (chain_hash_fn (sample_event i t)) prev (sample_event i t)"

lemma sample_link_fields [simp]:
  "ev_id (sample_link p i t) = i" "ev_ts (sample_link p i t) = Time t"
  "ev_key (sample_link p i t) = (Time t, i)" "ev_prev_hash (sample_link p i t) = p"
  "hash_ok (sample_link p i t)"
  by (simp_all add: sample_link_def)

lemma sample_link_hash: "ev_this_hash (sample_link p i t) = event_hash (sample_link p i t)"
  using sample_link_fields(5) [of p i t] by (simp add: hash_ok_def)

lemma sample_link_encodable:
  "- (2 ^ 63) \<le> t \<Longrightarrow> t < 2 ^ 63 \<Longrightarrow> length i < 2 ^ 32 \<Longrightarrow> length p < 2 ^ 32 \<Longrightarrow> encodable (sample_link p i t)"
  by (simp add: encodable_def fits_def in_nano_range_def sample_link_def link_event_def sample_event_def)

definition sample_chain :: "event list" where
  "sample_chain =
     [sample_link zero_hash ''a'' 1, sample_link (ev_this_hash (sample_link zero_hash ''a'' 1)) ''b'' 2]"

lemma sample_chain_intact: "intact sample_chain"
  by (simp add: sample_chain_def intact_Cons)

lemma length_sample_hash: "length (ev_this_hash (sample_link p i t)) = 32"
  by (simp add: sample_link_hash)

lemma sample_chain_encodable: "\<forall>e \<in> set sample_chain. encodable e"
  by (simp add: sample_chain_def sample_link_encodable length_sample_hash)

end
