(* ===== verification/Tamper.thy ===== *)
theory Tamper
  imports Chain
begin

text \<open>
  What the hash chain of \<open>internal/chain\<close> detects, and what it does not. Every detection lemma has the
  form: the changed chain is rejected, or two named hash inputs collide. Removing rows at either end
  is not detected by verification alone, and a row that arrives out of chronological order makes the
  verifier reject a chain nobody touched.
\<close>

text \<open>Replacing an inner row by one with different content.\<close>

lemma replace_detected:
  assumes "intact (pre @ e # post)" and "intact (pre @ e' # post)" and "post \<noteq> []"
    and "encodable e" and "encodable e'"
  shows "same_content e e' \<or> collision (event_bytes e) (event_bytes e')"
proof -
  have "event_hash e = event_hash e'"
    using assms(1-3) by (auto simp: intact_append intact_Cons hash_ok_def)
  then show ?thesis
    using assms(4,5) by (rule event_hash_binding)
qed

text \<open>Changing columns but not the stored hash is noticed at that row, wherever it is.\<close>

lemma edit_detected:
  assumes "hash_ok e" and "ev_this_hash e' = ev_this_hash e" and "encodable e" and "encodable e'"
    and "\<not> same_content e e'"
  shows "\<not> hash_ok e' \<or> collision (event_bytes e) (event_bytes e')"
  using event_hash_binding [of e e'] assms by (auto simp: hash_ok_def)

text \<open>Removing rows from the middle.\<close>

lemma cut_detected:
  assumes "intact (pre @ mid @ post)" and "intact (pre @ post)"
    and "pre \<noteq> []" and "mid \<noteq> []" and "post \<noteq> []"
    and "encodable (last pre)" and "encodable (last mid)" and "ev_id (last pre) \<noteq> ev_id (last mid)"
  shows "collision (event_bytes (last pre)) (event_bytes (last mid))"
proof -
  have "ev_this_hash (last pre) = ev_this_hash (last mid)"
    using assms(1-5) by (auto simp: intact_append)
  moreover have "hash_ok (last pre)" "hash_ok (last mid)"
    using assms(1,3,4) by (auto simp: intact_def)
  ultimately show ?thesis
    using event_hash_binding [of "last pre" "last mid"] assms(6-8)
    by (auto simp: hash_ok_def same_content_def)
qed

text \<open>
  A row older than the newest one is placed before it, but linked to it. If the chain is still
  accepted, either two rows of the old log collide, or the new row's hash happens to be the previous
  hash the oldest row was stored with.
\<close>

lemma log_insert_middle:
  assumes "ascending ev_key l" and "ev_key e \<notin> ev_key ` set l" and "x \<in> set l" and "ev_key e < ev_key x"
  obtains pre post where "log_insert e l = pre @ e # post" "post \<noteq> []" "l = pre @ post"
proof
  let ?pre = "List.filter (\<lambda>x. ev_key x < ev_key e) l"
  let ?post = "List.filter (\<lambda>x. ev_key e < ev_key x) l"
  show "log_insert e l = ?pre @ e # ?post"
    by (simp add: log_insert_def)
  show "?post \<noteq> []"
    using assms(3,4) by (auto simp: filter_empty_conv)
  show "l = ?pre @ ?post"
    using ascending_partition [OF assms(1,2)] by simp
qed

lemma late_row_breaks_chain:
  assumes l: "intact l" "ascending ev_key l" "distinct (map ev_id l)" "\<forall>x \<in> set l. encodable x"
    and late: "ev_key e \<notin> ev_key ` set l" "x \<in> set l" "ev_key e < ev_key x"
    and prev: "ev_prev_hash e = chain_tip l"
    and still: "intact (log_insert e l)"
  shows "(\<exists>y \<in> set l. \<exists>z \<in> set l. collision (event_bytes y) (event_bytes z)) \<or>
    ev_prev_hash (hd l) = event_hash e"
proof -
  obtain pre post where ins: "log_insert e l = pre @ e # post" and post: "post \<noteq> []" and split: "l = pre @ post"
    using log_insert_middle [OF l(2) late] .
  have next_link: "ev_prev_hash (hd post) = event_hash e"
    using still ins post by (auto simp: intact_append intact_Cons hash_ok_def)
  show ?thesis
  proof (cases "pre = []")
    case True
    with split next_link show ?thesis by simp
  next
    case False
    then have "ev_this_hash (last pre) = ev_prev_hash e"
      using still ins by (simp add: intact_append)
    also have "\<dots> = ev_this_hash (last l)"
      using prev split post by (simp add: chain_tip_def)
    finally have same: "ev_this_hash (last pre) = ev_this_hash (last post)"
      using split post by simp
    have members: "last pre \<in> set l" "last post \<in> set l"
      using split False post by auto
    have "last pre \<in> set pre" "last post \<in> set post"
      using False post by auto
    then have "ev_id (last pre) \<noteq> ev_id (last post)"
      using l(3) split by (auto simp: image_iff)
    moreover have "event_hash (last pre) = event_hash (last post)"
      using same l(1) members by (auto simp: intact_def hash_ok_def)
    ultimately have "collision (event_bytes (last pre)) (event_bytes (last post))"
      using event_hash_binding [of "last pre" "last post"] l(4) members by (auto simp: same_content_def)
    with members show ?thesis by blast
  qed
qed

text \<open>The time stamp is hashed modulo \<open>2 ^ 64\<close> nanoseconds, about 584 years.\<close>

lemma time_wraps: "unix_nano (Time (n + 2 ^ 64)) = unix_nano (Time n)"
  by (simp add: unix_nano_def)

lemma time_shift_hash: "event_hash (e\<lparr>ev_ts := Time (nanos (ev_ts e) + 2 ^ 64)\<rparr>) = event_hash e"
proof -
  have "write_time (Time (nanos (ev_ts e) + 2 ^ 64)) = write_time (ev_ts e)"
    using time_wraps [of "nanos (ev_ts e)"] by (simp add: write_time_def)
  then show ?thesis
    by (simp add: event_hash_def canonical_hash_def canonical_bytes_def)
qed

text \<open>The two flags that may change after the insert are outside the hash.\<close>

lemma intact_map:
  assumes hash: "\<And>e. hash_ok (g e) = hash_ok e"
    and "\<And>e. ev_prev_hash (g e) = ev_prev_hash e" and "\<And>e. ev_this_hash (g e) = ev_this_hash e"
  shows "intact (map g l) = intact l"
proof -
  have "linked (map g l) = linked l"
    by (induction l rule: linked.induct) (simp_all add: assms)
  then show ?thesis
    by (simp add: intact_def hash)
qed

lemma intact_set_hold: "intact (map (set_hold i hold) l) = intact l"
  by (rule intact_map) (simp_all add: set_hold_def hash_ok_def event_hash_def)

lemma intact_anchor_event: "intact (map (anchor_event t i) l) = intact l"
  by (rule intact_map) (simp_all add: anchor_event_def hash_ok_def event_hash_def)

section \<open>Properties\<close>

text \<open>
  Property C1. The root of a verified chain commits to the whole chain: if \<open>VerifyChain\<close> accepts two
  chains of the same length and returns the same root for both, then they agree in every column the
  hash covers (id, time, service, actor, action, target, payload hash, previous hash), row by row, or
  the SHA-256 inputs of two rows at one position collide. All rows are assumed to be encodable: their fields
  are shorter than 2 ^ 32 bytes, and their times lie within the range of \<open>UnixNano\<close>, 1678 to 2262. Outside that
  range \<open>UnixNano\<close> wraps, and two times 2 ^ 64 nanoseconds apart have the same hash input
  (\<open>time_shift_not_detected\<close>).
\<close>

theorem root_commits_to_chain:
  assumes "length es = length es'"
    and "vr_status (fst (verify_chain es)) = StatusOK" and "vr_status (fst (verify_chain es')) = StatusOK"
    and "snd (verify_chain es) = snd (verify_chain es')"
    and "\<forall>e \<in> set es \<union> set es'. encodable e"
  shows "list_all2 same_content es es' \<or>
    (\<exists>i < length es. collision (event_bytes (es ! i)) (event_bytes (es' ! i)))"
proof (rule root_binding)
  assume "es \<noteq> []"
  with assms show "ev_this_hash (last es) = ev_this_hash (last es')"
    by (auto simp: verify_chain_ok verify_chain_root)
qed (use assms in \<open>auto simp: verify_chain_ok\<close>)

theorem root_commits_to_chain_witness:
  "let held = map (set_hold ''a'' True) sample_chain in
   held \<noteq> sample_chain \<and> (list_all2 same_content sample_chain held \<or>
    (\<exists>i < length sample_chain. collision (event_bytes (sample_chain ! i)) (event_bytes (held ! i))))"
proof -
  let ?held = "map (set_hold ''a'' True) sample_chain"
  have "encodable (set_hold i h e) = encodable e" for i h e
    by (simp add: set_hold_def encodable_def)
  then have held: "intact ?held" "\<forall>e \<in> set ?held. encodable e"
    using sample_chain_intact sample_chain_encodable by (simp_all add: intact_set_hold)
  have "ev_legal_hold (hd ?held) \<noteq> ev_legal_hold (hd sample_chain)"
    by (simp add: sample_chain_def sample_link_def sample_event_def link_event_def set_hold_def)
  then have "?held \<noteq> sample_chain" by auto
  moreover have "list_all2 same_content sample_chain ?held \<or>
      (\<exists>i < length sample_chain. collision (event_bytes (sample_chain ! i)) (event_bytes (?held ! i)))"
  proof (rule root_commits_to_chain)
    show "snd (verify_chain sample_chain) = snd (verify_chain ?held)"
      using sample_chain_intact held(1) by (simp add: verify_chain_root last_map set_hold_def)
    show "\<forall>e \<in> set sample_chain \<union> set ?held. encodable e"
      using sample_chain_encodable held(2) by blast
  qed (use sample_chain_intact held(1) in \<open>simp_all add: verify_chain_ok\<close>)
  ultimately show ?thesis by simp
qed

text \<open>
  Property C2. \<open>VerifyChain\<close> accepts a list of events exactly if every stored \<open>this_hash\<close> is the hash
  recomputed from the row and every row after the first stores the \<open>this_hash\<close> of the row before it as
  its \<open>prev_hash\<close>; the root it then returns is the last \<open>this_hash\<close> (32 zero bytes for the empty list),
  and it returns no root otherwise.
\<close>

theorem verify_chain_decides:
  "(vr_status (fst (verify_chain es)) = StatusOK \<longleftrightarrow>
      (\<forall>i < length es. ev_this_hash (es ! i) = event_hash (es ! i) \<and>
        (if i = 0 then True else ev_prev_hash (es ! i) = ev_this_hash (es ! (i - 1))))) \<and>
   snd (verify_chain es) =
     (if vr_status (fst (verify_chain es)) = StatusOK
      then if es = [] then zero_hash else ev_this_hash (last es) else [])"
  by (subst intact_nth [symmetric]) (simp add: verify_chain_ok verify_chain_root)

theorem verify_chain_decides_witness:
  "snd (verify_chain sample_chain) = ev_this_hash (last sample_chain)"
proof -
  have "vr_status (fst (verify_chain sample_chain)) = StatusOK" and "sample_chain \<noteq> []"
    by (simp add: verify_chain_ok sample_chain_intact) (simp add: sample_chain_def)
  then show ?thesis
    using conjunct2 [OF verify_chain_decides [of sample_chain]] by simp
qed

text \<open>
  When \<open>VerifyChain\<close> rejects, the event it reports is the first bad one: all rows before it
  form a chain it accepts, and the reported row either does not match its own hash (status broken) or
  does match it but does not point to the row before it (status gap).
\<close>

theorem verify_chain_reports_first:
  assumes "vr_status (fst (verify_chain es)) \<noteq> StatusOK"
  shows "\<exists>pre e post. es = pre @ e # post \<and> vr_status (fst (verify_chain pre)) = StatusOK \<and>
    vr_event (fst (verify_chain es)) = Some e \<and>
    (vr_status (fst (verify_chain es)) = StatusBroken \<and> ev_this_hash e \<noteq> event_hash e \<or>
     vr_status (fst (verify_chain es)) = StatusGap \<and> ev_this_hash e = event_hash e \<and> pre \<noteq> [] \<and>
     ev_prev_hash e \<noteq> ev_this_hash (last pre))"
  using verify_chain_first_failure [OF assms] by (auto simp: verify_chain_ok hash_ok_def)

theorem verify_chain_reports_first_witness:
  "\<exists>pre e post. [sample_event ''a'' 1] = pre @ e # post \<and> vr_status (fst (verify_chain pre)) = StatusOK \<and>
    vr_event (fst (verify_chain [sample_event ''a'' 1])) = Some e \<and>
    (vr_status (fst (verify_chain [sample_event ''a'' 1])) = StatusBroken \<and> ev_this_hash e \<noteq> event_hash e \<or>
     vr_status (fst (verify_chain [sample_event ''a'' 1])) = StatusGap \<and> ev_this_hash e = event_hash e \<and>
     pre \<noteq> [] \<and> ev_prev_hash e \<noteq> ev_this_hash (last pre))"
proof (rule verify_chain_reports_first)
  have "event_hash (sample_event ''a'' 1) \<noteq> []"
    using length_event_hash by (metis list.size(3) zero_neq_numeral)
  then show "vr_status (fst (verify_chain [sample_event ''a'' 1])) \<noteq> StatusOK"
    by (simp add: verify_chain_ok hash_ok_def)
qed

text \<open>
  Property C10. Changing an inner row is detected even if the attacker recomputes that row's own hash:
  if a chain is accepted both with the row \<open>e\<close> and with \<open>e'\<close> in its place, with some row after it,
  then \<open>e'\<close> has the content of \<open>e\<close> or their SHA-256 inputs collide. Both rows are assumed to be encodable
  (fields shorter than 2 ^ 32 bytes, times within the range of \<open>UnixNano\<close>, 1678 to 2262): moving a time by
  2 ^ 64 nanoseconds, out of that range, is not detected (\<open>time_shift_not_detected\<close>).
\<close>

theorem inner_edit_detected:
  assumes "vr_status (fst (verify_chain (pre @ e # post))) = StatusOK"
    and "vr_status (fst (verify_chain (pre @ e' # post))) = StatusOK"
    and "post \<noteq> []" and "encodable e" and "encodable e'"
  shows "same_content e e' \<or> collision (event_bytes e) (event_bytes e')"
  using replace_detected assms by (simp add: verify_chain_ok)

theorem inner_edit_detected_witness:
  "let e = hd sample_chain; e' = e\<lparr>ev_anchored := True\<rparr> in
   e' \<noteq> e \<and> (same_content e e' \<or> collision (event_bytes e) (event_bytes e'))"
proof -
  define e e' post where "e = hd sample_chain" and "e' = hd sample_chain\<lparr>ev_anchored := True\<rparr>"
    and "post = tl sample_chain"
  have chain: "sample_chain = e # post" "post \<noteq> []"
    by (simp_all add: sample_chain_def e_def post_def)
  have flag: "event_hash e' = event_hash e" "encodable e' = encodable e" "ev_this_hash e' = ev_this_hash e"
    by (simp_all add: event_hash_def encodable_def e_def e'_def)
  have whole: "intact (e # post)"
    using sample_chain_intact chain(1) by simp
  with flag have "intact (e' # post)"
    by (simp add: intact_Cons hash_ok_def)
  moreover have "encodable e"
    using sample_chain_encodable unfolding chain(1) by simp
  ultimately have "same_content e e' \<or> collision (event_bytes e) (event_bytes e')"
    using inner_edit_detected [of "[]" e post e'] whole chain(2) flag(2) by (simp add: verify_chain_ok)
  moreover have "ev_anchored e' \<noteq> ev_anchored e"
    by (simp add: e_def e'_def sample_chain_def sample_link_def sample_event_def link_event_def)
  then have "e' \<noteq> e" by auto
  ultimately show ?thesis by (simp add: Let_def e_def e'_def)
qed

text \<open>
  Removing rows from the middle of a chain is detected: if the chain is still accepted
  without the rows \<open>mid\<close>, the SHA-256 inputs of the two rows whose neighbours changed collide.
\<close>

theorem cut_is_detected:
  assumes "vr_status (fst (verify_chain (pre @ mid @ post))) = StatusOK"
    and "pre \<noteq> []" and "mid \<noteq> []" and "post \<noteq> []"
    and "encodable (last pre)" and "encodable (last mid)" and "ev_id (last pre) \<noteq> ev_id (last mid)"
  shows "vr_status (fst (verify_chain (pre @ post))) \<noteq> StatusOK \<or>
    collision (event_bytes (last pre)) (event_bytes (last mid))"
  using cut_detected assms by (auto simp: verify_chain_ok)

theorem cut_is_detected_witness:
  "let a = sample_link zero_hash ''a'' 1; b = sample_link (ev_this_hash a) ''b'' 2;
       c = sample_link (ev_this_hash b) ''c'' 3 in
   vr_status (fst (verify_chain ([a] @ [c]))) \<noteq> StatusOK \<or>
   collision (event_bytes (last [a])) (event_bytes (last [b]))"
  unfolding Let_def
  by (rule cut_is_detected)
    (simp_all add: verify_chain_ok intact_Cons sample_link_encodable length_sample_hash)

text \<open>
  Verification alone does not notice rows removed at either end: any contiguous part of an
  accepted chain is accepted, whatever the first row's \<open>prev_hash\<close> says. The start of the chain is
  compared with nothing, not even with the zero hash a genesis row carries, so a full sweep over a
  store that lost its oldest rows reports an intact chain.
\<close>

theorem verify_accepts_any_window:
  assumes "vr_status (fst (verify_chain es)) = StatusOK"
  shows "vr_status (fst (verify_chain (take n (drop m es)))) = StatusOK"
  using assms by (simp add: verify_chain_ok intact_window)

theorem verify_accepts_any_window_witness:
  "vr_status (fst (verify_chain (take 1 (drop 1 sample_chain)))) = StatusOK"
  by (rule verify_accepts_any_window) (simp add: verify_chain_ok sample_chain_intact)

text \<open>
  Property C24. The canonical encoding is injective: rows whose string and byte fields are shorter than
  \<open>2 ^ 32\<close> bytes and whose time lies in the years \<open>UnixNano\<close> can represent have the same encoding only
  if they agree in every encoded column. No two different rows are given the same hash input by
  shifting text from one field to the next.
\<close>

theorem canonical_bytes_injective:
  assumes "event_bytes e = event_bytes e'" and "encodable e" and "encodable e'"
  shows "same_content e e'"
  using assms by (rule event_bytes_inject)

theorem canonical_bytes_injective_witness:
  "same_content (sample_link zero_hash ''a'' 1) (sample_link zero_hash ''a'' 1 \<lparr>ev_anchored := True\<rparr>)"
proof (rule canonical_bytes_injective)
  show "event_bytes (sample_link zero_hash ''a'' 1) = event_bytes (sample_link zero_hash ''a'' 1\<lparr>ev_anchored := True\<rparr>)"
    by (simp add: event_bytes_def)
  show "encodable (sample_link zero_hash ''a'' 1)"
    by (simp add: sample_link_encodable)
  then show "encodable (sample_link zero_hash ''a'' 1\<lparr>ev_anchored := True\<rparr>)"
    by (simp add: encodable_def)
qed

text \<open>
  The time a row claims is hashed as \<open>int64\<close> nanoseconds, which wrap: moving a row's time by
  \<open>2 ^ 64\<close> nanoseconds (about 584 years, as from 2026 to 2610, both valid RFC 3339 years) leaves its
  verification status unchanged, so this tampering is never detected.
\<close>

theorem time_shift_not_detected:
  "vr_status (verify_event (e\<lparr>ev_ts := Time (nanos (ev_ts e) + 2 ^ 64)\<rparr>) prev) =
   vr_status (verify_event e prev)"
  using time_shift_hash [of e] by (simp add: verify_event_status hash_ok_def)

text \<open>
  Property C26. A row that arrives out of chronological order breaks the chain of an untampered store:
  \<open>InsertChained\<close> links it to the newest row but the store orders it by \<open>(ts, id)\<close>, so \<open>VerifyChain\<close> on
  the ordered rows rejects, unless two rows of the old log collide under SHA-256 or the new row's hash
  is by chance the \<open>prev_hash\<close> of the oldest row. The rows of the old log are encodable (fields shorter than
  2 ^ 32 bytes, times within the range of \<open>UnixNano\<close>).
\<close>

theorem late_row_is_reported_as_tampering:
  assumes "vr_status (fst (verify_chain l)) = StatusOK" and "ascending ev_key l"
    and "distinct (map ev_id l)" and "\<forall>x \<in> set l. encodable x"
    and "ev_id e \<notin> ev_id ` set l" and "x \<in> set l" and "ev_key e < ev_key x"
  defines "row \<equiv> link_event (chain_hash_fn e) (chain_tip l) e"
  shows "vr_status (fst (verify_chain (log_insert row l))) \<noteq> StatusOK \<or>
    (\<exists>y \<in> set l. \<exists>z \<in> set l. collision (event_bytes y) (event_bytes z)) \<or>
    ev_prev_hash (hd l) = event_hash row"
proof -
  have "ev_key row \<notin> ev_key ` set l"
    using assms(5) by (auto simp: row_def ev_key_def)
  then show ?thesis
    using late_row_breaks_chain [of l row x] assms by (auto simp: verify_chain_ok)
qed

theorem late_row_is_reported_as_tampering_witness:
  "let l = sample_chain; row = link_event (chain_hash_fn (sample_event ''c'' 0)) (chain_tip l) (sample_event ''c'' 0) in
   vr_status (fst (verify_chain (log_insert row l))) \<noteq> StatusOK \<or>
    (\<exists>y \<in> set l. \<exists>z \<in> set l. collision (event_bytes y) (event_bytes z)) \<or>
    ev_prev_hash (hd l) = event_hash row"
  unfolding Let_def
  by (rule late_row_is_reported_as_tampering [where x = "sample_link zero_hash ''a'' 1"])
    (use sample_chain_intact sample_chain_encodable in \<open>simp_all add: verify_chain_ok, simp_all add: sample_chain_def\<close>)

end
