(* ===== verification/Memstore.thy ===== *)
theory Memstore
  imports Store
begin

text \<open>
  \<open>internal/store/memstore\<close>: the in-memory stores. \<open>EventStore\<close> keeps a map from ids to pointers and
  a slice of the same pointers sorted by \<open>(ts, id)\<close>; a flag set through one is seen through the other.
  The model keeps the pointers: a heap of rows addressed by position, an index from ids to addresses
  and the ordered addresses. The mutex makes every operation atomic, so an operation is a function
  from the state to its result and the next state. \<open>mem_log\<close> reads the state as an event log;
  the operations are shown to implement the interface of \<open>Store\<close> over it.
  \<open>time.Now\<close> and fresh UUIDs are arguments (\<open>now\<close>, \<open>fresh\<close>).
\<close>

section \<open>EventStore: state and operations\<close>

record mem_store =
  ms_heap :: "event list"
  ms_events :: "string \<rightharpoonup> nat"
  ms_ordered :: "nat list"

definition new_event_store :: mem_store where
  "new_event_store = \<lparr>ms_heap = [], ms_events = Map.empty, ms_ordered = []\<rparr>"

definition mem_append :: "mem_store \<Rightarrow> event \<Rightarrow> mem_store" where
  "mem_append s c =
     (let p = length (ms_heap s); heap' = ms_heap s @ [c] in
      s\<lparr>ms_heap := heap',
        ms_events := (ms_events s)(ev_id c \<mapsto> p),
        ms_ordered := sort_key (\<lambda>q. ev_key (heap' ! q)) (ms_ordered s @ [p])\<rparr>)"

definition mem_insert :: "mem_store \<Rightarrow> event \<Rightarrow> bool result \<times> mem_store" where
  "mem_insert s e =
     (case ms_events s (ev_id e) of
        Some _ \<Rightarrow> (Inr False, s)
      | None \<Rightarrow> (Inr True, mem_append s e))"

definition mem_insert_chained ::
  "mem_store \<Rightarrow> event \<Rightarrow> (bytes \<Rightarrow> bytes) \<Rightarrow> bool result \<times> event \<times> mem_store" where
  "mem_insert_chained s e hash_fn =
     (case ms_events s (ev_id e) of
        Some _ \<Rightarrow> (Inr False, e, s)
      | None \<Rightarrow>
          (let prev_hash =
             (if length (ms_ordered s) > 0
              then ev_this_hash (ms_heap s ! (ms_ordered s ! (length (ms_ordered s) - 1)))
              else replicate 32 0);
             e' = e\<lparr>ev_prev_hash := prev_hash, ev_this_hash := hash_fn prev_hash\<rparr>
           in (Inr True, e', mem_append s e')))"

definition mem_get :: "mem_store \<Rightarrow> string \<Rightarrow> event result" where
  "mem_get s i =
     (case ms_events s i of
        None \<Rightarrow> Inl (ErrNotFound i)
      | Some p \<Rightarrow> Inr (ms_heap s ! p))"

text \<open>\<open>List\<close>: the clamped limit and the scan that stops as soon as the page is full.\<close>

definition clamp_limit :: "int \<Rightarrow> nat" where
  "clamp_limit l = (if l \<le> 0 \<or> l > 1000 then 1000 else nat l)"

fun list_scan :: "filter \<Rightarrow> nat \<Rightarrow> event list \<Rightarrow> event list \<Rightarrow> event list" where
  "list_scan f limit out [] = out"
| "list_scan f limit out (e # es) =
     (if \<not> passes_filter f e then list_scan f limit out es
      else if length (out @ [e]) \<ge> limit then out @ [e]
      else list_scan f limit (out @ [e]) es)"

definition mem_list :: "mem_store \<Rightarrow> filter \<Rightarrow> list_result result" where
  "mem_list s f =
     (let limit = clamp_limit (f_limit f);
          out = list_scan f limit [] (map ((!) (ms_heap s)) (ms_ordered s))
      in Inr \<lparr>lr_events = out,
              lr_next = (if length out \<ge> limit \<and> length out > 0
                         then cursor_at (out ! (length out - 1)) else zero_cursor)\<rparr>)"

definition mem_chain_head :: "mem_store \<Rightarrow> event option result" where
  "mem_chain_head s =
     (if length (ms_ordered s) = 0 then Inr None
      else Inr (Some (ms_heap s ! (ms_ordered s ! (length (ms_ordered s) - 1)))))"

definition mem_set_legal_hold :: "mem_store \<Rightarrow> string \<Rightarrow> bool \<Rightarrow> go_error option \<times> mem_store" where
  "mem_set_legal_hold s i hold =
     (case ms_events s i of
        None \<Rightarrow> (Some (ErrNotFound i), s)
      | Some p \<Rightarrow>
          (None, s\<lparr>ms_heap := (ms_heap s)[p := (ms_heap s ! p)\<lparr>ev_legal_hold := hold\<rparr>]\<rparr>))"

fun mark_scan :: "time \<Rightarrow> string \<Rightarrow> nat list \<Rightarrow> event list \<Rightarrow> int \<Rightarrow> event list \<times> int" where
  "mark_scan to_ts to_id [] heap n = (heap, n)"
| "mark_scan to_ts to_id (p # ps) heap n =
     (let e = heap ! p in
      if covered_by to_ts to_id e then
        if \<not> ev_anchored e then mark_scan to_ts to_id ps (heap[p := e\<lparr>ev_anchored := True\<rparr>]) (n + 1)
        else mark_scan to_ts to_id ps heap n
      else mark_scan to_ts to_id ps heap n)"

definition mem_mark_anchored :: "mem_store \<Rightarrow> time \<Rightarrow> string \<Rightarrow> int result \<times> mem_store" where
  "mem_mark_anchored s to_ts to_id =
     (let r = mark_scan to_ts to_id (ms_ordered s) (ms_heap s) 0 in
      (Inr (snd r), s\<lparr>ms_heap := fst r\<rparr>))"

text \<open>\<open>TamperForTest\<close> rewrites a stored row in place; tests use it to simulate an attacker.\<close>

definition mem_tamper :: "mem_store \<Rightarrow> string \<Rightarrow> (event \<Rightarrow> event) \<Rightarrow> mem_store" where
  "mem_tamper s i fn =
     (case ms_events s i of
        None \<Rightarrow> s
      | Some p \<Rightarrow> s\<lparr>ms_heap := (ms_heap s)[p := fn (ms_heap s ! p)]\<rparr>)"

section \<open>EventStore: invariant and refinement of the event log\<close>

definition mem_log :: "mem_store \<Rightarrow> event list" where
  "mem_log s = map ((!) (ms_heap s)) (ms_ordered s)"

definition mem_inv :: "mem_store \<Rightarrow> bool" where
  "mem_inv s \<longleftrightarrow>
     distinct (ms_ordered s) \<and>
     set (ms_ordered s) = {..<length (ms_heap s)} \<and>
     (\<forall>i p. ms_events s i = Some p \<longleftrightarrow> p < length (ms_heap s) \<and> ev_id (ms_heap s ! p) = i) \<and>
     ascending ev_key (mem_log s)"

lemma mem_inv_index:
  "mem_inv s \<Longrightarrow> ms_events s i = Some p \<longleftrightarrow> p < length (ms_heap s) \<and> ev_id (ms_heap s ! p) = i"
  by (simp add: mem_inv_def)

lemma set_mem_log: "mem_inv s \<Longrightarrow> set (mem_log s) = set (ms_heap s)"
  by (auto simp: mem_inv_def mem_log_def in_set_conv_nth image_iff)

lemma mem_index_dom:
  assumes inv: "mem_inv s"
  shows "ms_events s i = None \<longleftrightarrow> i \<notin> ev_id ` set (mem_log s)"
proof -
  have "ms_events s i \<noteq> None \<longleftrightarrow> (\<exists>p < length (ms_heap s). ev_id (ms_heap s ! p) = i)"
    using mem_inv_index [OF inv] by auto
  also have "\<dots> \<longleftrightarrow> i \<in> ev_id ` set (ms_heap s)"
    by (auto simp: set_conv_nth image_iff)
  finally show ?thesis
    using set_mem_log [OF inv] by auto
qed

lemma mem_inv_new [simp]: "mem_inv new_event_store"
  by (simp add: mem_inv_def new_event_store_def mem_log_def)

lemma mem_log_new [simp]: "mem_log new_event_store = []"
  by (simp add: new_event_store_def mem_log_def)

lemma mem_log_distinct:
  assumes "mem_inv s"
  shows "distinct (map ev_id (mem_log s))"
proof -
  have "inj_on (\<lambda>p. ev_id (ms_heap s ! p)) {..<length (ms_heap s)}"
  proof (rule inj_onI)
    fix p q
    assume "p \<in> {..<length (ms_heap s)}" "q \<in> {..<length (ms_heap s)}"
      and "ev_id (ms_heap s ! p) = ev_id (ms_heap s ! q)"
    then have "ms_events s (ev_id (ms_heap s ! q)) = Some p" "ms_events s (ev_id (ms_heap s ! q)) = Some q"
      using mem_inv_index [OF assms] by auto
    then show "p = q" by simp
  qed
  with assms show ?thesis
    by (simp add: mem_inv_def mem_log_def distinct_map o_def)
qed

lemma mem_append_log:
  assumes inv: "mem_inv s" and fresh: "ms_events s (ev_id c) = None"
  shows "mem_log (mem_append s c) = log_insert c (mem_log s)"
proof -
  let ?p = "length (ms_heap s)" and ?heap = "ms_heap s @ [c]"
  let ?k = "\<lambda>q. ev_key (?heap ! q)"
  have cells: "map ((!) ?heap) (ms_ordered s) = mem_log s"
    using inv by (auto simp: mem_log_def mem_inv_def nth_append)
  have "ascending ev_key (map ((!) ?heap) (ms_ordered s))"
    using inv cells by (simp add: mem_inv_def)
  then have asc: "ascending ?k (ms_ordered s)"
    by (simp add: sorted_wrt_map)
  have "ev_key c \<notin> ev_key ` set (mem_log s)"
    using fresh mem_index_dom [OF inv] by (force simp: ev_key_def)
  then have "ev_key c \<notin> ?k ` set (ms_ordered s)"
    by (simp flip: cells add: image_image)
  then have new: "?k ?p \<notin> ?k ` set (ms_ordered s)"
    by simp
  have "mem_log (mem_append s c) = map ((!) ?heap) (sort_key ?k (ms_ordered s @ [?p]))"
    by (simp add: mem_log_def mem_append_def Let_def)
  also have "\<dots> = map ((!) ?heap) (List.filter (\<lambda>q. ?k q < ev_key c) (ms_ordered s)) @ c #
      map ((!) ?heap) (List.filter (\<lambda>q. ev_key c < ?k q) (ms_ordered s))"
    using sort_key_insert_last [OF asc new] by simp
  also have "\<dots> = log_insert c (map ((!) ?heap) (ms_ordered s))"
    by (simp add: log_insert_def filter_map o_def)
  finally show ?thesis
    by (simp add: cells)
qed

lemma mem_append_inv:
  assumes inv: "mem_inv s" and fresh: "ms_events s (ev_id c) = None"
  shows "mem_inv (mem_append s c)"
  unfolding mem_inv_def
proof (intro conjI allI)
  have ordered: "set (ms_ordered (mem_append s c)) = insert (length (ms_heap s)) (set (ms_ordered s))"
    by (simp add: mem_append_def Let_def)
  show "distinct (ms_ordered (mem_append s c))"
    using inv by (simp add: mem_append_def Let_def mem_inv_def)
  show "set (ms_ordered (mem_append s c)) = {..<length (ms_heap (mem_append s c))}"
    using inv ordered by (auto simp: mem_append_def Let_def mem_inv_def)
  show "ms_events (mem_append s c) i = Some p \<longleftrightarrow>
      p < length (ms_heap (mem_append s c)) \<and> ev_id (ms_heap (mem_append s c) ! p) = i" for i p
    using mem_inv_index [OF inv, of i p] mem_inv_index [OF inv, of "ev_id c" p] fresh
    by (auto simp: mem_append_def Let_def nth_append)
  have "ev_key c \<notin> ev_key ` set (mem_log s)"
    using fresh mem_index_dom [OF inv] by (force simp: ev_key_def)
  then show "ascending ev_key (mem_log (mem_append s c))"
    using inv mem_append_log [OF inv fresh]
    by (simp add: log_insert_def ascending_insert mem_inv_def)
qed

text \<open>Rewriting one row in place, with its key kept, keeps the invariant and maps the log.\<close>

lemma mem_update_cell:
  assumes inv: "mem_inv s" and cell: "ms_events s i = Some p"
    and keep: "ev_id (g (ms_heap s ! p)) = ev_id (ms_heap s ! p)"
      "ev_key (g (ms_heap s ! p)) = ev_key (ms_heap s ! p)"
  defines "s' \<equiv> s\<lparr>ms_heap := (ms_heap s)[p := g (ms_heap s ! p)]\<rparr>"
  shows "mem_inv s'" and "mem_log s' = map (\<lambda>e. if ev_id e = i then g e else e) (mem_log s)"
proof -
  have p: "p < length (ms_heap s)" "ev_id (ms_heap s ! p) = i"
    using mem_inv_index [OF inv] cell by auto
  have id_iff: "ev_id (ms_heap s ! q) = i \<longleftrightarrow> q = p" if "q < length (ms_heap s)" for q
    using mem_inv_index [OF inv, of i q] cell that by auto
  show log: "mem_log s' = map (\<lambda>e. if ev_id e = i then g e else e) (mem_log s)"
    using inv p id_iff by (auto simp: s'_def mem_log_def mem_inv_def nth_list_update)
  have "ascending ev_key (mem_log s') \<longleftrightarrow> ascending ev_key (mem_log s)"
  proof -
    have "map ev_key (mem_log s') = map ev_key (mem_log s)"
      using inv keep p by (auto simp: s'_def mem_log_def mem_inv_def nth_list_update)
    then show ?thesis
      by (metis sorted_wrt_map)
  qed
  with inv keep p show "mem_inv s'"
    by (auto simp: s'_def mem_inv_def nth_list_update)
qed

lemma mark_scan_cells:
  assumes "distinct ps" and "\<forall>p \<in> set ps. p < length heap"
  shows "length (fst (mark_scan t i ps heap n)) = length heap \<and>
    (\<forall>q < length heap. fst (mark_scan t i ps heap n) ! q =
      (if q \<in> set ps then anchor_event t i (heap ! q) else heap ! q)) \<and>
    snd (mark_scan t i ps heap n) =
      n + int (length [p \<leftarrow> ps. covered_by t i (heap ! p) \<and> \<not> ev_anchored (heap ! p)])"
  using assms
proof (induction ps arbitrary: heap n)
  case (Cons p ps)
  show ?case
  proof (cases "covered_by t i (heap ! p) \<and> \<not> ev_anchored (heap ! p)")
    case True
    define h where "h = heap[p := (heap ! p)\<lparr>ev_anchored := True\<rparr>]"
    have h: "length h = length heap" "h ! p = anchor_event t i (heap ! p)"
      "\<And>r. r \<noteq> p \<Longrightarrow> h ! r = heap ! r"
      using Cons.prems True by (simp_all add: h_def anchor_event_def)
    have "[r \<leftarrow> ps. covered_by t i (h ! r) \<and> \<not> ev_anchored (h ! r)] =
        [r \<leftarrow> ps. covered_by t i (heap ! r) \<and> \<not> ev_anchored (heap ! r)]"
      using Cons.prems h(3) by (metis (mono_tags, lifting) distinct.simps(2) filter_cong)
    moreover have "mark_scan t i (p # ps) heap n = mark_scan t i ps h (n + 1)"
      using True by (simp add: Let_def h_def)
    moreover have "distinct ps" "p \<notin> set ps" "\<forall>r \<in> set ps. r < length h"
      using Cons.prems h(1) by auto
    moreover note Cons.IH [of h "n + 1"]
    ultimately show ?thesis
      using True h by (simp, metis)
  next
    case False
    with Cons.prems Cons.IH [of heap n] show ?thesis
      by (auto simp: Let_def anchor_event_def)
  qed
qed simp

lemma mem_mark_anchored_log:
  fixes t :: time and i :: string
  assumes inv: "mem_inv s"
  defines "s' \<equiv> snd (mem_mark_anchored s t i)"
  shows "mem_inv s'" and "mem_log s' = map (anchor_event t i) (mem_log s)"
    and "fst (mem_mark_anchored s t i) =
      Inr (int (length [e \<leftarrow> mem_log s. covered_by t i e \<and> \<not> ev_anchored e]))"
proof -
  have ps: "distinct (ms_ordered s)" "\<forall>p \<in> set (ms_ordered s). p < length (ms_heap s)"
    using inv by (auto simp: mem_inv_def)
  note cells = mark_scan_cells [OF ps]
  have heap': "ms_heap s' = map (anchor_event t i) (ms_heap s)"
    using inv by (auto simp: s'_def mem_mark_anchored_def Let_def mem_inv_def cells intro!: nth_equalityI)
  have rest: "ms_ordered s' = ms_ordered s" "ms_events s' = ms_events s"
    by (simp_all add: s'_def mem_mark_anchored_def Let_def)
  show log: "mem_log s' = map (anchor_event t i) (mem_log s)"
    using inv by (auto simp: mem_log_def heap' rest mem_inv_def)
  show "mem_inv s'"
    using inv by (auto simp: mem_inv_def log heap' rest ascending_map_key)
  show "fst (mem_mark_anchored s t i) =
      Inr (int (length [e \<leftarrow> mem_log s. covered_by t i e \<and> \<not> ev_anchored e]))"
    by (simp add: mem_mark_anchored_def Let_def cells mem_log_def filter_map o_def)
qed

text \<open>The scan of \<open>List\<close> against its specification, a truncated filter.\<close>

lemma list_scan_take:
  "length out < limit \<Longrightarrow>
   list_scan f limit out es = out @ take (limit - length out) (List.filter (passes_filter f) es)"
proof (induction es arbitrary: out)
  case (Cons e es)
  show ?case
  proof (cases "length (out @ [e]) < limit")
    case True
    then have "limit - length out = Suc (limit - length (out @ [e]))"
      by simp
    with True Cons show ?thesis by simp
  next
    case False
    with Cons.prems have "limit - length out = Suc 0"
      by simp
    with False Cons show ?thesis by simp
  qed
qed simp

lemma clamp_limit_range: "0 < clamp_limit l" "clamp_limit l \<le> 1000"
  by (auto simp: clamp_limit_def)

lemma mem_list_events:
  "mem_list s f = Inr \<lparr>lr_events = take (clamp_limit (f_limit f)) (List.filter (passes_filter f) (mem_log s)),
     lr_next = (let out = take (clamp_limit (f_limit f)) (List.filter (passes_filter f) (mem_log s)) in
       if clamp_limit (f_limit f) \<le> length out then cursor_at (last out) else zero_cursor)\<rparr>"
proof -
  have scan: "list_scan f (clamp_limit (f_limit f)) [] (mem_log s) =
      take (clamp_limit (f_limit f)) (List.filter (passes_filter f) (mem_log s))" (is "_ = ?out")
    using list_scan_take [of "[]"] clamp_limit_range(1) by simp
  have "?out ! (length ?out - 1) = last ?out" if "0 < length ?out"
    using that by (metis last_conv_nth length_greater_0_conv)
  moreover have "0 < length ?out" if "clamp_limit (f_limit f) \<le> length ?out"
    using that clamp_limit_range(1) [of "f_limit f"] by linarith
  ultimately show ?thesis
    using scan by (auto simp: mem_list_def Let_def simp flip: mem_log_def)
qed

lemma mem_list_lawful: "\<exists>res. mem_list s f = Inr res \<and> lawful_page (mem_log s) f res"
  using clamp_limit_range(1) [of "f_limit f"]
  by (auto simp: mem_list_events lawful_page_def Let_def min_def not_le)

interpretation mem: event_store mem_inv mem_log mem_get mem_list mem_chain_head
  mem_insert_chained mem_set_legal_hold mem_mark_anchored
proof
  fix s i f e hash_fn hold to_ts to_id
  assume inv: "mem_inv s"
  show "ascending ev_key (mem_log s)"
    using inv by (simp add: mem_inv_def)
  show "distinct (map ev_id (mem_log s))"
    using inv by (rule mem_log_distinct)
  show get: "mem_get s i =
      (case find (\<lambda>e. ev_id e = i) (mem_log s) of None \<Rightarrow> Inl (ErrNotFound i) | Some e \<Rightarrow> Inr e)" for i
  proof (cases "ms_events s i")
    case None
    then have "i \<notin> ev_id ` set (mem_log s)"
      using mem_index_dom [OF inv] by blast
    with None show ?thesis
      by (simp add: mem_get_def find_key_None)
  next
    case (Some p)
    then have "p < length (ms_heap s)" "ev_id (ms_heap s ! p) = i"
      using mem_inv_index [OF inv] by auto
    moreover from this have "ms_heap s ! p \<in> set (mem_log s)"
      using set_mem_log [OF inv] by simp
    ultimately show ?thesis
      using Some find_distinct_key [OF mem_log_distinct [OF inv]] by (simp add: mem_get_def)
  qed
  show "mem_get s (ev_id e) = Inr e" if "e \<in> set (mem_log s)"
    using that by (simp add: get find_distinct_key [OF mem_log_distinct [OF inv]])
  show "\<exists>res. mem_list s f = Inr res \<and> lawful_page (mem_log s) f res"
    by (rule mem_list_lawful)
  show "mem_chain_head s = Inr (if mem_log s = [] then None else Some (last (mem_log s)))"
    by (simp add: mem_chain_head_def mem_log_def last_conv_nth)
  show "mem_insert_chained s e hash_fn = (Inr False, e, s)" if "ev_id e \<in> ev_id ` set (mem_log s)"
    using that mem_index_dom [OF inv, of "ev_id e"] by (auto simp: mem_insert_chained_def)
  show "\<exists>s'. mem_insert_chained s e hash_fn =
        (Inr True, link_event hash_fn (chain_tip (mem_log s)) e, s') \<and> mem_inv s' \<and>
        mem_log s' = log_insert (link_event hash_fn (chain_tip (mem_log s)) e) (mem_log s)"
    if "ev_id e \<notin> ev_id ` set (mem_log s)"
  proof -
    let ?e = "link_event hash_fn (chain_tip (mem_log s)) e"
    have fresh: "ms_events s (ev_id e) = None"
      using that mem_index_dom [OF inv] by simp
    have "mem_insert_chained s e hash_fn = (Inr True, ?e, mem_append s ?e)"
      by (simp add: mem_insert_chained_def fresh Let_def chain_tip_def mem_log_def link_event_def last_conv_nth)
    then show ?thesis
      using mem_append_inv [OF inv, of ?e] mem_append_log [OF inv, of ?e] fresh by simp
  qed
  show "mem_set_legal_hold s i hold = (Some (ErrNotFound i), s)" if "i \<notin> ev_id ` set (mem_log s)"
    using that mem_index_dom [OF inv, of i] by (auto simp: mem_set_legal_hold_def)
  show "\<exists>s'. mem_set_legal_hold s i hold = (None, s') \<and> mem_inv s' \<and>
        mem_log s' = map (set_hold i hold) (mem_log s)" if present: "i \<in> ev_id ` set (mem_log s)"
  proof -
    obtain p where p: "ms_events s i = Some p"
      using present mem_index_dom [OF inv, of i] by (cases "ms_events s i") auto
    show ?thesis
      using mem_update_cell [OF inv p, of "\<lambda>e. e\<lparr>ev_legal_hold := hold\<rparr>"] p
      by (simp add: mem_set_legal_hold_def ev_key_def set_hold_def [abs_def])
  qed
  show "\<exists>s'. mem_mark_anchored s to_ts to_id =
        (Inr (int (length [e \<leftarrow> mem_log s. covered_by to_ts to_id e \<and> \<not> ev_anchored e])), s') \<and>
        mem_inv s' \<and> mem_log s' = map (anchor_event to_ts to_id) (mem_log s)"
    using mem_mark_anchored_log [OF inv] by (metis prod.collapse)
qed

section \<open>AnchorStore\<close>

type_synonym anchor_store = "anchor list"

definition new_anchor_store :: anchor_store where
  "new_anchor_store = []"

declare new_anchor_store_def [simp]

definition mem_insert_anchor ::
  "string \<Rightarrow> time \<Rightarrow> anchor_store \<Rightarrow> anchor \<Rightarrow> string result \<times> anchor_store" where
  "mem_insert_anchor fresh now s a =
     (let c = a\<lparr>an_id := fresh\<rparr>;
          c' = (if is_zero (an_anchored_at c) then c\<lparr>an_anchored_at := now\<rparr> else c)
      in (Inr (an_id c'), s @ [c']))"

definition mem_list_anchors :: "anchor_store \<Rightarrow> time \<Rightarrow> time \<Rightarrow> anchor list result" where
  "mem_list_anchors s from to =
     Inr (sort_key an_anchored_at
       [a \<leftarrow> s. \<not> (\<not> is_zero from \<and> an_anchored_at a < from) \<and> \<not> (\<not> is_zero to \<and> an_anchored_at a > to)])"

definition mem_get_anchor :: "anchor_store \<Rightarrow> string \<Rightarrow> anchor result" where
  "mem_get_anchor s i =
     (case find (\<lambda>a. an_id a = i) s of None \<Rightarrow> Inl (ErrNotFound i) | Some a \<Rightarrow> Inr a)"

lemma mem_list_anchors_window:
  "mem_list_anchors s from to = Inr (sort_key an_anchored_at [a \<leftarrow> s. in_window from to (an_anchored_at a)])"
proof -
  have "[a \<leftarrow> s. \<not> (\<not> is_zero from \<and> an_anchored_at a < from) \<and> \<not> (\<not> is_zero to \<and> an_anchored_at a > to)] =
      [a \<leftarrow> s. in_window from to (an_anchored_at a)]"
    by (rule filter_cong) (auto simp: in_window_def not_less)
  then show ?thesis
    by (simp add: mem_list_anchors_def)
qed

interpretation mem_anchors: anchor_store "\<lambda>s. s" "mem_insert_anchor fresh now" mem_list_anchors
  for fresh :: string and now :: time
proof
  fix s :: anchor_store and a :: anchor and lo hi :: time
  show "\<exists>i now' s'. mem_insert_anchor fresh now s a = (Inr i, s') \<and> s' = s @ [stamp_anchor i now' a]"
    by (intro exI [of _ fresh] exI [of _ now]) (simp add: mem_insert_anchor_def stamp_anchor_def Let_def)
  show "\<exists>as. mem_list_anchors s lo hi = Inr as \<and> sorted (map an_anchored_at as) \<and>
      set as = {a \<in> set s. in_window lo hi (an_anchored_at a)}"
    by (simp add: mem_list_anchors_window sorted_sort_key)
qed

section \<open>ExportJobStore\<close>

type_synonym job_store = "string \<rightharpoonup> export_job"

definition new_job_store :: job_store where
  "new_job_store = Map.empty"

declare new_job_store_def [simp]

definition mem_create_job :: "time \<Rightarrow> job_store \<Rightarrow> export_job \<Rightarrow> go_error option \<times> job_store" where
  "mem_create_job now s j =
     (case s (job_id j) of
        Some _ \<Rightarrow> (None, s)
      | None \<Rightarrow>
          (let c = (if is_zero (job_created_at j) then j\<lparr>job_created_at := now\<rparr> else j)
           in (None, s(job_id j \<mapsto> c))))"

definition mem_get_job :: "job_store \<Rightarrow> string \<Rightarrow> export_job result" where
  "mem_get_job s i = (case s i of None \<Rightarrow> Inl (ErrNotFound i) | Some j \<Rightarrow> Inr j)"

definition mem_update_job ::
  "job_store \<Rightarrow> string \<Rightarrow> string \<Rightarrow> int \<Rightarrow> string \<Rightarrow> bytes \<Rightarrow> string \<Rightarrow> time \<Rightarrow> go_error option \<times> job_store" where
  "mem_update_job s i status row_count payload_ref chain_root anchor_id completed_at =
     (case s i of
        None \<Rightarrow> (Some (ErrNotFound i), s)
      | Some j \<Rightarrow>
          (let j' = j\<lparr>job_status := status, job_row_count := row_count, job_payload_ref := payload_ref,
                      job_chain_root := chain_root, job_anchor_id := anchor_id\<rparr>;
               j'' = (if \<not> is_zero completed_at then j'\<lparr>job_completed_at := completed_at\<rparr> else j')
           in (None, s(i \<mapsto> j''))))"

text \<open>
  \<open>ListJobs\<close> ranges over the map, whose order Go leaves open: \<open>order\<close> is the order of the ids it
  happened to take. The sort by descending creation time is stable.
\<close>

definition mem_list_jobs :: "string list \<Rightarrow> job_store \<Rightarrow> int \<Rightarrow> export_job list" where
  "mem_list_jobs order s limit =
     (let out = rev (sort_key job_created_at (rev (List.map_filter s order)))
      in if limit > 0 \<and> int (length out) > limit then take (nat limit) out else out)"

lemma mem_get_create:
  "s (job_id j) = None \<Longrightarrow>
   mem_get_job (snd (mem_create_job now s j)) (job_id j) =
     Inr (if is_zero (job_created_at j) then j\<lparr>job_created_at := now\<rparr> else j)"
  by (simp add: mem_create_job_def mem_get_job_def Let_def)

lemma mem_create_other:
  "i \<noteq> job_id j \<or> s i \<noteq> None \<Longrightarrow> snd (mem_create_job now s j) i = s i"
  by (auto simp: mem_create_job_def Let_def split: option.splits)

lemma mem_update_other: "i' \<noteq> i \<Longrightarrow> snd (mem_update_job s i st n r c a t) i' = s i'"
  by (auto simp: mem_update_job_def Let_def split: option.splits)

section \<open>DeadLetterStore\<close>

type_synonym dead_letter_store = "dead_letter list"

definition new_dead_letter_store :: dead_letter_store where
  "new_dead_letter_store = []"

declare new_dead_letter_store_def [simp]

definition mem_append_dead_letter ::
  "string \<Rightarrow> time \<Rightarrow> dead_letter_store \<Rightarrow> dead_letter \<Rightarrow> go_error option \<times> dead_letter_store" where
  "mem_append_dead_letter fresh now s dl =
     (let c = dl\<lparr>dl_id := fresh\<rparr>;
          c' = (if is_zero (dl_rejected_at c) then c\<lparr>dl_rejected_at := now\<rparr> else c)
      in (None, s @ [c']))"

text \<open>\<open>List\<close>: backwards from the newest record until \<open>limit\<close> are collected.\<close>

definition mem_list_dead_letters :: "dead_letter_store \<Rightarrow> int \<Rightarrow> dead_letter list" where
  "mem_list_dead_letters s limit =
     (let limit' = (if limit \<le> 0 \<or> limit > int (length s) then int (length s) else limit)
      in take (nat limit') (rev s))"

lemma mem_list_dead_letters_newest:
  "s \<noteq> [] \<Longrightarrow> hd (mem_list_dead_letters s limit) = last s"
  by (cases s rule: rev_cases) (auto simp: mem_list_dead_letters_def Let_def take_Cons')

section \<open>All four stores\<close>

record mem_all =
  ma_events :: mem_store
  ma_anchors :: anchor_store
  ma_exports :: job_store
  ma_dead_letters :: dead_letter_store

definition new_all :: mem_all where
  "new_all = \<lparr>ma_events = new_event_store, ma_anchors = new_anchor_store, ma_exports = new_job_store,
     ma_dead_letters = new_dead_letter_store\<rparr>"

lemma new_all_stores [simp]:
  "ma_events new_all = new_event_store" "ma_anchors new_all = new_anchor_store"
  "ma_exports new_all = new_job_store" "ma_dead_letters new_all = new_dead_letter_store"
  by (simp_all add: new_all_def)

end
