(* ===== verification/Anchor.thy ===== *)
theory Anchor
  imports Chain Memstore
begin

text \<open>
  The rest of \<open>internal/chain\<close>: the Merkle root, the periodic anchor job and the integrity sweep.
  The job's and the sweep's lemmas are proved against the store interfaces, in the locales
  \<open>event_pager\<close> (the sweep) and \<open>anchoring\<close> (the job), and hold of the stores by interpretation.
\<close>

section \<open>Merkle root\<close>

fun merkle_level :: "bytes list \<Rightarrow> bytes list" where
  "merkle_level [] = []"
| "merkle_level [h] = [h]"
| "merkle_level (g # h # hs) = sha256 (g @ h) # merkle_level hs"

lemma length_merkle_level: "length (merkle_level hs) = (length hs + 1) div 2"
  by (induction hs rule: merkle_level.induct) auto

function merkle_loop :: "bytes list \<Rightarrow> bytes list" where
  "merkle_loop current = (if length current > 1 then merkle_loop (merkle_level current) else current)"
  by pat_completeness auto
termination
  by (relation "measure length") (auto simp: length_merkle_level)

declare merkle_loop.simps [simp del]

definition merkle_root :: "bytes list \<Rightarrow> bytes" where
  "merkle_root hashes =
     (if length hashes = 0 then zero_hash
      else if length hashes = 1 then hashes ! 0
      else merkle_loop hashes ! 0)"

text \<open>The inputs hashed on the way: the concatenated pairs of every level.\<close>

fun level_inputs :: "bytes list \<Rightarrow> bytes list" where
  "level_inputs (g # h # hs) = (g @ h) # level_inputs hs"
| "level_inputs _ = []"

function merkle_inputs :: "bytes list \<Rightarrow> bytes list" where
  "merkle_inputs hs = (if length hs > 1 then level_inputs hs @ merkle_inputs (merkle_level hs) else [])"
  by pat_completeness auto
termination
  by (relation "measure length") (auto simp: length_merkle_level)

declare merkle_inputs.simps [simp del]

lemma merkle_root_step: "length hs > 1 \<Longrightarrow> merkle_root hs = merkle_root (merkle_level hs)"
proof -
  assume long: "length hs > 1"
  then have "merkle_loop hs = merkle_loop (merkle_level hs)" and "merkle_level hs \<noteq> []"
    by (simp_all add: merkle_loop.simps [of hs]) (cases hs rule: merkle_level.cases; simp)
  with long show "merkle_root hs = merkle_root (merkle_level hs)"
    by (auto simp: merkle_root_def merkle_loop.simps [of "merkle_level hs"])
qed

lemma merkle_level_width:
  "\<forall>h \<in> set hs. length h = 32 \<Longrightarrow> \<forall>h \<in> set (merkle_level hs). length h = 32"
  by (induction hs rule: merkle_level.induct) auto

lemma merkle_level_binding:
  assumes "merkle_level hs = merkle_level hs'" and "length hs = length hs'"
    and "\<forall>h \<in> set hs. length h = 32" and "\<forall>h \<in> set hs'. length h = 32"
  shows "hs = hs' \<or> (\<exists>x \<in> set (level_inputs hs). \<exists>y \<in> set (level_inputs hs'). collision x y)"
  using assms
proof (induction hs arbitrary: hs' rule: merkle_level.induct)
  case (2 h)
  then show ?case by (cases hs' rule: merkle_level.cases) auto
next
  case (3 g h hs)
  obtain g' h' ks where hs': "hs' = g' # h' # ks"
    using "3.prems"(2) by (cases hs' rule: merkle_level.cases) auto
  show ?case
  proof (cases "g @ h = g' @ h'")
    case True
    with "3.prems" have "g = g'" "h = h'"
      by (auto simp: hs')
    moreover have "hs = ks \<or> (\<exists>x \<in> set (level_inputs hs). \<exists>y \<in> set (level_inputs ks). collision x y)"
      by (rule "3.IH") (use "3.prems" in \<open>auto simp: hs'\<close>)
    ultimately show ?thesis
      unfolding hs' by auto
  next
    case False
    with "3.prems"(1) have "collision (g @ h) (g' @ h')"
      by (simp add: hs' collision_def)
    then show ?thesis
      by (auto simp: hs')
  qed
qed auto

lemma merkle_root_binding:
  assumes "merkle_root hs = merkle_root hs'" and "length hs = length hs'"
    and "\<forall>h \<in> set hs. length h = 32" and "\<forall>h \<in> set hs'. length h = 32"
  shows "hs = hs' \<or> (\<exists>x \<in> set (merkle_inputs hs). \<exists>y \<in> set (merkle_inputs hs'). collision x y)"
  using assms
proof (induction "length hs" arbitrary: hs hs' rule: less_induct)
  case less
  show ?case
  proof (cases "length hs > 1")
    case True
    then have "length (merkle_level hs) < length hs"
      by (simp add: length_merkle_level)
    with less True
    have "merkle_level hs = merkle_level hs' \<or>
        (\<exists>x \<in> set (merkle_inputs (merkle_level hs)). \<exists>y \<in> set (merkle_inputs (merkle_level hs')). collision x y)"
      by (intro less.hyps) (auto simp: length_merkle_level merkle_level_width simp flip: merkle_root_step)
    with merkle_level_binding [OF _ less.prems(2-4)] True less.prems(2) show ?thesis
      by (auto simp: merkle_inputs.simps [of hs] merkle_inputs.simps [of hs'])
  next
    case False
    with less.prems(1,2) show ?thesis
      by (cases hs; cases hs') (auto simp: merkle_root_def)
  qed
qed

section \<open>The anchor job\<close>

text \<open>
  \<open>AnchorJob\<close>: the operations of its two stores it calls, the signer, the notary URL and the optional
  event counter (of which only the count is used).
\<close>

record ('e, 'a) anchor_job =
  aj_chain_head :: "'e \<Rightarrow> event option result"
  aj_mark_anchored :: "'e \<Rightarrow> time \<Rightarrow> string \<Rightarrow> int result \<times> 'e"
  aj_insert_anchor :: "'a \<Rightarrow> anchor \<Rightarrow> string result \<times> 'a"
  aj_signer :: "bytes \<Rightarrow> (bytes \<times> string) result"
  aj_notary_url :: string
  aj_event_count :: "('e \<Rightarrow> int) option"

text \<open>
  \<open>Run\<close> touches the stores three times: it reads the head, inserts the anchor, marks the rows. Each touch
  is a definition of its own, since other operations may come between them.
\<close>

definition anchor_sign :: "('e, 'a) anchor_job \<Rightarrow> event \<Rightarrow> 'e \<Rightarrow> 'a \<Rightarrow> anchor result \<times> 'a" where
  "anchor_sign job head es as =
     (let root = ev_this_hash head in
      if length root \<noteq> 32 then (Inl (ErrMsg (''chain: anchor: bad root hash '' @ hex_encode root)), as)
      else
        (let count = (case aj_event_count job of Some f \<Rightarrow> f es | None \<Rightarrow> 1) in
         case aj_signer job root of
           Inl err \<Rightarrow> (Inl (ErrWrap ''chain: anchor: sign'' err), as)
         | Inr (sig, key_id) \<Rightarrow>
             (let anchor = \<lparr>an_id = '''', an_anchored_at = zero_time, an_root_hash = root,
                    an_last_event_id = ev_id head, an_last_event_ts = ev_ts head,
                    an_signature = sig, an_kms_key_id = key_id,
                    an_notary_url = aj_notary_url job, an_event_count = count\<rparr> in
              case aj_insert_anchor job as anchor of
                (Inl err, as') \<Rightarrow> (Inl (ErrWrap ''chain: anchor: insert'' err), as')
              | (Inr i, as') \<Rightarrow> (Inr (anchor\<lparr>an_id := i\<rparr>), as'))))"

definition anchor_mark :: "('e, 'a) anchor_job \<Rightarrow> event \<Rightarrow> anchor \<Rightarrow> 'e \<Rightarrow> anchor result \<times> 'e" where
  "anchor_mark job head anchor es =
     (case aj_mark_anchored job es (ev_ts head) (ev_id head) of
        (Inl err, es') \<Rightarrow> (Inl (ErrWrap ''chain: anchor: mark anchored'' err), es')
      | (Inr _, es') \<Rightarrow> (Inr anchor, es'))"

definition anchor_run :: "('e, 'a) anchor_job \<Rightarrow> 'e \<Rightarrow> 'a \<Rightarrow> anchor result \<times> 'e \<times> 'a" where
  "anchor_run job es as =
     (case aj_chain_head job es of
        Inl err \<Rightarrow> (Inl (ErrWrap ''chain: anchor: chain head'' err), es, as)
      | Inr None \<Rightarrow> (Inl ErrEmptyChain, es, as)
      | Inr (Some head) \<Rightarrow>
          (case anchor_sign job head es as of
             (Inl err, as') \<Rightarrow> (Inl err, es, as')
           | (Inr anchor, as') \<Rightarrow>
               (case anchor_mark job head anchor es of (r, es') \<Rightarrow> (r, es', as'))))"

lemmas anchor_run_defs = anchor_run_def anchor_sign_def anchor_mark_def

text \<open>Both stores of the job at once.\<close>

locale anchoring = event_store inv log get list_events chain_head insert_chained set_legal_hold mark_anchored +
    anchor_store anchors insert_anchor list_anchors
  for inv :: "'e \<Rightarrow> bool" and log :: "'e \<Rightarrow> event list" and get list_events chain_head
    and insert_chained set_legal_hold mark_anchored
    and anchors :: "'a \<Rightarrow> anchor list" and insert_anchor list_anchors +
  fixes job :: "('e, 'a) anchor_job"
  assumes job_head: "aj_chain_head job = chain_head"
    and job_mark: "aj_mark_anchored job = mark_anchored"
    and job_insert: "aj_insert_anchor job = insert_anchor"
begin

lemma run_empty: "inv es \<Longrightarrow> log es = [] \<Longrightarrow> anchor_run job es as = (Inl ErrEmptyChain, es, as)"
  by (simp add: anchor_run_defs job_head head_log)

lemma run_sign_failure:
  "inv es \<Longrightarrow> log es \<noteq> [] \<Longrightarrow> length (ev_this_hash (last (log es))) = 32 \<Longrightarrow>
   aj_signer job (ev_this_hash (last (log es))) = Inl err \<Longrightarrow>
   anchor_run job es as = (Inl (ErrWrap ''chain: anchor: sign'' err), es, as)"
  by (simp add: anchor_run_defs job_head head_log Let_def)

text \<open>
  A successful run adds one anchor for the newest row and marks every row as anchored.
\<close>

lemma run_success:
  assumes inv: "inv es" and nonempty: "log es \<noteq> []"
    and root: "length (ev_this_hash (last (log es))) = 32"
    and sign: "aj_signer job (ev_this_hash (last (log es))) = Inr (sig, key_id)"
  shows "\<exists>a es' as'. anchor_run job es as = (Inr a, es', as') \<and> inv es' \<and>
    log es' = map (\<lambda>e. e\<lparr>ev_anchored := True\<rparr>) (log es) \<and>
    (\<exists>now. anchors as' = anchors as @ [stamp_anchor (an_id a) now a]) \<and>
    an_root_hash a = ev_this_hash (last (log es)) \<and>
    an_last_event_id a = ev_id (last (log es)) \<and> an_last_event_ts a = ev_ts (last (log es)) \<and>
    an_signature a = sig \<and> an_kms_key_id a = key_id"
proof -
  let ?h = "last (log es)"
  let ?a = "\<lparr>an_id = '''', an_anchored_at = zero_time, an_root_hash = ev_this_hash ?h,
    an_last_event_id = ev_id ?h, an_last_event_ts = ev_ts ?h, an_signature = sig,
    an_kms_key_id = key_id, an_notary_url = aj_notary_url job,
    an_event_count = (case aj_event_count job of Some f \<Rightarrow> f es | None \<Rightarrow> 1)\<rparr>"
  obtain i now as' where ins: "insert_anchor as ?a = (Inr i, as')"
    and anchors': "anchors as' = anchors as @ [stamp_anchor i now ?a]"
    using insert_anchor [of as ?a] by blast
  obtain n es' where mark: "mark_anchored es (ev_ts ?h) (ev_id ?h) = (Inr n, es')"
    and es': "inv es'" "log es' = map (anchor_event (ev_ts ?h) (ev_id ?h)) (log es)"
    using mark_log [OF inv] by blast
  have "\<forall>e \<in> set (log es). covered_by (ev_ts ?h) (ev_id ?h) e"
    using ascending_last_max [OF log_ascending [OF inv]] by (auto simp: covered_by_key ev_key_def)
  with es'(2) have "log es' = map (\<lambda>e. e\<lparr>ev_anchored := True\<rparr>) (log es)"
    by (simp add: anchor_event_def)
  moreover have "anchor_run job es as = (Inr (?a\<lparr>an_id := i\<rparr>), es', as')"
    using nonempty root sign ins mark
    by (simp add: anchor_run_defs job_head head_log [OF inv] Let_def job_insert job_mark)
  moreover have "anchors as' = anchors as @ [stamp_anchor (an_id (?a\<lparr>an_id := i\<rparr>)) now (?a\<lparr>an_id := i\<rparr>)]"
    using anchors' by (simp add: stamp_anchor_def)
  ultimately show ?thesis
    using es'(1)
    by (intro exI [of _ "?a\<lparr>an_id := i\<rparr>"] exI [of _ es'] exI [of _ as'] conjI exI [of _ now])
      simp_all
qed

end

text \<open>The job over the in-memory stores, as \<open>app.Build\<close> wires it (no event counter).\<close>

definition mem_anchor_job ::
  "string \<Rightarrow> time \<Rightarrow> (bytes \<Rightarrow> (bytes \<times> string) result) \<Rightarrow> string \<Rightarrow> (mem_store, anchor_store) anchor_job" where
  "mem_anchor_job fresh now signer notary_url =
     \<lparr>aj_chain_head = mem_chain_head, aj_mark_anchored = mem_mark_anchored,
      aj_insert_anchor = mem_insert_anchor fresh now, aj_signer = signer,
      aj_notary_url = notary_url, aj_event_count = None\<rparr>"

interpretation mem_anchoring: anchoring mem_inv mem_log mem_get mem_list mem_chain_head
  mem_insert_chained mem_set_legal_hold mem_mark_anchored "\<lambda>s. s" "mem_insert_anchor fresh now"
  mem_list_anchors "mem_anchor_job fresh now signer notary_url"
  for fresh :: string and now :: time and signer :: "bytes \<Rightarrow> (bytes \<times> string) result" and notary_url :: string
  by unfold_locales (simp_all add: mem_anchor_job_def)

section \<open>The integrity sweep\<close>

record report =
  rp_from :: time
  rp_to :: time
  rp_event_count :: int
  rp_status :: verify_status
  rp_first_broken :: string
  rp_position :: int
  rp_reason :: string
  rp_root_hash :: string
  rp_anchor_count :: int
  rp_checked_anchors :: int
  rp_anchor_mismatches :: int
  rp_signature :: string
  rp_signed_at :: time
  rp_key_id :: string

definition new_report :: "time \<Rightarrow> time \<Rightarrow> report" where
  "new_report from to =
     \<lparr>rp_from = from, rp_to = to, rp_event_count = 0, rp_status = StatusOK, rp_first_broken = '''',
      rp_position = 0, rp_reason = '''', rp_root_hash = '''', rp_anchor_count = 0, rp_checked_anchors = 0,
      rp_anchor_mismatches = 0, rp_signature = '''', rp_signed_at = zero_time, rp_key_id = ''''\<rparr>"

text \<open>The position of the first event with the given id, counted from 1; 0 if there is none.\<close>

fun position_from :: "int \<Rightarrow> string \<Rightarrow> event list \<Rightarrow> int" where
  "position_from i target [] = 0"
| "position_from i target (e # es) = (if ev_id e = target then i + 1 else position_from (i + 1) target es)"

definition report_chain :: "event list \<Rightarrow> report \<Rightarrow> report" where
  "report_chain all r =
     (let vres = fst (verify_chain all); root = snd (verify_chain all);
          r1 = r\<lparr>rp_event_count := int (length all)\<rparr>;
          r2 = (if vr_status vres \<noteq> StatusOK then
                  (let r' = r1\<lparr>rp_status := vr_status vres, rp_reason := vr_reason vres\<rparr> in
                   case vr_event vres of
                     None \<Rightarrow> r'
                   | Some e \<Rightarrow> r'\<lparr>rp_first_broken := ev_id e, rp_position := position_from 0 (ev_id e) all\<rparr>)
                else r1)
      in if length root = 32 then r2\<lparr>rp_root_hash := hash_hex root\<rparr> else r2)"

fun anchor_mismatches :: "(string \<Rightarrow> event result) \<Rightarrow> anchor list \<Rightarrow> int \<Rightarrow> int" where
  "anchor_mismatches get [] n = n"
| "anchor_mismatches get (a # as) n =
     (case get (an_last_event_id a) of
        Inl err \<Rightarrow> anchor_mismatches get as (n + 1)
      | Inr head \<Rightarrow>
          if length (an_root_hash a) = 32 \<and> \<not> bytes_equal (an_root_hash a) (ev_this_hash head)
          then anchor_mismatches get as (n + 1)
          else anchor_mismatches get as n)"

definition report_anchors ::
  "(string \<Rightarrow> event result) \<Rightarrow> (time \<Rightarrow> time \<Rightarrow> anchor list result) option \<Rightarrow> report \<Rightarrow> report" where
  "report_anchors get list_anchors r =
     (case list_anchors of
        None \<Rightarrow> r
      | Some f \<Rightarrow>
          (case f (rp_from r) (rp_to r) of
             Inl err \<Rightarrow> r
           | Inr anchs \<Rightarrow>
               r\<lparr>rp_anchor_count := int (length anchs), rp_checked_anchors := int (length anchs),
                 rp_anchor_mismatches := anchor_mismatches get anchs (rp_anchor_mismatches r)\<rparr>))"

definition report_sign ::
  "(bytes \<Rightarrow> (bytes \<times> string) result) option \<Rightarrow> time \<Rightarrow> bytes \<Rightarrow> report \<Rightarrow> report" where
  "report_sign signer now root r =
     (case signer of
        None \<Rightarrow> r
      | Some sign \<Rightarrow>
          if length root = 32 then
            (case sign root of
               Inl err \<Rightarrow> r
             | Inr (sig, key_id) \<Rightarrow>
                 r\<lparr>rp_signature := ''sig:'' @ hex_encode sig, rp_key_id := key_id, rp_signed_at := now\<rparr>)
          else r)"

definition sweep_filter :: "time \<Rightarrow> time \<Rightarrow> filter" where
  "sweep_filter from to = zero_filter\<lparr>f_from := from, f_to := to, f_limit := 1000\<rparr>"

definition sweep ::
  "(nat \<Rightarrow> bool) \<Rightarrow> (filter \<Rightarrow> list_result result) \<Rightarrow> (string \<Rightarrow> event result) \<Rightarrow>
   (time \<Rightarrow> time \<Rightarrow> anchor list result) option \<Rightarrow> time \<Rightarrow> time \<Rightarrow>
   (bytes \<Rightarrow> (bytes \<times> string) result) option \<Rightarrow> time \<Rightarrow> report result option" where
  "sweep cancelled list_events get list_anchors from to signer now =
     (case collect_pages cancelled list_events 0 (sweep_filter from to) [] of
        None \<Rightarrow> None
      | Some (Inl Cancelled) \<Rightarrow> Some (Inl ErrContext)
      | Some (Inl (ListFailed err)) \<Rightarrow> Some (Inl (ErrWrap ''chain: sweep: list'' err))
      | Some (Inr all) \<Rightarrow>
          Some (Inr (report_sign signer now (snd (verify_chain all))
            (report_anchors get list_anchors (report_chain all (new_report from to))))))"

subsection \<open>What a sweep reports\<close>

lemma position_from_split:
  "ev_id e \<notin> ev_id ` set pre \<Longrightarrow> position_from i (ev_id e) (pre @ e # post) = i + int (length pre) + 1"
  by (induction pre arbitrary: i) auto

definition anchor_mismatch :: "(string \<Rightarrow> event result) \<Rightarrow> anchor \<Rightarrow> bool" where
  "anchor_mismatch get a \<longleftrightarrow>
     (case get (an_last_event_id a) of
        Inl err \<Rightarrow> True
      | Inr head \<Rightarrow> length (an_root_hash a) = 32 \<and> an_root_hash a \<noteq> ev_this_hash head)"

lemma anchor_mismatches_count:
  "anchor_mismatches get anchs n = n + int (length (List.filter (anchor_mismatch get) anchs))"
  by (induction anchs arbitrary: n) (auto simp: anchor_mismatch_def split: sum.splits)

lemma report_frames [frame_simps]:
  "rp_event_count (report_sign sg now root r) = rp_event_count r"
  "rp_status (report_sign sg now root r) = rp_status r"
  "rp_first_broken (report_sign sg now root r) = rp_first_broken r"
  "rp_position (report_sign sg now root r) = rp_position r"
  "rp_root_hash (report_sign sg now root r) = rp_root_hash r"
  "rp_anchor_count (report_sign sg now root r) = rp_anchor_count r"
  "rp_anchor_mismatches (report_sign sg now root r) = rp_anchor_mismatches r"
  "rp_event_count (report_anchors get la r) = rp_event_count r"
  "rp_status (report_anchors get la r) = rp_status r"
  "rp_first_broken (report_anchors get la r) = rp_first_broken r"
  "rp_position (report_anchors get la r) = rp_position r"
  "rp_root_hash (report_anchors get la r) = rp_root_hash r"
  by (auto simp: report_sign_def report_anchors_def split: option.splits sum.splits prod.splits)

lemma report_chain_fields:
  "rp_event_count (report_chain all r) = int (length all)"
  "rp_status r = StatusOK \<Longrightarrow> rp_status (report_chain all r) = vr_status (fst (verify_chain all))"
  "rp_from (report_chain all r) = rp_from r" "rp_to (report_chain all r) = rp_to r"
  "rp_anchor_mismatches (report_chain all r) = rp_anchor_mismatches r"
  by (auto simp: report_chain_def Let_def split: option.splits)

lemma report_chain_ok:
  "intact all \<Longrightarrow> rp_root_hash (report_chain all r) = hash_hex (snd (verify_chain all))"
  using verify_chain_ok [of all] intact_root_length [of all] by (simp add: report_chain_def Let_def)

lemma report_chain_broken:
  assumes "\<not> intact all" and "distinct (map ev_id all)"
  shows "\<exists>pre e post. all = pre @ e # post \<and> intact pre \<and> \<not> intact (pre @ [e]) \<and>
    rp_first_broken (report_chain all r) = ev_id e \<and> rp_position (report_chain all r) = int (length pre) + 1"
proof -
  have bad: "vr_status (fst (verify_chain all)) \<noteq> StatusOK"
    using assms(1) verify_chain_ok by simp
  then obtain pre e post where split: "all = pre @ e # post" "intact pre"
    and e: "vr_event (fst (verify_chain all)) = Some e"
    and why: "\<not> hash_ok e \<or> pre \<noteq> [] \<and> ev_prev_hash e \<noteq> ev_this_hash (last pre)"
    using verify_chain_first_failure [OF bad] by blast
  have "ev_id e \<notin> ev_id ` set pre"
    using assms(2) split(1) by auto
  then have "position_from 0 (ev_id e) all = int (length pre) + 1"
    using position_from_split [of e pre 0 post] split(1) by simp
  with bad e have "rp_first_broken (report_chain all r) = ev_id e"
    "rp_position (report_chain all r) = int (length pre) + 1"
    by (simp_all add: report_chain_def Let_def)
  with split why show ?thesis
    by (auto simp: intact_append)
qed

context event_pager
begin

lemma sweep_returns:
  fixes lo hi :: time
  assumes "inv s" and "\<forall>e \<in> set (log s). \<not> is_zero (ev_ts e)" and "\<And>k. \<not> cancelled k"
    and "admits (sweep_filter lo hi)"
  defines "rows \<equiv> List.filter (matches_fields (sweep_filter lo hi)) (log s)"
  shows "sweep cancelled (list_events s) (get s) list_anchors lo hi signer now =
    Some (Inr (report_sign signer now (snd (verify_chain rows))
      (report_anchors (get s) list_anchors (report_chain rows (new_report lo hi)))))"
proof -
  have "passes_filter (sweep_filter lo hi) = matches_fields (sweep_filter lo hi)"
    by (simp add: fun_eq_iff passes_filter_def sweep_filter_def zero_filter_def)
  then have "collect_pages cancelled (list_events s) 0 (sweep_filter lo hi) [] = Some (Inr rows)"
    using pages_complete [OF assms(1-4), where k = 0 and acc = "[]"] by (simp add: rows_def)
  then show ?thesis
    by (simp add: sweep_def)
qed

lemma sweep_verdict:
  fixes lo hi :: time
  assumes "inv s" and "\<forall>e \<in> set (log s). \<not> is_zero (ev_ts e)" and "\<And>k. \<not> cancelled k"
    and "admits (sweep_filter lo hi)"
  defines "rows \<equiv> List.filter (matches_fields (sweep_filter lo hi)) (log s)"
  shows "\<exists>r. sweep cancelled (list_events s) (get s) list_anchors lo hi signer now = Some (Inr r) \<and>
    rp_event_count r = int (length rows) \<and> (rp_status r = StatusOK \<longleftrightarrow> intact rows) \<and>
    (intact rows \<longrightarrow> rp_root_hash r = hash_hex (snd (verify_chain rows))) \<and>
    (\<not> intact rows \<longrightarrow> (\<exists>pre e post. rows = pre @ e # post \<and> intact pre \<and> \<not> intact (pre @ [e]) \<and>
       rp_first_broken r = ev_id e \<and> rp_position r = int (length pre) + 1))"
proof -
  have "distinct (map ev_id rows)"
    using log_ids [OF assms(1)] by (simp add: rows_def distinct_map_filter)
  moreover have "rp_status (new_report lo hi) = StatusOK"
    by (simp add: new_report_def)
  ultimately show ?thesis
    using sweep_returns [OF assms(1-4)]
      report_chain_broken [of rows "new_report lo hi"]
    by (auto simp: frame_simps report_chain_fields report_chain_ok verify_chain_ok simp flip: rows_def)
qed

end

end
