(* ===== verification/Systems.thy ===== *)
theory Systems
  imports Prelude
begin

text \<open>
  Interfaces for the parts of the program that run: a system of states and steps with an invariant, a
  system whose steps another one simulates, and a system that runs out of steps of its own. The
  components interpret them on their step relations.
\<close>

section \<open>Invariants of runs\<close>

locale step_system =
  fixes start :: "'s \<Rightarrow> bool"
    and step :: "'s \<Rightarrow> 's \<Rightarrow> bool"
    and ok :: "'s \<Rightarrow> bool"
  assumes start_ok: "start s \<Longrightarrow> ok s"
    and step_ok: "step s s' \<Longrightarrow> ok s \<Longrightarrow> ok s'"
begin

lemma run_ok: "step\<^sup>*\<^sup>* s s' \<Longrightarrow> ok s \<Longrightarrow> ok s'"
  by (induction rule: rtranclp_induct) (auto intro: step_ok)

lemma reachable_ok: "step\<^sup>*\<^sup>* s s' \<Longrightarrow> start s \<Longrightarrow> ok s'"
  by (blast intro: run_ok start_ok)

text \<open>A relation that every step from a good state respects holds along every run.\<close>

lemma run_related:
  assumes "step\<^sup>*\<^sup>* s s'" and "ok s"
    and "\<And>t t'. step t t' \<Longrightarrow> ok t \<Longrightarrow> R t t'" and "\<And>t. R t t" and "\<And>t u v. R t u \<Longrightarrow> R u v \<Longrightarrow> R t v"
  shows "R s s'"
  using assms(1)
proof (induction rule: rtranclp_induct)
  case (step t u)
  with run_ok [OF step.hyps(1) assms(2)] assms(3,5) show ?case by blast
qed (rule assms(4))

end

section \<open>Simulation\<close>

locale simulation = step_system start step ok
  for start :: "'c \<Rightarrow> bool" and step :: "'c \<Rightarrow> 'c \<Rightarrow> bool" and ok :: "'c \<Rightarrow> bool" +
  fixes abs_start :: "'a \<Rightarrow> bool"
    and abs_step :: "'a \<Rightarrow> 'a \<Rightarrow> bool"
    and abs :: "'c \<Rightarrow> 'a"
  assumes start_abs: "start c \<Longrightarrow> abs_start (abs c)"
    and step_abs: "step c c' \<Longrightarrow> ok c \<Longrightarrow> abs_step\<^sup>*\<^sup>* (abs c) (abs c')"
begin

lemma run_abs: "step\<^sup>*\<^sup>* c c' \<Longrightarrow> ok c \<Longrightarrow> abs_step\<^sup>*\<^sup>* (abs c) (abs c')"
  by (rule run_related) (auto intro: step_abs)

lemma reachable_abs: "step\<^sup>*\<^sup>* c c' \<Longrightarrow> start c \<Longrightarrow> abs_start (abs c) \<and> abs_step\<^sup>*\<^sup>* (abs c) (abs c')"
  by (blast intro: run_abs start_ok start_abs)

end

section \<open>Running out of steps\<close>

text \<open>
  In a state that satisfies \<open>ok\<close>, every step uses up some work and, until the system is finished, a step
  is possible. Then no run is longer than the work at its start, and a run that cannot go on is finished.
\<close>

locale winding_down = step_system start step ok
  for start :: "'s \<Rightarrow> bool" and step :: "'s \<Rightarrow> 's \<Rightarrow> bool" and ok :: "'s \<Rightarrow> bool" +
  fixes work :: "'s \<Rightarrow> nat"
    and finished :: "'s \<Rightarrow> bool"
  assumes uses_work: "step s s' \<Longrightarrow> ok s \<Longrightarrow> work s' < work s"
    and progress: "ok s \<Longrightarrow> \<not> finished s \<Longrightarrow> \<exists>s'. step s s'"
begin

lemma run_bounded: "(step ^^ n) s s' \<Longrightarrow> ok s \<Longrightarrow> n + work s' \<le> work s"
proof (induction n arbitrary: s')
  case (Suc n)
  then obtain t where t: "(step ^^ n) s t" "step t s'"
    by (auto elim: relpowp_Suc_E)
  moreover have "ok t"
    using t(1) Suc.prems(2) by (blast intro: run_ok relpowp_imp_rtranclp)
  ultimately show ?case
    using Suc.IH [of t] uses_work [of t s'] Suc.prems(2) by fastforce
qed simp

lemma stuck_finished: "step\<^sup>*\<^sup>* s s' \<Longrightarrow> ok s \<Longrightarrow> \<nexists>t. step s' t \<Longrightarrow> finished s'"
  using progress run_ok by blast

lemma finishes: "ok s \<Longrightarrow> \<exists>s'. step\<^sup>*\<^sup>* s s' \<and> finished s'"
proof (induction "work s" arbitrary: s rule: less_induct)
  case less
  show ?case
  proof (cases "finished s")
    case False
    with progress less.prems obtain t where t: "step s t" by blast
    with less uses_work step_ok obtain s' where "step\<^sup>*\<^sup>* t s'" "finished s'" by blast
    with t show ?thesis by (blast intro: converse_rtranclp_into_rtranclp)
  qed blast
qed

end

end
