(* ===== verification/Runs.thy ===== *)
theory Runs
  imports Tamper Anchor Systems "HOL-Library.Sublist"
begin

text \<open>
  The event store over time. \<open>mem_step\<close> is one call of any mutating operation of the in-memory
  \<open>EventStore\<close>; a run is a sequence of such calls from any clients, the mutex making each call atomic.
  The store is append-only along every run. \<open>feed_step\<close> restricts the inserts to what the ingest
  pipeline sends when events arrive in chronological order (re-deliveries included); along such a run
  every sweep, over any window, reports an intact chain.
\<close>

section \<open>Runs of the store\<close>

inductive mem_step :: "mem_store \<Rightarrow> mem_store \<Rightarrow> bool" where
  step_chained: "mem_insert_chained s e hash_fn = (r, e', s') \<Longrightarrow> mem_step s s'"
| step_insert: "mem_insert s e = (r, s') \<Longrightarrow> mem_step s s'"
| step_hold: "mem_set_legal_hold s i hold = (r, s') \<Longrightarrow> mem_step s s'"
| step_mark: "mem_mark_anchored s t i = (r, s') \<Longrightarrow> mem_step s s'"

inductive_cases mem_stepE: "mem_step s s'"

text \<open>
  One log extends another: the old rows are still there, in the old order, with all immutable columns,
  and no \<open>anchored\<close> flag was taken back.
\<close>

definition extends :: "event list \<Rightarrow> event list \<Rightarrow> bool" where
  "extends l l' \<longleftrightarrow> subseq (map immutable_part l) (map immutable_part l') \<and>
     (\<forall>e \<in> set l. \<exists>e' \<in> set l'. immutable_part e' = immutable_part e \<and> (ev_anchored e \<longrightarrow> ev_anchored e'))"

lemma extends_refl [simp, intro]: "extends l l"
  by (auto simp: extends_def)

lemma extends_trans: "extends l l' \<Longrightarrow> extends l' l'' \<Longrightarrow> extends l l''"
  unfolding extends_def by (metis (no_types, lifting) subseq_order.order_trans)

lemma extends_map:
  "(\<And>e. immutable_part (g e) = immutable_part e) \<Longrightarrow> (\<And>e. ev_anchored e \<Longrightarrow> ev_anchored (g e)) \<Longrightarrow>
   extends l (map g l)"
  by (auto simp: extends_def o_def)

lemma extends_hold: "extends l (map (set_hold i hold) l)"
  by (rule extends_map) (simp, simp add: set_hold_def)

lemma extends_mark: "extends l (map (anchor_event t i) l)"
  by (rule extends_map) (simp, simp add: anchor_event_def)

lemma extends_log_insert:
  assumes "ascending ev_key l" and "ev_key e \<notin> ev_key ` set l"
  shows "extends l (log_insert e l)"
proof -
  let ?pre = "List.filter (\<lambda>x. ev_key x < ev_key e) l" and ?post = "List.filter (\<lambda>x. ev_key e < ev_key x) l"
  have "map immutable_part l = map immutable_part ?pre @ map immutable_part ?post"
    using ascending_partition [OF assms] by (metis map_append)
  then have "subseq (map immutable_part l) (map immutable_part (log_insert e l))"
    by (simp add: log_insert_def) (intro list_emb_append_mono, auto)
  moreover have "set l \<subseteq> set (log_insert e l)"
    using set_log_insert [OF assms(2)] by auto
  ultimately show ?thesis
    by (auto simp: extends_def)
qed

lemma fresh_key: "ev_id e \<notin> ev_id ` set l \<Longrightarrow> ev_key e \<notin> ev_key ` set l"
  by (auto simp: ev_key_def image_iff)

context event_store
begin

lemma insert_keeps:
  assumes "inv s" and "insert_chained s e hash_fn = (r, e', s')"
  shows "inv s' \<and> extends (log s) (log s')"
proof (cases "ev_id e \<in> ev_id ` set (log s)")
  case True
  with assms show ?thesis by (simp add: insert_duplicate)
next
  case False
  then show ?thesis
    using insert_fresh [OF assms(1) False, of hash_fn] assms(2)
      extends_log_insert [OF log_ascending [OF assms(1)], of "link_event hash_fn (chain_tip (log s)) e"]
      fresh_key [OF False]
    by auto
qed

lemma hold_keeps:
  assumes "inv s" and "set_legal_hold s i hold = (r, s')"
  shows "inv s' \<and> extends (log s) (log s')"
proof (cases "i \<in> ev_id ` set (log s)")
  case True
  then show ?thesis
    using hold_present [OF assms(1) True, of hold] assms(2) by (auto intro: extends_hold)
next
  case False
  with assms show ?thesis by (simp add: hold_missing)
qed

lemma mark_keeps:
  assumes "inv s" and "mark_anchored s t i = (r, s')"
  shows "inv s' \<and> extends (log s) (log s')"
  using mark_log [OF assms(1), of t i] assms(2) by (auto intro: extends_mark)

end

lemma mem_insert_keeps:
  assumes "mem_inv s" and "mem_insert s e = (r, s')"
  shows "mem_inv s' \<and> extends (mem_log s) (mem_log s')"
proof (cases "ms_events s (ev_id e)")
  case None
  then have "ev_id e \<notin> ev_id ` set (mem_log s)"
    using mem_index_dom [OF assms(1)] by blast
  with None assms show ?thesis
    using extends_log_insert [OF mem.log_ascending [OF assms(1)]] fresh_key
    by (auto simp: mem_insert_def mem_append_inv mem_append_log)
next
  case (Some p)
  with assms show ?thesis by (simp add: mem_insert_def)
qed

lemma mem_step_keeps:
  assumes "mem_inv s" and "mem_step s s'"
  shows "mem_inv s' \<and> extends (mem_log s) (mem_log s')"
  using assms(2)
proof (rule mem_stepE)
qed (fact mem.insert_keeps [OF assms(1)] mem_insert_keeps [OF assms(1)]
  mem.hold_keeps [OF assms(1)] mem.mark_keeps [OF assms(1)])+

lemma mem_run_keeps:
  assumes "mem_step\<^sup>*\<^sup>* s s'" and "mem_inv s"
  shows "mem_inv s' \<and> extends (mem_log s) (mem_log s')"
  using assms by induction (auto dest: mem_step_keeps intro: extends_trans)

section \<open>Runs fed in chronological order\<close>

inductive feed_step :: "mem_store \<Rightarrow> mem_store \<Rightarrow> bool" where
  feed_new: "mem_insert_chained s e (chain_hash_fn e) = (r, e', s') \<Longrightarrow>
     \<forall>x \<in> set (mem_log s). ev_key x < ev_key e \<Longrightarrow> \<not> is_zero (ev_ts e) \<Longrightarrow> feed_step s s'"
| feed_again: "mem_insert_chained s e (chain_hash_fn e) = (r, e', s') \<Longrightarrow>
     ev_id e \<in> ev_id ` set (mem_log s) \<Longrightarrow> feed_step s s'"
| feed_hold: "mem_set_legal_hold s i hold = (r, s') \<Longrightarrow> feed_step s s'"
| feed_mark: "mem_mark_anchored s t i = (r, s') \<Longrightarrow> feed_step s s'"

inductive_cases feed_stepE: "feed_step s s'"

definition healthy :: "mem_store \<Rightarrow> bool" where
  "healthy s \<longleftrightarrow> mem_inv s \<and> intact (mem_log s) \<and> (\<forall>e \<in> set (mem_log s). \<not> is_zero (ev_ts e))"

lemma healthy_new: "healthy new_event_store"
  by (simp add: healthy_def)

lemma feed_step_keeps:
  assumes "healthy s" and "feed_step s s'"
  shows "healthy s'"
  using assms(2)
proof (rule feed_stepE)
  have inv: "mem_inv s" and whole: "intact (mem_log s)"
    using assms(1) by (simp_all add: healthy_def)
  show "healthy s'" if "mem_insert_chained s e (chain_hash_fn e) = (r, e', s')"
    and newest: "\<forall>x \<in> set (mem_log s). ev_key x < ev_key e" and ts: "\<not> is_zero (ev_ts e)" for e r e'
  proof -
    let ?row = "link_event (chain_hash_fn e) (chain_tip (mem_log s)) e"
    have "ev_key e \<notin> ev_key ` set (mem_log s)"
      using newest by auto
    show ?thesis
    proof (cases "ev_id e \<in> ev_id ` set (mem_log s)")
      case True
      with that(1) assms(1) inv show ?thesis
        by (simp add: mem.insert_duplicate)
    next
      case False
      have "log_insert ?row (mem_log s) = mem_log s @ [?row]"
        using newest by (intro log_insert_last) simp
      with mem.insert_fresh [OF inv False, of "chain_hash_fn e"] that(1) ts assms(1)
        intact_append_link [OF whole, of e]
      show ?thesis
        by (auto simp: healthy_def)
    qed
  qed
  show "healthy s'" if "mem_insert_chained s e (chain_hash_fn e) = (r, e', s')"
    and "ev_id e \<in> ev_id ` set (mem_log s)" for e r e'
    using that assms(1) inv by (simp add: mem.insert_duplicate)
  show "healthy s'" if "mem_set_legal_hold s i hold = (r, s')" for i hold r
  proof (cases "i \<in> ev_id ` set (mem_log s)")
    case True
    with that mem.hold_present [OF inv True, of hold] assms(1) show ?thesis
      by (auto simp: healthy_def intact_set_hold)
  next
    case False
    with that assms(1) inv show ?thesis by (simp add: mem.hold_missing)
  qed
  show "healthy s'" if "mem_mark_anchored s t i = (r, s')" for t i r
    using that mem.mark_log [OF inv, of t i] assms(1) by (auto simp: healthy_def intact_anchor_event)
qed

interpretation feeding: step_system healthy feed_step healthy
  by unfold_locales (auto intro: feed_step_keeps)

lemma feed_run_keeps: "feed_step\<^sup>*\<^sup>* s s' \<Longrightarrow> healthy s \<Longrightarrow> healthy s'"
  by (rule feeding.run_ok)

text \<open>The rows of a time window are a contiguous part of the log.\<close>

lemma filter_takeWhile:
  assumes "sorted_wrt R xs" and "\<And>x y. R x y \<Longrightarrow> P y \<Longrightarrow> P x"
  shows "List.filter P xs = takeWhile P xs"
  using assms(1)
proof (induction xs)
  case (Cons x xs)
  show ?case
  proof (cases "P x")
    case False
    then have "\<forall>y \<in> set xs. \<not> P y"
      using Cons.prems assms(2) by auto
    with False show ?thesis by simp
  qed (use Cons in auto)
qed simp

lemma filter_dropWhile:
  assumes "sorted_wrt R xs" and "\<And>x y. R x y \<Longrightarrow> P x \<Longrightarrow> P y"
  shows "List.filter P xs = dropWhile (\<lambda>x. \<not> P x) xs"
  using assms(1)
proof (induction xs)
  case (Cons x xs)
  show ?case
  proof (cases "P x")
    case True
    then have "\<forall>y \<in> set xs. P y"
      using Cons.prems assms(2) by auto
    with True show ?thesis by simp
  qed (use Cons in auto)
qed simp

lemma window_contiguous:
  fixes lo hi :: time
  assumes "ascending ev_key l"
  shows "\<exists>m n. List.filter (matches_fields (sweep_filter lo hi)) l = take n (drop m l)"
proof -
  let ?lo = "\<lambda>e. is_zero lo \<or> lo \<le> ev_ts e" and ?hi = "\<lambda>e. is_zero hi \<or> ev_ts e < hi"
  have match: "matches_fields (sweep_filter lo hi) e \<longleftrightarrow> ?lo e \<and> ?hi e" for e
    by (auto simp: matches_fields_def sweep_filter_def zero_filter_def not_less)
  have "List.filter ?lo l = dropWhile (\<lambda>e. \<not> ?lo e) l"
    by (rule filter_dropWhile [OF assms]) (auto simp: ev_key_def less_prod_def)
  then have tail: "List.filter ?lo l = drop (length (takeWhile (\<lambda>e. \<not> ?lo e) l)) l"
    by (simp add: dropWhile_eq_drop)
  have "ascending ev_key (List.filter ?lo l)"
    by (rule ascending_filter [OF assms])
  then have "List.filter ?hi (List.filter ?lo l) = takeWhile ?hi (List.filter ?lo l)"
    by (rule filter_takeWhile) (auto simp: ev_key_def less_prod_def)
  also have "\<dots> = take (length (takeWhile ?hi (List.filter ?lo l))) (List.filter ?lo l)"
    by (rule takeWhile_eq_take)
  finally have parts: "List.filter ?hi (List.filter ?lo l) =
      take (length (takeWhile ?hi (List.filter ?lo l))) (drop (length (takeWhile (\<lambda>e. \<not> ?lo e) l)) l)"
    by (simp only: tail)
  have "List.filter (matches_fields (sweep_filter lo hi)) l = List.filter ?hi (List.filter ?lo l)"
    by (simp only: filter_filter) (rule filter_cong [OF refl match])
  from trans [OF this parts] show ?thesis
    by (intro exI)
qed

lemma healthy_sweep:
  assumes "healthy s" and live: "\<And>k. \<not> cancelled k"
  shows "\<exists>r. sweep cancelled (mem_list s) (mem_get s) list_anchors lo hi signer now = Some (Inr r) \<and>
    rp_status r = StatusOK"
proof -
  have inv: "mem_inv s" and whole: "intact (mem_log s)" and ts: "\<forall>e \<in> set (mem_log s). \<not> is_zero (ev_ts e)"
    using assms(1) by (simp_all add: healthy_def)
  have "intact (List.filter (matches_fields (sweep_filter lo hi)) (mem_log s))"
    using window_contiguous [OF mem.log_ascending [OF inv], of lo hi] intact_window [OF whole] by force
  with mem.sweep_verdict [OF inv ts, of cancelled list_anchors lo hi signer now] live show ?thesis
    by blast
qed


text \<open>A row once stored can be read back in every later state.\<close>

lemma stored_row_stays:
  assumes inv: "mem_inv s" and ins: "mem_insert_chained s e hash_fn = (Inr True, row, s1)"
    and run: "mem_step\<^sup>*\<^sup>* s1 s2"
  shows "\<exists>e'. mem_get s2 (ev_id e) = Inr e' \<and> immutable_part e' = immutable_part row"
proof -
  have fresh: "ev_id e \<notin> ev_id ` set (mem_log s)"
    using mem.insert_duplicate [OF inv] ins by fastforce
  then have row: "row = link_event hash_fn (chain_tip (mem_log s)) e" and s1: "mem_inv s1"
    and "mem_log s1 = log_insert row (mem_log s)"
    using mem.insert_fresh [OF inv fresh, of hash_fn] ins by auto
  then have "row \<in> set (mem_log s1)"
    by (simp add: log_insert_def)
  moreover have s2: "mem_inv s2" "extends (mem_log s1) (mem_log s2)"
    using mem_run_keeps [OF run s1] by simp_all
  ultimately obtain e' where e': "e' \<in> set (mem_log s2)" "immutable_part e' = immutable_part row"
    by (auto simp: extends_def)
  have "ev_id e' = ev_id (immutable_part e')" "ev_id (immutable_part row) = ev_id row"
    by (simp_all add: immutable_part_def)
  then have "ev_id e' = ev_id e"
    using e'(2) row by simp
  then show ?thesis
    using mem.get_member [OF s2(1) e'(1)] e'(2) by auto
qed

section \<open>Samples\<close>

text \<open>A store that was fed two events, the second at the given time from 1 on.\<close>

definition two_rows :: "int \<Rightarrow> mem_store" where
  "two_rows t =
     (let e1 = sample_event ''a'' 1; e2 = sample_event ''b'' t;
          s1 = snd (snd (mem_insert_chained new_event_store e1 (chain_hash_fn e1)))
      in snd (snd (mem_insert_chained s1 e2 (chain_hash_fn e2))))"

definition sample_store :: mem_store where
  "sample_store = two_rows 2"

definition row_pair :: "int \<Rightarrow> event list" where
  "row_pair t = (let a = sample_link zero_hash ''a'' 1 in [a, sample_link (ev_this_hash a) ''b'' t])"

lemma two_rows_log:
  assumes "1 \<le> t"
  shows "mem_inv (two_rows t)" and "mem_log (two_rows t) = row_pair t"
proof -
  let ?e1 = "sample_event ''a'' 1" and ?e2 = "sample_event ''b'' t"
  let ?s1 = "snd (snd (mem_insert_chained new_event_store ?e1 (chain_hash_fn ?e1)))"
  have s1: "mem_inv ?s1" "mem_log ?s1 = [sample_link zero_hash ''a'' 1]"
    using mem.insert_fresh [of new_event_store ?e1 "chain_hash_fn ?e1"]
    by (auto simp: log_insert_def sample_link_def chain_tip_zero)
  have fresh: "ev_id ?e2 \<notin> ev_id ` set (mem_log ?s1)"
    by (simp add: s1)
  obtain s2 where s2: "mem_insert_chained ?s1 ?e2 (chain_hash_fn ?e2) =
      (Inr True, link_event (chain_hash_fn ?e2) (chain_tip (mem_log ?s1)) ?e2, s2)" and inv2: "mem_inv s2"
    and log2: "mem_log s2 = log_insert (link_event (chain_hash_fn ?e2) (chain_tip (mem_log ?s1)) ?e2) (mem_log ?s1)"
    using mem.insert_fresh [OF s1(1) fresh, of "chain_hash_fn ?e2"] by blast
  have "two_rows t = s2"
    unfolding two_rows_def Let_def by (simp only: s2 snd_conv)
  moreover have "(Time 1, ''a'') < (Time t, ''b'')"
    using assms by (auto simp: less_prod_def less_time_def)
  moreover have "\<not> (Time t, ''b'') < (Time 1, ''a'')"
    using calculation(2) by (rule less_not_sym)
  ultimately show "mem_inv (two_rows t)" "mem_log (two_rows t) = row_pair t"
    using inv2 log2 by (simp_all add: s1 row_pair_def Let_def)
      (simp add: log_insert_def sample_link_def chain_tip_def)
qed

lemma row_pair_facts:
  "intact (row_pair t)" "t < 2 ^ 63 \<Longrightarrow> - (2 ^ 63) \<le> t \<Longrightarrow> \<forall>e \<in> set (row_pair t). encodable e"
  by (auto simp: row_pair_def Let_def intact_Cons sample_link_encodable length_sample_hash)

lemma sample_store_log: "mem_inv sample_store" "mem_log sample_store = sample_chain"
  using two_rows_log [of 2] by (simp_all add: sample_store_def row_pair_def sample_chain_def Let_def)

lemma sample_store_feed: "feed_step\<^sup>*\<^sup>* new_event_store sample_store"
  unfolding sample_store_def two_rows_def Let_def
proof (rule rtranclp.rtrancl_into_rtrancl [OF r_into_rtranclp])
  let ?e1 = "sample_event ''a'' 1" and ?e2 = "sample_event ''b'' 2"
  let ?s1 = "snd (snd (mem_insert_chained new_event_store ?e1 (chain_hash_fn ?e1)))"
  show "feed_step new_event_store ?s1"
    by (rule feed_new [of _ ?e1 "fst (mem_insert_chained new_event_store ?e1 (chain_hash_fn ?e1))"
        "fst (snd (mem_insert_chained new_event_store ?e1 (chain_hash_fn ?e1)))"])
      (simp_all add: is_zero_def zero_time_def)
  have "mem_log ?s1 = [sample_link zero_hash ''a'' 1]"
    using mem.insert_fresh [of new_event_store ?e1 "chain_hash_fn ?e1"]
    by (auto simp: log_insert_def sample_link_def chain_tip_zero)
  then show "feed_step ?s1 (snd (snd (mem_insert_chained ?s1 ?e2 (chain_hash_fn ?e2))))"
    by (intro feed_new [of ?s1 ?e2 "fst (mem_insert_chained ?s1 ?e2 (chain_hash_fn ?e2))"
        "fst (snd (mem_insert_chained ?s1 ?e2 (chain_hash_fn ?e2)))"])
      (simp_all add: is_zero_def zero_time_def)
qed

lemma sample_store_healthy: "healthy sample_store"
  by (rule feed_run_keeps [OF sample_store_feed healthy_new])


text \<open>The anchor the job makes for the newest row \<open>h\<close>, over the in-memory stores.\<close>

definition head_anchor :: "string \<Rightarrow> event \<Rightarrow> bytes \<Rightarrow> string \<Rightarrow> string \<Rightarrow> anchor" where
  "head_anchor fresh h sig key_id notary_url =
     \<lparr>an_id = fresh, an_anchored_at = zero_time, an_root_hash = ev_this_hash h, an_last_event_id = ev_id h,
      an_last_event_ts = ev_ts h, an_signature = sig, an_kms_key_id = key_id, an_notary_url = notary_url,
      an_event_count = 1\<rparr>"

lemma head_anchor_run:
  fixes fresh notary_url :: string
  assumes inv: "mem_inv s" and nonempty: "mem_log s \<noteq> []"
    and root: "length (ev_this_hash (last (mem_log s))) = 32"
    and sign: "signer (ev_this_hash (last (mem_log s))) = Inr (sig, key_id)"
  defines "a \<equiv> head_anchor fresh (last (mem_log s)) sig key_id notary_url"
  shows "\<exists>s'. anchor_run (mem_anchor_job fresh now signer notary_url) s as = (Inr a, s', as @ [stamp_anchor fresh now a]) \<and>
    mem_log s' = map (\<lambda>e. e\<lparr>ev_anchored := True\<rparr>) (mem_log s)"
proof -
  let ?job = "mem_anchor_job fresh now signer notary_url" and ?h = "last (mem_log s)"
  obtain n s' where "mem_mark_anchored s (ev_ts ?h) (ev_id ?h) = (Inr n, s')"
    using mem.mark_log [OF inv] by blast
  then have run: "anchor_run ?job s as = (Inr a, s', as @ [stamp_anchor fresh now a])"
    using nonempty root sign
    by (simp add: anchor_run_defs mem_anchor_job_def mem.head_log [OF inv] Let_def mem_insert_anchor_def stamp_anchor_def
        a_def head_anchor_def)
  have "aj_signer ?job (ev_this_hash ?h) = Inr (sig, key_id)"
    using sign by (simp add: mem_anchor_job_def)
  from mem_anchoring.run_success [OF inv nonempty root this, of as] run show ?thesis
    by auto
qed

section \<open>Properties\<close>

text \<open>
  The event store is append-only along every run of its operations, whoever calls them:
  an event that \<open>InsertChained\<close> accepted can be read with \<open>Get\<close> in every later state, with all its
  columns as they were stored; only \<open>anchored\<close> and \<open>legal_hold\<close> may differ.
\<close>

theorem accepted_event_stays:
  assumes "mem_step\<^sup>*\<^sup>* new_event_store s"
    and "mem_insert_chained s e hash_fn = (Inr True, row, s1)" and "mem_step\<^sup>*\<^sup>* s1 s2"
  shows "\<exists>e'. mem_get s2 (ev_id e) = Inr e' \<and> immutable_part e' = immutable_part row"
  using stored_row_stays [OF _ assms(2,3)] mem_run_keeps [OF assms(1)] by simp

theorem accepted_event_stays_witness:
  "\<exists>e'. mem_get (snd (snd (mem_insert_chained new_event_store (sample_event ''a'' 1) (\<lambda>p. p)))) ''a'' = Inr e' \<and>
     immutable_part e' = immutable_part (link_event (\<lambda>p. p) (replicate 32 0) (sample_event ''a'' 1))"
proof -
  let ?r = "mem_insert_chained new_event_store (sample_event ''a'' 1) (\<lambda>p. p)"
  have "?r = (Inr True, link_event (\<lambda>p. p) (replicate 32 0) (sample_event ''a'' 1), snd (snd ?r))"
    by (simp add: mem_insert_chained_def new_event_store_def link_event_def Let_def)
  from accepted_event_stays [OF rtranclp.rtrancl_refl this rtranclp.rtrancl_refl] show ?thesis
    by simp
qed

text \<open>
  The order of the log is append-only too: along every run the rows present before stay
  in the same relative order, none is dropped or duplicated, and no \<open>anchored\<close> flag is cleared; new rows
  are only put in between or after them. The index, the heap and the order stay consistent.
\<close>

theorem store_only_grows:
  assumes "mem_inv s" and "mem_step\<^sup>*\<^sup>* s s'"
  shows "mem_inv s' \<and> subseq (map immutable_part (mem_log s)) (map immutable_part (mem_log s')) \<and>
    (\<forall>e \<in> set (mem_log s). \<exists>e' \<in> set (mem_log s').
       immutable_part e' = immutable_part e \<and> (ev_anchored e \<longrightarrow> ev_anchored e'))"
  using mem_run_keeps [OF assms(2,1)] by (simp add: extends_def)

theorem store_only_grows_witness:
  "let s' = snd (mem_mark_anchored sample_store (Time 1) ''a'') in
   mem_inv s' \<and> subseq (map immutable_part (mem_log sample_store)) (map immutable_part (mem_log s')) \<and>
    (\<forall>e \<in> set (mem_log sample_store). \<exists>e' \<in> set (mem_log s').
       immutable_part e' = immutable_part e \<and> (ev_anchored e \<longrightarrow> ev_anchored e'))"
  unfolding Let_def
  by (rule store_only_grows [OF sample_store_log(1) r_into_rtranclp]) (rule step_mark, rule surjective_pairing)

text \<open>
  A store fed in chronological order never raises a false alarm: after any sequence of
  inserts by the ingest pipeline in increasing \<open>(ts, id)\<close> order, re-deliveries, legal holds and
  anchorings, a sweep over any window terminates and reports an intact chain.
\<close>

theorem chronological_feed_verifies:
  assumes "feed_step\<^sup>*\<^sup>* new_event_store s" and "\<forall>k. \<not> cancelled k"
  shows "\<exists>r. sweep cancelled (mem_list s) (mem_get s) list_anchors lo hi signer now = Some (Inr r) \<and>
    rp_status r = StatusOK"
  using healthy_sweep [OF feed_run_keeps [OF assms(1) healthy_new], of cancelled] assms(2) by blast

theorem chronological_feed_verifies_witness:
  "\<exists>r. sweep (\<lambda>k. False) (mem_list sample_store) (mem_get sample_store) None (Time 1) (Time 2) None (Time 9) =
     Some (Inr r) \<and> rp_status r = StatusOK"
  by (rule chronological_feed_verifies [OF sample_store_feed]) simp

text \<open>
  Property C18. A sweep is sound and complete for its window: if the context is not cancelled it pages
  through the store to the end and returns a report; the report's status is OK exactly if the rows of
  the window form an intact chain, in which case its root is the hash of the last one; otherwise the
  reported id and position are those of the first row at which the chain is not intact.
\<close>

theorem sweep_reports_the_window:
  fixes lo hi :: time
  assumes "mem_inv s" and "\<forall>e \<in> set (mem_log s). \<not> is_zero (ev_ts e)" and "\<forall>k. \<not> cancelled k"
  defines "rows \<equiv> List.filter (matches_fields (sweep_filter lo hi)) (mem_log s)"
  shows "\<exists>r. sweep cancelled (mem_list s) (mem_get s) list_anchors lo hi signer now = Some (Inr r) \<and>
    rp_event_count r = int (length rows) \<and> (rp_status r = StatusOK \<longleftrightarrow> intact rows) \<and>
    (intact rows \<longrightarrow> rp_root_hash r = hash_hex (if rows = [] then zero_hash else ev_this_hash (last rows))) \<and>
    (\<not> intact rows \<longrightarrow> (\<exists>pre e post. rows = pre @ e # post \<and> intact pre \<and> \<not> intact (pre @ [e]) \<and>
       rp_first_broken r = ev_id e \<and> rp_position r = int (length pre) + 1))"
proof -
  obtain r where r: "sweep cancelled (mem_list s) (mem_get s) list_anchors lo hi signer now = Some (Inr r)"
    and rest: "rp_event_count r = int (length rows)" "rp_status r = StatusOK \<longleftrightarrow> intact rows"
      "intact rows \<longrightarrow> rp_root_hash r = hash_hex (snd (verify_chain rows))"
      "\<not> intact rows \<longrightarrow> (\<exists>pre e post. rows = pre @ e # post \<and> intact pre \<and> \<not> intact (pre @ [e]) \<and>
         rp_first_broken r = ev_id e \<and> rp_position r = int (length pre) + 1)"
    using mem.sweep_verdict [OF assms(1,2), of cancelled list_anchors lo hi signer now] assms(3)
    unfolding rows_def by blast
  show ?thesis
    by (rule exI [of _ r]) (use r rest in \<open>auto simp: verify_chain_root\<close>)
qed

theorem sweep_reports_the_window_witness:
  "\<exists>r. sweep (\<lambda>k. False) (mem_list sample_store) (mem_get sample_store) None zero_time zero_time None (Time 9) =
     Some (Inr r) \<and> rp_event_count r = 2 \<and> rp_root_hash r = hash_hex (ev_this_hash (last sample_chain))"
proof -
  have rows: "List.filter (matches_fields (sweep_filter zero_time zero_time)) sample_chain = sample_chain"
    by (simp add: filter_id_conv matches_fields_def sweep_filter_def zero_filter_def)
  have "length sample_chain = 2" "sample_chain \<noteq> []"
    by (simp_all add: sample_chain_def)
  then show ?thesis
    using sweep_reports_the_window [of sample_store "\<lambda>k. False" None zero_time zero_time None "Time 9"]
      sample_store_healthy
    by (auto simp: healthy_def sample_store_log rows sample_chain_intact)
qed

text \<open>
  Property C19. Keyset pagination is complete: whatever the filter and the page size, following
  \<open>NextCursor\<close> from the first page until it is zero ends and yields exactly the matching events, each
  once, in \<open>(ts, id)\<close> order.
\<close>

theorem pagination_is_complete:
  assumes "mem_inv s" and "\<forall>e \<in> set (mem_log s). \<not> is_zero (ev_ts e)" and "\<forall>k. \<not> cancelled k"
  shows "collect_pages cancelled (mem_list s) 0 f [] = Some (Inr (List.filter (passes_filter f) (mem_log s)))"
  using mem.pages_complete [OF assms(1,2), of cancelled 0 f "[]"] assms(3) by simp

theorem pagination_is_complete_witness:
  "collect_pages (\<lambda>k. False) (mem_list sample_store) 0 (zero_filter\<lparr>f_limit := 1\<rparr>) [] =
     Some (Inr (List.filter (passes_filter (zero_filter\<lparr>f_limit := 1\<rparr>)) sample_chain))"
  by (subst pagination_is_complete [OF sample_store_log(1)])
    (use sample_store_healthy in \<open>simp_all add: healthy_def sample_store_log\<close>)

text \<open>
  Running the anchor job on a non-empty store whose newest hash has 32 bytes and whose
  signer succeeds stores one anchor for the newest row, signed over its hash, and flags every row of
  the store as anchored; a signer failure is returned wrapped and changes nothing; an empty store gives
  \<open>ErrEmptyChain\<close>.
\<close>

theorem anchor_job_anchors_everything:
  fixes fresh :: string and now :: time and signer :: "bytes \<Rightarrow> (bytes \<times> string) result" and notary_url :: string
  assumes inv: "mem_inv s"
  defines "job \<equiv> mem_anchor_job fresh now signer notary_url" and "h \<equiv> last (mem_log s)"
  shows "(mem_log s = [] \<longrightarrow> anchor_run job s as = (Inl ErrEmptyChain, s, as)) \<and>
    (mem_log s \<noteq> [] \<longrightarrow> length (ev_this_hash h) = 32 \<longrightarrow> (case signer (ev_this_hash h) of
       Inl err \<Rightarrow> anchor_run job s as = (Inl (ErrWrap ''chain: anchor: sign'' err), s, as)
     | Inr (sig, key_id) \<Rightarrow> \<exists>a s' a'. anchor_run job s as = (Inr a, s', as @ [a']) \<and> mem_inv s' \<and>
         mem_log s' = map (\<lambda>e. e\<lparr>ev_anchored := True\<rparr>) (mem_log s) \<and>
         an_root_hash a' = ev_this_hash h \<and> an_last_event_id a' = ev_id h \<and> an_signature a' = sig \<and>
         an_kms_key_id a' = key_id))"
proof -
  have ok: "\<exists>a s' a'. anchor_run job s as = (Inr a, s', as @ [a']) \<and> mem_inv s' \<and>
         mem_log s' = map (\<lambda>e. e\<lparr>ev_anchored := True\<rparr>) (mem_log s) \<and>
         an_root_hash a' = ev_this_hash h \<and> an_last_event_id a' = ev_id h \<and> an_signature a' = sig \<and>
         an_kms_key_id a' = key_id"
    if "mem_log s \<noteq> []" "length (ev_this_hash h) = 32" "signer (ev_this_hash h) = Inr (sig, key_id)" for sig key_id
    using mem_anchoring.run_success [OF inv that(1), of fresh now signer notary_url sig key_id as] that
    by (auto simp: job_def h_def mem_anchor_job_def stamp_anchor_def)
  have bad: "anchor_run job s as = (Inl (ErrWrap ''chain: anchor: sign'' err), s, as)"
    if "mem_log s \<noteq> []" "length (ev_this_hash h) = 32" "signer (ev_this_hash h) = Inl err" for err
    using mem_anchoring.run_sign_failure [OF inv that(1), of fresh now signer notary_url err as] that
    by (auto simp: job_def h_def mem_anchor_job_def)
  show ?thesis
    using mem_anchoring.run_empty [OF inv] ok bad
    by (auto simp: job_def split: sum.splits prod.splits)
qed

theorem anchor_job_anchors_everything_witness:
  "\<exists>a s' a'. anchor_run (mem_anchor_job ''i'' (Time 3) (\<lambda>root. Inr (root, ''k'')) '''') sample_store [] =
       (Inr a, s', [a']) \<and>
     mem_log s' = map (\<lambda>e. e\<lparr>ev_anchored := True\<rparr>) sample_chain \<and> an_last_event_id a' = ''b''"
proof -
  have last: "sample_chain \<noteq> []" "length (ev_this_hash (last sample_chain)) = 32" "ev_id (last sample_chain) = ''b''"
    by (simp_all add: sample_chain_def length_sample_hash)
  show ?thesis
    using anchor_job_anchors_everything [OF sample_store_log(1), of "''i''" "Time 3"
        "\<lambda>root. Inr (root, ''k'')" "''''" "[]"] last
    by (auto simp: sample_store_log)
qed


text \<open>
  The \<open>anchored\<close> flag can be wrong: a row accepted late, with a time before the newest row
  \<open>h\<close>, is flagged by the next anchor run, but the root that run signs is still the hash of \<open>h\<close>, which was
  computed before the late row existed. The anchor, its signature included, is the one the job would
  have made without the row.
\<close>

theorem late_row_flagged_not_signed:
  fixes fresh :: string and now :: time and signer :: "bytes \<Rightarrow> (bytes \<times> string) result" and notary_url :: string
  assumes inv: "mem_inv s" and nonempty: "mem_log s \<noteq> []" and "mem_insert_chained s e hash_fn = (Inr True, row, s1)"
    and late: "ev_key e < ev_key (last (mem_log s))"
    and root: "length (ev_this_hash (last (mem_log s))) = 32"
    and sign: "signer (ev_this_hash (last (mem_log s))) = Inr (sig, key_id)"
  defines "job \<equiv> mem_anchor_job fresh now signer notary_url"
  shows "\<exists>a s' s1'. anchor_run job s as = (Inr a, s', as @ [stamp_anchor fresh now a]) \<and>
    anchor_run job s1 as = (Inr a, s1', as @ [stamp_anchor fresh now a]) \<and>
    (\<exists>x \<in> set (mem_log s1'). immutable_part x = immutable_part row \<and> ev_anchored x)"
proof -
  let ?h = "last (mem_log s)"
  let ?a = "head_anchor fresh ?h sig key_id notary_url"
  have fresh_id: "ev_id e \<notin> ev_id ` set (mem_log s)"
    using mem.insert_duplicate [OF inv] assms(3) by fastforce
  from mem.insert_fresh [OF inv this, of hash_fn] assms(3)
  have inv1: "mem_inv s1" and log1: "mem_log s1 = log_insert row (mem_log s)"
    and row: "row = link_event hash_fn (chain_tip (mem_log s)) e"
    by auto
  have key: "ev_key row = ev_key e"
    by (simp add: row)
  have "List.filter (\<lambda>x. ev_key row < ev_key x) (butlast (mem_log s) @ [?h]) =
      List.filter (\<lambda>x. ev_key row < ev_key x) (butlast (mem_log s)) @ [?h]"
    using late by (simp add: key)
  then have "List.filter (\<lambda>x. ev_key row < ev_key x) (mem_log s) =
      List.filter (\<lambda>x. ev_key row < ev_key x) (butlast (mem_log s)) @ [?h]"
    using nonempty by simp
  then have last1: "mem_log s1 \<noteq> []" "last (mem_log s1) = ?h"
    by (simp_all add: log1 log_insert_def)
  note anchor_of = head_anchor_run [where signer = signer and sig = sig and key_id = key_id and fresh = fresh
      and now = now and notary_url = notary_url and as = as]
  from anchor_of [OF inv nonempty root sign] obtain s' where
    before: "anchor_run job s as = (Inr ?a, s', as @ [stamp_anchor fresh now ?a])"
    by (auto simp: job_def)
  from anchor_of [OF inv1 last1(1), unfolded last1(2), OF root sign] obtain s1' where
    after: "anchor_run job s1 as = (Inr ?a, s1', as @ [stamp_anchor fresh now ?a])"
    and log1': "mem_log s1' = map (\<lambda>e. e\<lparr>ev_anchored := True\<rparr>) (mem_log s1)"
    by (auto simp: job_def)
  have "row\<lparr>ev_anchored := True\<rparr> \<in> set (mem_log s1')"
    by (simp add: log1' log1 log_insert_def)
  moreover have "immutable_part (row\<lparr>ev_anchored := True\<rparr>) = immutable_part row"
    by (simp add: immutable_part_def)
  ultimately show ?thesis
    using before after by (intro exI [of _ ?a] exI [of _ s'] exI [of _ s1'] conjI bexI [of _ "row\<lparr>ev_anchored := True\<rparr>"]) simp_all
qed


theorem late_row_flagged_not_signed_witness:
  "\<exists>row s1 a s1'. mem_insert_chained sample_store (sample_event ''c'' 1) (\<lambda>p. p) = (Inr True, row, s1) \<and>
     anchor_run (mem_anchor_job ''i'' (Time 3) (\<lambda>root. Inr (root, ''k'')) '''') s1 [] = (Inr a, s1', [stamp_anchor ''i'' (Time 3) a]) \<and>
     (\<exists>x \<in> set (mem_log s1'). immutable_part x = immutable_part row \<and> ev_anchored x)"
proof -
  let ?e = "sample_event ''c'' 1"
  have "ev_id ?e \<notin> ev_id ` set (mem_log sample_store)" and "ev_key ?e < ev_key (last (mem_log sample_store))"
    and "mem_log sample_store \<noteq> []" and "length (ev_this_hash (last (mem_log sample_store))) = 32"
    by (simp_all add: sample_store_log sample_chain_def length_sample_hash ev_key_def sample_event_def)
  moreover obtain row s1 where ins: "mem_insert_chained sample_store ?e (\<lambda>p. p) = (Inr True, row, s1)"
    using mem.insert_fresh [OF sample_store_log(1) calculation(1), of "\<lambda>p. p"] by blast
  moreover have "Inr (ev_this_hash (last (mem_log sample_store)), ''k'') =
      Inr (ev_this_hash (last (mem_log sample_store)), ''k'')" ..
  ultimately show ?thesis
    using late_row_flagged_not_signed [OF sample_store_log(1) _ ins, of "\<lambda>root. Inr (root, ''k'')"
        "ev_this_hash (last (mem_log sample_store))" "''k''" "''i''" "Time 3" "''''" "[]"]
    by auto
qed

end
