(* ===== verification/Objects.thy ===== *)
theory Objects
  imports Store Systems "HOL-Library.AList"
begin

text \<open>
  \<open>internal/s3\<close>: the object store that holds payload bodies and export artifacts. \<open>Fake\<close> is the
  in-memory client the service runs with in development mode and its tests; it enforces Object Lock.
  The Go map is an association list with one entry per key; \<open>time.Now\<close> is the argument \<open>now\<close>, and the
  text of a duration is the parameter \<open>dur_string\<close>. Durations are \<open>int64\<close> nanoseconds and wrap. The
  locale \<open>object_store\<close> is what the ingest pipeline and the export runner rely on.
\<close>

section \<open>Data\<close>

record object_info =
  oi_key :: string
  oi_bucket :: string
  oi_size :: int
  oi_storage_class :: string
  oi_retention_days :: int
  oi_legal_hold :: bool
  oi_created_at :: time

record put_options =
  po_key :: string
  po_content_type :: string
  po_storage_class :: string
  po_retention_days :: int
  po_legal_hold :: bool

record fake_object =
  fo_bucket :: string
  fo_key :: string
  fo_body :: bytes
  fo_storage_class :: string
  fo_retention_days :: int
  fo_legal_hold :: bool
  fo_created_at :: time

type_synonym fake_s3 = "(string \<times> fake_object) list"

text \<open>\<open>time.Duration(days) * 24 * time.Hour\<close> and \<open>Time.Add\<close>.\<close>

definition days_duration :: "int \<Rightarrow> int" where
  "days_duration days = sint (word_of_int days * word_of_int (24 * 3600000000000) :: 64 word)"

definition add_duration :: "time \<Rightarrow> int \<Rightarrow> time" where
  "add_duration t d = Time (nanos t + d)"

section \<open>Operations of the fake\<close>

definition new_fake_s3 :: fake_s3 where
  "new_fake_s3 = []"

declare new_fake_s3_def [simp]

definition object_path :: "string \<Rightarrow> string \<Rightarrow> string" where
  "object_path bucket key = bucket @ ''/'' @ key"

definition is_retained :: "time \<Rightarrow> fake_object \<Rightarrow> bool" where
  "is_retained now ob =
     (if fo_legal_hold ob then True
      else if fo_retention_days ob \<le> 0 then False
      else now < add_duration (fo_created_at ob) (days_duration (fo_retention_days ob)))"

definition stored_object :: "time \<Rightarrow> string \<Rightarrow> put_options \<Rightarrow> bytes \<Rightarrow> fake_object" where
  "stored_object now bucket opts b =
     \<lparr>fo_bucket = bucket, fo_key = po_key opts, fo_body = b,
      fo_storage_class = (if po_storage_class opts = '''' then ''STANDARD'' else po_storage_class opts),
      fo_retention_days = po_retention_days opts, fo_legal_hold = po_legal_hold opts,
      fo_created_at = now\<rparr>"

definition s3_put ::
  "time \<Rightarrow> fake_s3 \<Rightarrow> string \<Rightarrow> put_options \<Rightarrow> bytes result \<Rightarrow> string result \<times> fake_s3" where
  "s3_put now s bucket opts body =
     (case body of
        Inl err \<Rightarrow> (Inl err, s)
      | Inr b \<Rightarrow>
          (let key = po_key opts;
               write = AList.update (object_path bucket key) (stored_object now bucket opts b) s
           in case map_of s (object_path bucket key) of
                Some ob \<Rightarrow> if is_retained now ob then (Inl (ErrRetentionActive key), s) else (Inr key, write)
              | None \<Rightarrow> (Inr key, write)))"

definition s3_get :: "fake_s3 \<Rightarrow> string \<Rightarrow> string \<Rightarrow> bytes result" where
  "s3_get s bucket key =
     (case map_of s (object_path bucket key) of
        None \<Rightarrow> Inl (ErrObjectNotFound key)
      | Some ob \<Rightarrow> Inr (fo_body ob))"

definition s3_presign_get :: "(int \<Rightarrow> string) \<Rightarrow> fake_s3 \<Rightarrow> string \<Rightarrow> string \<Rightarrow> int \<Rightarrow> string result" where
  "s3_presign_get dur_string s bucket key ttl =
     (case map_of s (object_path bucket key) of
        None \<Rightarrow> Inl (ErrObjectNotFound key)
      | Some _ \<Rightarrow> Inr (''https://'' @ bucket @ ''.s3.example.com/'' @ key @ ''?ttl='' @ dur_string ttl))"

definition s3_head :: "fake_s3 \<Rightarrow> string \<Rightarrow> string \<Rightarrow> object_info result" where
  "s3_head s bucket key =
     (case map_of s (object_path bucket key) of
        None \<Rightarrow> Inl (ErrObjectNotFound key)
      | Some ob \<Rightarrow> Inr \<lparr>oi_key = fo_key ob, oi_bucket = fo_bucket ob, oi_size = int (length (fo_body ob)),
          oi_storage_class = fo_storage_class ob, oi_retention_days = fo_retention_days ob,
          oi_legal_hold = fo_legal_hold ob, oi_created_at = fo_created_at ob\<rparr>)"

definition s3_delete :: "time \<Rightarrow> fake_s3 \<Rightarrow> string \<Rightarrow> string \<Rightarrow> go_error option \<times> fake_s3" where
  "s3_delete now s bucket key =
     (case map_of s (object_path bucket key) of
        None \<Rightarrow> (Some (ErrObjectNotFound key), s)
      | Some ob \<Rightarrow>
          if is_retained now ob then (Some (ErrRetentionActive key), s)
          else (None, AList.delete (object_path bucket key) s))"

text \<open>
  \<open>ApplyTransition\<close>. The order of the iteration over the map does not matter, since each object is
  visited once and changed on its own. \<open>-time.Duration(ageDays) * 24 * time.Hour\<close> wraps too.
\<close>

definition in_transition :: "time \<Rightarrow> string \<Rightarrow> fake_object \<Rightarrow> bool" where
  "in_transition cutoff from_class ob \<longleftrightarrow>
     \<not> fo_storage_class ob \<noteq> from_class \<and> \<not> cutoff < fo_created_at ob"

definition s3_apply_transition :: "time \<Rightarrow> fake_s3 \<Rightarrow> int \<Rightarrow> string \<Rightarrow> string \<Rightarrow> int \<times> fake_s3" where
  "s3_apply_transition now s age_days from_class to_class =
     (let cutoff = add_duration now (days_duration (- age_days)) in
      (int (length [x \<leftarrow> s. in_transition cutoff from_class (snd x)]),
       map (\<lambda>(k, ob). (k, if in_transition cutoff from_class ob
                           then ob\<lparr>fo_storage_class := to_class\<rparr> else ob)) s))"

text \<open>\<open>ingest.PutAdapter\<close>: the same write from a byte slice, returning the key as bytes.\<close>

definition put_adapter ::
  "time \<Rightarrow> fake_s3 \<Rightarrow> string \<Rightarrow> put_options \<Rightarrow> bytes \<Rightarrow> bytes result \<times> fake_s3" where
  "put_adapter now s bucket opts body =
     (case s3_put now s bucket opts (Inr body) of
        (Inl err, s') \<Rightarrow> (Inl err, s')
      | (Inr key, s') \<Rightarrow> (Inr (bytes_of key), s'))"

section \<open>The interface its clients rely on\<close>

locale object_store =
  fixes put :: "time \<Rightarrow> 'o \<Rightarrow> string \<Rightarrow> put_options \<Rightarrow> bytes \<Rightarrow> 'k result \<times> 'o"
    and body_at :: "'o \<Rightarrow> string \<Rightarrow> string \<Rightarrow> bytes result"
    and key_text :: "'k \<Rightarrow> string"
  assumes put_stores: "put now s bucket opts body = (Inr k, s') \<Longrightarrow>
      key_text k = po_key opts \<and> body_at s' bucket (po_key opts) = Inr body"
    and put_others: "put now s bucket opts body = (r, s') \<Longrightarrow> key \<noteq> po_key opts \<Longrightarrow>
      body_at s' bucket key = body_at s bucket key"
    and put_fails: "put now s bucket opts body = (Inl err, s') \<Longrightarrow> s' = s"

lemma object_path_eq [simp]: "object_path b k = object_path b k' \<longleftrightarrow> k = k'"
  by (simp add: object_path_def)

lemma stored_object_fields [simp]:
  "fo_body (stored_object now b opts body) = body" "fo_created_at (stored_object now b opts body) = now"
  "fo_retention_days (stored_object now b opts body) = po_retention_days opts"
  "fo_legal_hold (stored_object now b opts body) = po_legal_hold opts"
  by (simp_all add: stored_object_def)

lemma s3_put_cases:
  "s3_put now s bucket opts (Inr body) = (r, s') \<Longrightarrow>
   (r = Inl (ErrRetentionActive (po_key opts)) \<and> s' = s \<and>
      (\<exists>ob. map_of s (object_path bucket (po_key opts)) = Some ob \<and> is_retained now ob)) \<or>
   (r = Inr (po_key opts) \<and>
      (\<forall>ob. map_of s (object_path bucket (po_key opts)) = Some ob \<longrightarrow> \<not> is_retained now ob) \<and>
      s' = AList.update (object_path bucket (po_key opts)) (stored_object now bucket opts body) s)"
  by (auto simp: s3_put_def Let_def split: option.splits if_splits)

lemma put_adapter_cases:
  assumes "put_adapter now s bucket opts body = (r, s')"
  shows "(r = Inl (ErrRetentionActive (po_key opts)) \<and> s' = s) \<or>
    (r = Inr (bytes_of (po_key opts)) \<and>
      s' = AList.update (object_path bucket (po_key opts)) (stored_object now bucket opts body) s)"
  using assms s3_put_cases [of now s bucket opts body]
  by (cases "s3_put now s bucket opts (Inr body)") (auto simp: put_adapter_def split: sum.splits)

interpretation fake_objects: object_store put_adapter s3_get string_of
proof
  fix now s bucket opts body r s' k key err
  show "string_of k = po_key opts \<and> s3_get s' bucket (po_key opts) = Inr body"
    if "put_adapter now s bucket opts body = (Inr k, s')"
    using put_adapter_cases [OF that] by (auto simp: s3_get_def update_conv')
  show "s3_get s' bucket key = s3_get s bucket key"
    if "put_adapter now s bucket opts body = (r, s')" and "key \<noteq> po_key opts"
    using put_adapter_cases [OF that(1)] that(2) by (auto simp: s3_get_def update_conv')
  show "s' = s" if "put_adapter now s bucket opts body = (Inl err, s')"
    using put_adapter_cases [OF that] by auto
qed

text \<open>\<open>app.exportPutAdapter\<close>: the reader-based write, as the export runner calls it.\<close>

definition export_put_adapter ::
  "time \<Rightarrow> fake_s3 \<Rightarrow> string \<Rightarrow> put_options \<Rightarrow> bytes \<Rightarrow> string result \<times> fake_s3" where
  "export_put_adapter now s bucket opts body = s3_put now s bucket opts (Inr body)"

interpretation export_objects: object_store export_put_adapter s3_get "\<lambda>k. k"
proof
  fix now s bucket opts body r s' k key err
  show "k = po_key opts \<and> s3_get s' bucket (po_key opts) = Inr body"
    if "export_put_adapter now s bucket opts body = (Inr k, s')"
    using s3_put_cases [OF that [unfolded export_put_adapter_def]] by (auto simp: s3_get_def update_conv')
  show "s3_get s' bucket key = s3_get s bucket key"
    if "export_put_adapter now s bucket opts body = (r, s')" and "key \<noteq> po_key opts"
    using s3_put_cases [OF that(1) [unfolded export_put_adapter_def]] that(2) by (auto simp: s3_get_def update_conv')
  show "s' = s" if "export_put_adapter now s bucket opts body = (Inl err, s')"
    using s3_put_cases [OF that [unfolded export_put_adapter_def]] by auto
qed

section \<open>Write once, read many\<close>

text \<open>\<open>s3_step t\<close>: some operation at some time up to \<open>t\<close>.\<close>

inductive s3_step :: "time \<Rightarrow> fake_s3 \<Rightarrow> fake_s3 \<Rightarrow> bool" for t :: time where
  step_put: "now \<le> t \<Longrightarrow> s3_put now s bucket opts body = (r, s') \<Longrightarrow> s3_step t s s'"
| step_delete: "now \<le> t \<Longrightarrow> s3_delete now s bucket key = (r, s') \<Longrightarrow> s3_step t s s'"
| step_transition: "now \<le> t \<Longrightarrow> s3_apply_transition now s age from_class to_class = (n, s') \<Longrightarrow> s3_step t s s'"

inductive_cases s3_stepE: "s3_step t s s'"

lemma is_retained_antimono: "is_retained t ob \<Longrightarrow> now \<le> t \<Longrightarrow> is_retained now ob"
  by (auto simp: is_retained_def split: if_splits)

definition same_object :: "fake_object \<Rightarrow> fake_object \<Rightarrow> bool" where
  "same_object ob ob' \<longleftrightarrow> ob'\<lparr>fo_storage_class := fo_storage_class ob\<rparr> = ob"

lemma same_object_refl [simp]: "same_object ob ob"
  by (simp add: same_object_def)

lemma same_object_fields:
  "same_object ob ob' \<Longrightarrow> fo_body ob' = fo_body ob \<and> fo_legal_hold ob' = fo_legal_hold ob \<and>
     fo_retention_days ob' = fo_retention_days ob \<and> fo_created_at ob' = fo_created_at ob"
  by (auto simp: same_object_def)
    (metis fake_object.select_convs fake_object.surjective fake_object.update_convs)+

lemma same_object_retained: "same_object ob ob' \<Longrightarrow> is_retained now ob' = is_retained now ob"
  using same_object_fields [of ob ob'] by (simp add: is_retained_def)

lemma same_object_trans: "same_object a b \<Longrightarrow> same_object b c \<Longrightarrow> same_object a c"
  by (auto simp: same_object_def) (metis fake_object.surjective fake_object.update_convs(4))

lemma s3_step_retained:
  assumes "s3_step t s s'" and at: "map_of s p = Some ob" and ret: "is_retained t ob"
  shows "\<exists>ob'. map_of s' p = Some ob' \<and> same_object ob ob'"
  using assms(1)
proof (rule s3_stepE)
  fix now assume "now \<le> t"
  then have now: "is_retained now ob"
    using ret is_retained_antimono by blast
  show ?thesis if "s3_put now s bucket opts body = (r, s')" for bucket opts body r
    using that at now by (cases body) (auto simp: s3_put_def Let_def update_conv' split: option.splits if_splits)
  show ?thesis if "s3_delete now s bucket key = (r, s')" for bucket key r
    using that at now by (auto simp: s3_delete_def delete_conv' split: option.splits if_splits)
  show ?thesis if "s3_apply_transition now s age from_class to_class = (n, s')" for age from_class to_class n
  proof -
    define f where "f ob = (if in_transition (add_duration now (days_duration (- age))) from_class ob
      then ob\<lparr>fo_storage_class := to_class\<rparr> else ob)" for ob
    have "s' = map (\<lambda>(k, ob). (k, f ob)) s"
      using that by (simp add: s3_apply_transition_def Let_def f_def)
    then have "map_of s' p = map_option f (map_of s p)"
      by (simp add: map_of_map)
    moreover have "same_object ob (f ob)"
      by (simp add: f_def same_object_def)
    ultimately show ?thesis
      using at by simp
  qed
qed

text \<open>An object that is retained at \<open>t\<close> stays, whatever operations are run at \<open>t\<close>.\<close>

definition still_held :: "time \<Rightarrow> string \<Rightarrow> fake_object \<Rightarrow> fake_s3 \<Rightarrow> bool" where
  "still_held t p ob s \<longleftrightarrow> is_retained t ob \<longrightarrow> (\<exists>ob'. map_of s p = Some ob' \<and> same_object ob ob')"

lemma still_held_step:
  assumes "s3_step t s s'" and "still_held t p ob s"
  shows "still_held t p ob s'"
  unfolding still_held_def
proof
  assume "is_retained t ob"
  with assms(2) obtain ob1 where ob1: "map_of s p = Some ob1" "same_object ob ob1"
    by (auto simp: still_held_def)
  then obtain ob2 where "map_of s' p = Some ob2" "same_object ob1 ob2"
    using s3_step_retained [OF assms(1) ob1(1)] same_object_retained \<open>is_retained t ob\<close> by blast
  with ob1 show "\<exists>ob'. map_of s' p = Some ob' \<and> same_object ob ob'"
    by (blast intro: same_object_trans)
qed

interpretation retaining: step_system "\<lambda>s. map_of s p = Some ob" "s3_step t" "still_held t p ob"
  for t p ob
proof unfold_locales
  show "still_held t p ob s" if "map_of s p = Some ob" for s
    using that by (simp add: still_held_def)
qed (rule still_held_step)

lemma s3_run_retained:
  assumes "(s3_step t)\<^sup>*\<^sup>* s s'" and "map_of s p = Some ob" and "is_retained t ob"
  shows "\<exists>ob'. map_of s' p = Some ob' \<and> same_object ob ob'"
  using retaining.reachable_ok [OF assms(1,2)] assms(3) by (simp add: still_held_def)

lemma days_duration_exact:
  assumes "\<bar>days\<bar> \<le> 106751"
  shows "days_duration days = days * 86400000000000"
proof -
  have "(word_of_int days * word_of_int (24 * 3600000000000) :: 64 word) = word_of_int (days * 86400000000000)"
    by simp
  moreover have "signed_take_bit 63 (days * 86400000000000) = days * 86400000000000"
    using assms by (intro signed_take_bit_int_eq_self) auto
  ultimately show ?thesis
    by (simp add: days_duration_def signed_of_int del: of_int_mult)
qed


section \<open>Properties\<close>

definition sample_options :: put_options where
  "sample_options = \<lparr>po_key = ''k'', po_content_type = ''application/json'', po_storage_class = '''',
     po_retention_days = 2555, po_legal_hold = False\<rparr>"

text \<open>
  Property C8. Object Lock holds along every run: once a write with a retention period or legal hold
  succeeded, no sequence of writes, deletes and lifecycle transitions up to a time \<open>t\<close> at which the
  object is still retained removes it or changes its body; a read returns the bytes written.
\<close>

theorem retained_object_is_immutable:
  assumes "s3_put now s bucket opts (Inr body) = (Inr key, s1)"
    and "po_legal_hold opts \<or>
      0 < po_retention_days opts \<and> t < add_duration now (days_duration (po_retention_days opts))"
    and "(s3_step t)\<^sup>*\<^sup>* s1 s2"
  shows "s3_get s2 bucket key = Inr body"
proof -
  let ?ob = "stored_object now bucket opts body"
  have key: "key = po_key opts" and at: "map_of s1 (object_path bucket key) = Some ?ob"
    using s3_put_cases [OF assms(1)] by (auto simp: update_conv')
  have "is_retained t ?ob"
    using assms(2) by (auto simp: is_retained_def)
  from s3_run_retained [OF assms(3) at this] show ?thesis
    using same_object_fields by (fastforce simp: s3_get_def)
qed

theorem retained_object_is_immutable_witness:
  "s3_get (snd (s3_delete (Time 2) (snd (s3_put (Time 1) [] ''b'' sample_options (Inr [7]))) ''b'' ''k'')) ''b'' ''k'' =
     Inr [7]"
proof (rule retained_object_is_immutable [where now = "Time 1" and t = "Time 2" and s = "[]" and opts = sample_options])
  show "s3_put (Time 1) [] ''b'' sample_options (Inr [7]) =
      (Inr ''k'', snd (s3_put (Time 1) [] ''b'' sample_options (Inr [7])))"
    by (simp add: s3_put_def sample_options_def Let_def)
  show "po_legal_hold sample_options \<or> 0 < po_retention_days sample_options \<and>
      Time 2 < add_duration (Time 1) (days_duration (po_retention_days sample_options))"
    by (simp add: sample_options_def days_duration_exact add_duration_def)
  show "(s3_step (Time 2))\<^sup>*\<^sup>* (snd (s3_put (Time 1) [] ''b'' sample_options (Inr [7])))
      (snd (s3_delete (Time 2) (snd (s3_put (Time 1) [] ''b'' sample_options (Inr [7]))) ''b'' ''k''))"
    by (rule r_into_rtranclp, rule step_delete [of "Time 2"], simp, rule surjective_pairing)
qed

text \<open>
  Property C30. The retention period is computed in \<open>int64\<close> nanoseconds: up to 106751 days an object is
  retained exactly until its creation time plus that many days, and at 106752 days the product wraps to
  a negative duration, so an object to be kept for 292 years can be deleted at once.
\<close>

theorem retention_period_bounds:
  "(\<not> fo_legal_hold ob \<and> 0 < fo_retention_days ob \<and> fo_retention_days ob \<le> 106751 \<longrightarrow>
     is_retained now ob = (nanos now < nanos (fo_created_at ob) + fo_retention_days ob * 86400000000000)) \<and>
   (\<not> fo_legal_hold ob \<and> fo_retention_days ob = 106752 \<and> fo_created_at ob \<le> now \<longrightarrow> \<not> is_retained now ob)"
proof -
  have wrap: "days_duration 106752 = 106752 * 86400000000000 - 2 ^ 64"
    by (simp add: days_duration_def)
  have "is_retained now ob = (nanos now < nanos (fo_created_at ob) + fo_retention_days ob * 86400000000000)"
    if "\<not> fo_legal_hold ob" "0 < fo_retention_days ob" "fo_retention_days ob \<le> 106751"
    using that by (simp add: is_retained_def days_duration_exact add_duration_def less_time_def)
  moreover have "\<not> is_retained now ob"
    if "\<not> fo_legal_hold ob" "fo_retention_days ob = 106752" "fo_created_at ob \<le> now"
    using that by (simp add: is_retained_def wrap add_duration_def less_time_def less_eq_time_def)
  ultimately show ?thesis
    by blast
qed

theorem retention_period_bounds_witness:
  "\<not> is_retained (Time 5) \<lparr>fo_bucket = ''b'', fo_key = ''k'', fo_body = [], fo_storage_class = ''STANDARD'',
      fo_retention_days = 106752, fo_legal_hold = False, fo_created_at = Time 5\<rparr>"
  using retention_period_bounds [of "\<lparr>fo_bucket = ''b'', fo_key = ''k'', fo_body = [], fo_storage_class = ''STANDARD'',
      fo_retention_days = 106752, fo_legal_hold = False, fo_created_at = Time 5\<rparr>" "Time 5"] by simp

end
