(* ===== verification/Redaction.thy ===== *)
theory Redaction
  imports Event
begin

text \<open>
  \<open>internal/redaction\<close>: the redaction policy, its application to a payload, its parser and the
  hot-reload wrapper. A decoded JSON value is a \<open>json\<close> (numbers by their IEEE bit pattern). The JSON
  codec, the Unicode case table and the quoting of \<open>%q\<close> are the fields of \<open>text_lib\<close>. A decoded object is
  the list of its members in the order in which Go's map iteration happens to visit them; every result
  below holds for any order.
\<close>

datatype json =
    JNull
  | JBool bool
  | JNumber "64 word"
  | JString string
  | JArray "json list"
  | JObject "(string \<times> json) list"

record text_lib =
  tl_unmarshal_object :: "bytes \<Rightarrow> (string \<times> json) list result"
  tl_marshal :: "json \<Rightarrow> bytes result"
  tl_lower_table :: "string \<Rightarrow> string"
  tl_quote :: "string \<Rightarrow> string"

section \<open>Policies and their application\<close>

text \<open>A \<open>Transform\<close> is a string; the parser stores any text, the known ones are named.\<close>

type_synonym transform = string

definition transform_none :: transform where "transform_none = ''none''"
definition transform_hash :: transform where "transform_hash = ''hash''"
definition transform_mask :: transform where "transform_mask = ''mask''"
definition transform_drop :: transform where "transform_drop = ''drop''"


record rule =
  rl_service :: string
  rl_action :: string
  rl_fields :: "string \<rightharpoonup> transform"

type_synonym policy = "rule list"

definition rule_applies :: "string \<Rightarrow> string \<Rightarrow> rule \<Rightarrow> bool" where
  "rule_applies service action r \<longleftrightarrow>
     \<not> (rl_service r \<noteq> ''*'' \<and> rl_service r \<noteq> service) \<and> \<not> (rl_action r \<noteq> ''*'' \<and> rl_action r \<noteq> action)"

definition policy_matches :: "policy \<Rightarrow> string \<Rightarrow> string \<Rightarrow> rule list" where
  "policy_matches p service action = List.filter (rule_applies service action) p"

text \<open>
  \<open>string(s[0])\<close> converts a byte to the UTF-8 encoding of the code point with that number: a byte from
  128 on becomes two bytes.
\<close>

definition string_of_byte :: "char \<Rightarrow> string" where
  "string_of_byte c =
     (let n = of_char c :: nat in
      if n < 128 then [c] else [char_of (192 + n div 64), char_of (128 + n mod 64)])"

definition mask_string :: "string \<Rightarrow> string" where
  "mask_string s =
     (if length s \<le> 2 then ''*''
      else string_of_byte (s ! 0) @ replicate (length s - 2) CHR ''*'' @ string_of_byte (s ! (length s - 1)))"

definition as_string :: "text_lib \<Rightarrow> json \<Rightarrow> string" where
  "as_string lib v =
     (case v of
        JString s \<Rightarrow> s
      | _ \<Rightarrow> (case tl_marshal lib v of Inl err \<Rightarrow> '''' | Inr b \<Rightarrow> string_of b))"

definition apply_transform :: "text_lib \<Rightarrow> transform \<Rightarrow> json \<Rightarrow> (json \<times> bool) result" where
  "apply_transform lib t v =
     (if t = transform_none then Inr (v, False)
      else if t = transform_hash then
        (case tl_marshal lib v of
           Inl err \<Rightarrow> Inl err
         | Inr b \<Rightarrow> Inr (JString (''sha256:'' @ hex_encode (sha256 b)), True))
      else if t = transform_mask then
        (let s = as_string lib v in
         if s = '''' then Inr (v, False) else Inr (JString (mask_string s), True))
      else if t = transform_drop then Inr (JNull, True)
      else Inr (v, False))"

text \<open>
  The inner loop of \<open>Apply\<close> for one member: the first matching rule that names the field decides. The
  result is the member's new value, \<open>None\<close> if it is deleted, and whether it changed.
\<close>

fun redact_member :: "text_lib \<Rightarrow> rule list \<Rightarrow> string \<Rightarrow> json \<Rightarrow> (json option \<times> bool) result" where
  "redact_member lib [] k v = Inr (Some v, False)"
| "redact_member lib (r # rs) k v =
     (case rl_fields r (to_lower (tl_lower_table lib) k) of
        None \<Rightarrow> redact_member lib rs k v
      | Some t \<Rightarrow>
          if t = transform_drop then Inr (None, True)
          else case apply_transform lib t v of
                 Inl err \<Rightarrow> Inl (ErrWrap (''redaction: transform '' @ tl_quote lib t @ '' on '' @ tl_quote lib k) err)
               | Inr (w, field_changed) \<Rightarrow> Inr (Some (if field_changed then w else v), field_changed))"

fun redact_members ::
  "text_lib \<Rightarrow> rule list \<Rightarrow> (string \<times> json) list \<Rightarrow> ((string \<times> json) list \<times> bool) result" where
  "redact_members lib rs [] = Inr ([], False)"
| "redact_members lib rs ((k, v) # kvs) =
     (case redact_member lib rs k v of
        Inl err \<Rightarrow> Inl err
      | Inr (w, c) \<Rightarrow>
          (case redact_members lib rs kvs of
             Inl err \<Rightarrow> Inl err
           | Inr (obj, changed) \<Rightarrow>
               Inr ((case w of None \<Rightarrow> obj | Some v' \<Rightarrow> (k, v') # obj), c \<or> changed)))"

text \<open>\<open>Apply\<close>; a nil policy is \<open>None\<close>.\<close>

definition policy_apply ::
  "text_lib \<Rightarrow> policy option \<Rightarrow> string \<Rightarrow> string \<Rightarrow> bytes \<Rightarrow> (bytes \<times> bool) result" where
  "policy_apply lib p service action body =
     (if p = None \<or> the p = [] \<or> body = [] then Inr (body, False)
      else let matches = policy_matches (the p) service action in
        if matches = [] then Inr (body, False)
        else case tl_unmarshal_object lib body of
               Inl err \<Rightarrow> Inl (ErrWrap ''redaction: decode payload'' err)
             | Inr obj \<Rightarrow>
                 (case redact_members lib matches obj of
                    Inl err \<Rightarrow> Inl err
                  | Inr (obj', changed) \<Rightarrow>
                      if \<not> changed then Inr (body, False)
                      else case tl_marshal lib (JObject obj') of
                             Inl err \<Rightarrow> Inl (ErrWrap ''redaction: encode payload'' err)
                           | Inr out \<Rightarrow> Inr (out, True)))"

section \<open>The policy parser\<close>

definition unquote :: "string \<Rightarrow> string" where
  "unquote s =
     (if 2 \<le> length s \<and>
         ((s ! 0 = CHR 0x22 \<and> s ! (length s - 1) = CHR 0x22) \<or> (s ! 0 = CHR 0x27 \<and> s ! (length s - 1) = CHR 0x27))
      then take (length s - 2) (drop 1 s) else s)"

text \<open>\<open>strings.SplitN(line, ":", 2)\<close> on a line that contains a colon: before and after the first one.\<close>

definition split_colon :: "string \<Rightarrow> string \<times> string" where
  "split_colon line = (takeWhile (\<lambda>c. c \<noteq> CHR '':'') line, drop 1 (dropWhile (\<lambda>c. c \<noteq> CHR '':'') line))"

definition new_rule :: "string \<Rightarrow> rule" where
  "new_rule service = \<lparr>rl_service = service, rl_action = '''', rl_fields = Map.empty\<rparr>"

definition rule_line :: "rule \<Rightarrow> string \<Rightarrow> rule" where
  "rule_line cur line =
     (if has_prefix line ''action:'' then
        cur\<lparr>rl_action := unquote (trim_space (trim_prefix line ''action:''))\<rparr>
      else if has_prefix line ''fields:'' then cur
      else if CHR '':'' \<in> set line then
        (let field = trim_space (fst (split_colon line)); t = trim_space (snd (split_colon line)) in
         if rl_fields cur field = None then cur\<lparr>rl_fields := (rl_fields cur)(field \<mapsto> t)\<rparr> else cur)
      else cur)"

definition flush_rule :: "rule list \<Rightarrow> rule option \<Rightarrow> rule list" where
  "flush_rule rules current = (case current of None \<Rightarrow> rules | Some c \<Rightarrow> rules @ [c])"

fun parse_lines :: "rule list \<Rightarrow> rule option \<Rightarrow> string list \<Rightarrow> rule list" where
  "parse_lines rules current [] = flush_rule rules current"
| "parse_lines rules current (raw # rest) =
     (let line = trim_space raw in
      if line = '''' \<or> has_prefix line ''#'' then parse_lines rules current rest
      else if has_prefix line ''rules:'' then parse_lines rules current rest
      else if has_prefix line ''- service:'' then
        parse_lines (flush_rule rules current)
          (Some (new_rule (unquote (trim_space (trim_prefix line ''- service:''))))) rest
      else case current of
             None \<Rightarrow> parse_lines rules None rest
           | Some c \<Rightarrow> parse_lines rules (Some (rule_line c line)) rest)"

definition parse_policy :: "string \<Rightarrow> policy result" where
  "parse_policy text = Inr (parse_lines [] None (split_on (CHR 0x0A) text))"

text \<open>
  \<open>LoadFile\<close> and \<open>LoadReader\<close>. What opening and reading the file at a path gives is the parameter
  \<open>files\<close>: \<open>None\<close> for a file that does not exist, otherwise its text or the error; whether the error came
  from opening or from reading only shows in the wrapping.
\<close>

datatype file_read = Missing | OpenFailed go_error | ReadFailed go_error | Contents string

definition load_file :: "(string \<Rightarrow> file_read) \<Rightarrow> string \<Rightarrow> policy result" where
  "load_file files path =
     (if path = '''' then Inr []
      else case files path of
             Missing \<Rightarrow> Inr []
           | OpenFailed err \<Rightarrow> Inl (ErrWrap (''redaction: load '' @ path) err)
           | ReadFailed err \<Rightarrow> Inl err
           | Contents text \<Rightarrow> parse_policy text)"

record reloader =
  rd_policy :: "policy option"
  rd_path :: string

definition new_reloader :: "(string \<Rightarrow> file_read) \<Rightarrow> string \<Rightarrow> reloader result" where
  "new_reloader files path =
     (case load_file files path of
        Inl err \<Rightarrow> Inl err
      | Inr p \<Rightarrow> Inr \<lparr>rd_policy = Some p, rd_path = path\<rparr>)"

definition reload :: "(string \<Rightarrow> file_read) \<Rightarrow> reloader \<Rightarrow> go_error option \<times> reloader" where
  "reload files r =
     (case load_file files (rd_path r) of
        Inl err \<Rightarrow> (Some err, r)
      | Inr p \<Rightarrow> (None, r\<lparr>rd_policy := Some p\<rparr>))"

definition reloader_apply :: "text_lib \<Rightarrow> reloader \<Rightarrow> string \<Rightarrow> string \<Rightarrow> bytes \<Rightarrow> (bytes \<times> bool) result" where
  "reloader_apply lib r service action body = policy_apply lib (rd_policy r) service action body"


section \<open>What redaction hides\<close>

text \<open>The transform that decides a member: that of the first matching rule naming it.\<close>

fun field_transform :: "text_lib \<Rightarrow> rule list \<Rightarrow> string \<Rightarrow> transform option" where
  "field_transform lib [] k = None"
| "field_transform lib (r # rs) k =
     (case rl_fields r (to_lower (tl_lower_table lib) k) of
        None \<Rightarrow> field_transform lib rs k
      | Some t \<Rightarrow> Some t)"

lemma redact_member_transform:
  "redact_member lib rs k v =
     (case field_transform lib rs k of
        None \<Rightarrow> Inr (Some v, False)
      | Some t \<Rightarrow>
          if t = transform_drop then Inr (None, True)
          else case apply_transform lib t v of
                 Inl err \<Rightarrow> Inl (ErrWrap (''redaction: transform '' @ tl_quote lib t @ '' on '' @ tl_quote lib k) err)
               | Inr (w, field_changed) \<Rightarrow> Inr (Some (if field_changed then w else v), field_changed))"
  by (induction rs) (auto split: option.splits)








text \<open>No member that a rule drops is in the result.\<close>

lemma redact_members_dropped:
  "redact_members lib rs obj = Inr (obj', changed) \<Longrightarrow> (k, v) \<in> set obj' \<Longrightarrow>
   field_transform lib rs k \<noteq> Some transform_drop"
proof (induction obj arbitrary: obj' changed)
  case (Cons kv obj)
  obtain k0 v0 where kv: "kv = (k0, v0)"
    by (cases kv)
  obtain w c where w: "redact_member lib rs k0 v0 = Inr (w, c)"
    using Cons.prems(1) kv by (auto split: sum.splits)
  obtain obj1 changed1 where rest: "redact_members lib rs obj = Inr (obj1, changed1)"
    using Cons.prems(1) kv w by (auto split: sum.splits)
  have "obj' = (case w of None \<Rightarrow> obj1 | Some v' \<Rightarrow> (k0, v') # obj1)"
    using Cons.prems(1) kv w rest by simp
  then consider "(k, v) \<in> set obj1" | "w = Some v" "k = k0"
    using Cons.prems(2) by (cases w) auto
  then show ?case
  proof cases
    case 1
    then show ?thesis by (rule Cons.IH [OF rest])
  next
    case 2
    with w show ?thesis by (auto simp: redact_member_transform)
  qed
qed simp

lemma redact_members_untouched:
  "\<forall>(k, v) \<in> set obj. field_transform lib rs k = None \<Longrightarrow> redact_members lib rs obj = Inr (obj, False)"
  by (induction obj) (auto simp: redact_member_transform)

text \<open>An ASCII key is looked up in lower case, so a field name with a capital letter is never found.\<close>

definition is_capital :: "char \<Rightarrow> bool" where
  "is_capital c \<longleftrightarrow> 65 \<le> (of_char c :: nat) \<and> (of_char c :: nat) \<le> 90"

lemma capital_field_never_found:
  assumes "is_ascii k" and "\<forall>r \<in> set rs. \<forall>f \<in> dom (rl_fields r). \<exists>c \<in> set f. is_capital c"
  shows "field_transform lib rs k = None"
  using assms(2)
proof (induction rs)
  case (Cons r rs)
  have "\<not> (\<exists>c \<in> set (to_lower (tl_lower_table lib) k). is_capital c)"
    using assms(1) lower_char_not_upper by (auto simp: to_lower_def is_capital_def)
  with Cons.prems have "rl_fields r (to_lower (tl_lower_table lib) k) = None"
    by (auto simp: domIff)
  with Cons show ?case by simp
qed simp

section \<open>Round trip of policy documents\<close>

text \<open>
  A policy document in the documented layout. Names are quoted where the grammar allows it; a field name
  must not be one of the grammar's own keywords, contain a colon or start a comment.
\<close>

definition service_line :: "string \<Rightarrow> string" where
  "service_line s = ''  - service: '' @ CHR 0x22 # s @ [CHR 0x22]"

definition action_line :: "string \<Rightarrow> string" where
  "action_line s = ''    action: '' @ CHR 0x22 # s @ [CHR 0x22]"

definition fields_line :: string where
  "fields_line = ''    fields:''"

definition field_line :: "string \<times> transform \<Rightarrow> string" where
  "field_line ft = ''      '' @ fst ft @ '': '' @ snd ft"

lemmas line_defs = service_line_def action_line_def fields_line_def field_line_def

definition render_rule :: "string \<times> string \<times> (string \<times> transform) list \<Rightarrow> string list" where
  "render_rule d =
     (case d of (service, action, fs) \<Rightarrow>
        [service_line service, action_line action, fields_line] @ map field_line fs)"

definition render_policy :: "(string \<times> string \<times> (string \<times> transform) list) list \<Rightarrow> string" where
  "render_policy ds = join_with (CHR 0x0A) (''rules:'' # concat (map render_rule ds))"

definition rule_of :: "string \<times> string \<times> (string \<times> transform) list \<Rightarrow> rule" where
  "rule_of d = (case d of (service, action, fs) \<Rightarrow>
     \<lparr>rl_service = service, rl_action = action, rl_fields = map_of fs\<rparr>)"

definition plain_word :: "string \<Rightarrow> bool" where
  "plain_word s \<longleftrightarrow> s \<noteq> '''' \<and> list_all is_graphic s"

definition field_name :: "string \<Rightarrow> bool" where
  "field_name f \<longleftrightarrow> plain_word f \<and> CHR '':'' \<notin> set f \<and> hd f \<noteq> CHR ''#'' \<and>
     f \<notin> {''rules'', ''action'', ''fields''}"

definition renderable :: "string \<times> string \<times> (string \<times> transform) list \<Rightarrow> bool" where
  "renderable d = (case d of (service, action, fs) \<Rightarrow>
     CHR 0x0A \<notin> set service \<and> CHR 0x0A \<notin> set action \<and>
     list_all (\<lambda>(f, t). field_name f \<and> plain_word t) fs)"

lemma blank_encoding: "\<forall>w \<in> set space_encodings. w \<noteq> [] \<and> (hd w = CHR '' '' \<longrightarrow> w = '' '')" "'' '' \<in> set space_encodings"
  by (simp_all add: space_encodings_def char_of_eq_iff, simp add: eq_commute [of "CHR '' ''"] char_of_eq_iff)

lemma trim_left_blank: "trim_left (CHR '' '' # s) = trim_left s"
proof -
  let ?P = "\<lambda>w. w \<noteq> [] \<and> prefix w (CHR '' '' # s)"
  have "find ?P space_encodings \<noteq> None"
    using blank_encoding(2) by (auto simp: find_None_iff)
  then obtain w where w: "find ?P space_encodings = Some w"
    by blast
  then have "w \<in> set space_encodings" "w \<noteq> []" "prefix w (CHR '' '' # s)"
    by (auto simp: find_Some_iff)
  moreover from this(2,3) have "hd w = CHR '' ''"
    by (cases w) auto
  ultimately have "w = '' ''"
    using blank_encoding(1) by blast
  with w show ?thesis
    unfolding trim_left_def by (subst strip_all.simps) simp
qed

lemma trim_space_blank: "trim_space (CHR '' '' # s) = trim_space s"
  by (simp add: trim_space_def trim_left_blank)

lemma unquote_quoted: "unquote (CHR 0x22 # s @ [CHR 0x22]) = s"
  by (simp add: unquote_def nth_append)

lemma trim_quoted: "trim_space (CHR 0x22 # s @ [CHR 0x22]) = CHR 0x22 # s @ [CHR 0x22]"
  by (rule trim_space_graphic) (simp add: is_graphic_def)

lemma plain_word_ends: "plain_word s \<Longrightarrow> is_graphic (hd s) \<and> is_graphic (last s)"
  by (auto simp: plain_word_def list_all_iff)

lemma trim_plain_word: "plain_word s \<Longrightarrow> trim_space s = s"
  using plain_word_ends by (intro trim_space_graphic) auto


lemma colon_prefix:
  "CHR '':'' \<notin> set f \<Longrightarrow> CHR '':'' \<notin> set p \<Longrightarrow> has_prefix (f @ CHR '':'' # x) (p @ '':'') \<longleftrightarrow> f = p"
  unfolding has_prefix_def
proof (induction p arbitrary: f)
  case Nil
  then show ?case by (cases f) auto
next
  case (Cons c p)
  then show ?case by (cases f) auto
qed

lemma split_colon_append: "CHR '':'' \<notin> set f \<Longrightarrow> split_colon (f @ CHR '':'' # x) = (f, x)"
  by (simp add: split_colon_def takeWhile_append2 dropWhile_append2) (auto simp: takeWhile_append dropWhile_append)


lemma trim_service_line: "trim_space (service_line s) = ''- service: '' @ CHR 0x22 # s @ [CHR 0x22]"
  by (simp add: service_line_def trim_space_blank) (subst trim_space_graphic, simp_all add: is_graphic_def)

lemma trim_action_line: "trim_space (action_line s) = ''action: '' @ CHR 0x22 # s @ [CHR 0x22]"
  by (simp add: action_line_def trim_space_blank) (subst trim_space_graphic, simp_all add: is_graphic_def)

lemma trim_fields_line: "trim_space fields_line = ''fields:''"
  by (simp add: fields_line_def trim_space_blank) (subst trim_space_graphic, simp_all add: is_graphic_def)

lemma trim_field_line:
  assumes "plain_word f" and "plain_word t"
  shows "trim_space (field_line (f, t)) = f @ CHR '':'' # CHR '' '' # t"
proof -
  have "f \<noteq> ''''" "t \<noteq> ''''"
    using assms by (auto simp: plain_word_def)
  then have "trim_space (f @ CHR '':'' # CHR '' '' # t) = f @ CHR '':'' # CHR '' '' # t"
    using plain_word_ends [OF assms(1)] plain_word_ends [OF assms(2)]
    by (intro trim_space_graphic) simp
  then show ?thesis
    by (simp add: field_line_def trim_space_blank)
qed

declare parse_lines.simps [simp del]

lemma parse_service_line:
  "parse_lines rules current (service_line s # rest) =
   parse_lines (flush_rule rules current) (Some (new_rule s)) rest"
  by (simp add: parse_lines.simps(2) trim_service_line Let_def has_prefix_def trim_prefix_def
      trim_space_blank trim_quoted unquote_quoted)

lemma parse_action_line:
  "parse_lines rules (Some c) (action_line s # rest) = parse_lines rules (Some (c\<lparr>rl_action := s\<rparr>)) rest"
  by (simp add: parse_lines.simps(2) trim_action_line Let_def rule_line_def has_prefix_def trim_prefix_def
      trim_space_blank trim_quoted unquote_quoted)

lemma parse_fields_line:
  "parse_lines rules (Some c) (fields_line # rest) = parse_lines rules (Some c) rest"
  by (simp add: parse_lines.simps(2) trim_fields_line Let_def rule_line_def has_prefix_def)

lemma parse_field_line:
  assumes "field_name f" and "plain_word t"
  shows "parse_lines rules (Some c) (field_line (f, t) # rest) =
    parse_lines rules (Some (c\<lparr>rl_fields := [f \<mapsto> t] ++ rl_fields c\<rparr>)) rest"
proof -
  let ?line = "f @ CHR '':'' # CHR '' '' # t"
  have f: "f \<noteq> ''''" "plain_word f" "CHR '':'' \<notin> set f" "hd f \<noteq> CHR ''#''" "CHR '' '' \<notin> set f"
      "f \<noteq> ''rules''" "f \<noteq> ''action''" "f \<noteq> ''fields''"
    using assms(1) by (auto simp: field_name_def plain_word_def list_all_iff is_graphic_def)
  have keyword: "\<not> has_prefix ?line (p @ '':'')" if "CHR '':'' \<notin> set p" "f \<noteq> p" for p
    using colon_prefix [OF f(3) that(1)] that(2) by simp
  have "\<not> has_prefix ?line ''#''"
    using f(1,4) by (cases f) (auto simp: has_prefix_def)
  moreover have "f \<noteq> ''- service''"
    using f(5) by auto
  ultimately have no: "\<not> has_prefix ?line ''#''" "\<not> has_prefix ?line ''- service:''"
    "\<not> has_prefix ?line ''rules:''" "\<not> has_prefix ?line ''action:''" "\<not> has_prefix ?line ''fields:''"
    using keyword [of "''rules''"] keyword [of "''action''"] keyword [of "''fields''"]
      keyword [of "''- service''"] f(6-8) by simp_all
  have split: "split_colon ?line = (f, CHR '' '' # t)"
    by (rule split_colon_append [OF f(3)])
  have trims: "trim_space f = f" "trim_space (CHR '' '' # t) = t"
    by (simp_all add: trim_space_blank trim_plain_word f(2) assms(2))
  have "rule_line c ?line = c\<lparr>rl_fields := [f \<mapsto> t] ++ rl_fields c\<rparr>"
  proof (cases "rl_fields c f")
    case None
    then have "(rl_fields c)(f \<mapsto> t) = [f \<mapsto> t] ++ rl_fields c"
      by (auto simp: fun_eq_iff map_add_def split: option.splits)
    with None show ?thesis
      using no by (simp add: rule_line_def split trims)
  next
    case (Some u)
    then have "rl_fields c = [f \<mapsto> t] ++ rl_fields c"
      by (auto simp: fun_eq_iff map_add_def split: option.splits)
    then have "c\<lparr>rl_fields := [f \<mapsto> t] ++ rl_fields c\<rparr> = c"
      by simp
    with Some show ?thesis
      using no by (simp add: rule_line_def split trims)
  qed
  with no f(1) show ?thesis
    by (simp add: parse_lines.simps(2) trim_field_line [OF f(2) assms(2)] Let_def)
qed

lemma parse_field_lines:
  "list_all (\<lambda>(f, t). field_name f \<and> plain_word t) fs \<Longrightarrow>
   parse_lines rules (Some c) (map field_line fs @ rest) =
   parse_lines rules (Some (c\<lparr>rl_fields := map_of fs ++ rl_fields c\<rparr>)) rest"
proof (induction fs arbitrary: c)
  case (Cons ft fs)
  obtain f t where ft: "ft = (f, t)" "field_name f" "plain_word t"
    using Cons.prems by (cases ft) auto
  have "map_of fs ++ ([f \<mapsto> t] ++ rl_fields c) = map_of ((f, t) # fs) ++ rl_fields c"
    by (auto simp: fun_eq_iff map_add_def split: option.splits)
  with Cons.IH [of "c\<lparr>rl_fields := [f \<mapsto> t] ++ rl_fields c\<rparr>"] Cons.prems parse_field_line [OF ft(2,3)] ft(1)
  show ?case
    by (simp del: map_of.simps)
qed simp

lemma parse_rendered_rule:
  assumes "renderable d"
  shows "parse_lines rules current (render_rule d @ rest) =
    parse_lines (flush_rule rules current) (Some (rule_of d)) rest"
proof -
  obtain s a fs where d: "d = (s, a, fs)"
    by (cases d)
  have "list_all (\<lambda>(f, t). field_name f \<and> plain_word t) fs"
    using assms by (simp add: d renderable_def)
  then show ?thesis
    by (simp add: d render_rule_def rule_of_def parse_service_line parse_action_line parse_fields_line
        parse_field_lines new_rule_def)
qed

lemma parse_rendered_rules:
  "list_all renderable ds \<Longrightarrow>
   parse_lines rules current (concat (map render_rule ds)) = flush_rule rules current @ map rule_of ds"
  by (induction ds arbitrary: rules current)
    (simp_all add: parse_rendered_rule parse_lines.simps(1), simp add: flush_rule_def)


section \<open>Properties\<close>

text \<open>A codec for closed instances: a payload is one member \<open>ssn\<close> whose string value is the body.\<close>

definition sample_lib :: text_lib where
  "sample_lib =
     \<lparr>tl_unmarshal_object = (\<lambda>b. Inr [(''ssn'', JString (string_of b))]),
      tl_marshal = (\<lambda>v. case v of JObject [(k, JString s)] \<Rightarrow> Inr (bytes_of s) | _ \<Rightarrow> Inr []),
      tl_lower_table = (\<lambda>s. s), tl_quote = (\<lambda>s. s)\<rparr>"

definition sample_policy :: "string \<Rightarrow> transform \<Rightarrow> policy" where
  "sample_policy f t = [\<lparr>rl_service = ''*'', rl_action = ''*'', rl_fields = [f \<mapsto> t]\<rparr>]"



text \<open>
  A dropped field is gone, and redaction fails closed: a changed payload is the encoding of
  an object with no member that a matching rule drops; and when some rule matches the event but the
  payload is not a JSON object, an error is returned instead of the unredacted bytes.
\<close>

theorem dropped_fields_are_gone:
  assumes "policy_matches p service action \<noteq> []" and "body \<noteq> []"
  shows "case tl_unmarshal_object lib body of
      Inl err \<Rightarrow> policy_apply lib (Some p) service action body = Inl (ErrWrap ''redaction: decode payload'' err)
    | Inr obj \<Rightarrow>
        (case policy_apply lib (Some p) service action body of
           Inl err \<Rightarrow> True
         | Inr (out, changed) \<Rightarrow>
             if changed
             then \<exists>obj'. tl_marshal lib (JObject obj') = Inr out \<and>
               (\<forall>(k, v) \<in> set obj'. field_transform lib (policy_matches p service action) k \<noteq> Some transform_drop)
             else out = body)"
proof -
  have p: "p \<noteq> []"
    using assms(1) by (auto simp: policy_matches_def)
  show ?thesis
    using assms p redact_members_dropped [of lib "policy_matches p service action"]
    by (fastforce simp: policy_apply_def Let_def split: sum.splits prod.splits)
qed

theorem dropped_fields_are_gone_witness:
  "case policy_apply sample_lib (Some (sample_policy ''ssn'' ''drop'')) ''s'' ''a'' [7] of
     Inl err \<Rightarrow> True
   | Inr (out, changed) \<Rightarrow>
       if changed
       then \<exists>obj'. tl_marshal sample_lib (JObject obj') = Inr out \<and>
         (\<forall>(k, v) \<in> set obj'. field_transform sample_lib
            (policy_matches (sample_policy ''ssn'' ''drop'') ''s'' ''a'') k \<noteq> Some transform_drop)
       else out = [7]"
proof -
  have "policy_matches (sample_policy ''ssn'' ''drop'') ''s'' ''a'' \<noteq> []" "[7] \<noteq> ([] :: bytes)"
    by (simp_all add: sample_policy_def policy_matches_def rule_applies_def)
  moreover have "tl_unmarshal_object sample_lib [7] = Inr [(''ssn'', JString (string_of [7]))]"
    by (simp add: sample_lib_def)
  ultimately show ?thesis
    using dropped_fields_are_gone [of "sample_policy ''ssn'' ''drop''" "''s''" "''a''" "[7]" sample_lib]
    by (simp only: sum.case simp_thms if_True if_False not_False_eq_True)
qed

text \<open>
  Field names of a policy are matched in lower case, but the parser keeps them as written:
  a policy whose field names all contain a capital letter changes no payload with ASCII keys, although
  the documentation promises case-insensitive matching.
\<close>

theorem capital_fields_never_match:
  assumes "\<forall>r \<in> set p. \<forall>f \<in> dom (rl_fields r). \<exists>c \<in> set f. is_capital c"
    and "tl_unmarshal_object lib body = Inr obj" and "\<forall>(k, v) \<in> set obj. is_ascii k"
  shows "policy_apply lib (Some p) service action body = Inr (body, False)"
proof -
  have "\<forall>r \<in> set (policy_matches p service action). \<forall>f \<in> dom (rl_fields r). \<exists>c \<in> set f. is_capital c"
    using assms(1) by (auto simp: policy_matches_def)
  then have "\<forall>(k, v) \<in> set obj. field_transform lib (policy_matches p service action) k = None"
    using assms(3) capital_field_never_found by blast
  from redact_members_untouched [OF this] show ?thesis
    using assms(2) by (simp add: policy_apply_def Let_def)
qed

theorem capital_fields_never_match_witness:
  "policy_apply sample_lib (Some (sample_policy ''SSN'' ''drop'')) ''s'' ''a'' [7] = Inr ([7], False)"
  by (rule capital_fields_never_match [where obj = "[(''ssn'', JString (string_of [7]))]"])
    (simp_all add: sample_policy_def sample_lib_def is_capital_def is_ascii_def)

text \<open>
  Property C25. The parser reads every policy document in the documented layout back to the rules it
  was written from: names with quotes around them, fields in order, the first entry of a field winning.
  A field must not be called \<open>rules\<close>, \<open>action\<close> or \<open>fields\<close>, which the line scanner takes for itself.
\<close>

theorem policy_round_trip:
  assumes "list_all renderable ds"
  shows "parse_policy (render_policy ds) = Inr (map rule_of ds)"
proof -
  let ?lines = "''rules:'' # concat (map render_rule ds)"
  have "\<forall>l \<in> set ?lines. CHR 0x0A \<notin> set l"
    using assms
    by (fastforce simp: list_all_iff renderable_def render_rule_def line_defs field_name_def plain_word_def is_graphic_def)
  then have "split_on (CHR 0x0A) (render_policy ds) = ?lines"
    unfolding render_policy_def by (intro split_join) auto
  moreover have "trim_space ''rules:'' = ''rules:''"
    by (rule trim_space_graphic) (simp add: is_graphic_def)
  ultimately show ?thesis
    using parse_rendered_rules [OF assms, of "[]" None]
    by (simp add: parse_policy_def parse_lines.simps(2) Let_def has_prefix_def flush_rule_def)
qed

theorem policy_round_trip_witness:
  "parse_policy (render_policy [(''orch'', ''*'', [(''ssn'', ''mask''), (''card_number'', ''drop'')])]) =
     Inr [\<lparr>rl_service = ''orch'', rl_action = ''*'', rl_fields = [''card_number'' \<mapsto> ''drop'', ''ssn'' \<mapsto> ''mask'']\<rparr>]"
  by (subst policy_round_trip)
    (simp_all add: renderable_def field_name_def plain_word_def is_graphic_def rule_of_def)

end
