(* ===== verification/Ingest.thy ===== *)
theory Ingest
  imports Runs Objects Redaction "HOL-Library.Multiset"
begin

text \<open>
  \<open>internal/ingest\<close>: the pipeline that turns one Kafka message into one chained row, and the counters of
  \<open>internal/metrics\<close> it increments. The stores and the redactor are the fields of \<open>deps\<close>, as in the code;
  a nil dependency is \<open>None\<close>. The world it acts on is \<open>ingest_state\<close>. A counter vector is a multiset of
  increments: the value of a counter is the multiplicity of its label. The JSON decoder of the envelope
  and the text of an error value (\<open>err.Error()\<close>) are fields too; no code branches on the text.
  \<open>ingest_prepare\<close> and \<open>ingest_finish\<close> are the two halves of a message, before and from its insert.
\<close>

section \<open>Messages, dependencies, state\<close>

record message =
  im_topic :: string
  im_partition :: int
  im_offset :: int
  im_key :: bytes
  im_value :: bytes

datatype metric =
    EventsIngested string
  | IngestDuplicates string
  | IngestRejections string string
  | IngestLatency string
  | QueryLatency string
  | ChainAnchors string
  | ChainVerifyOutcomes string
  | ExportsCreated string
  | ExportsCompleted string string
  | DeadLettered string

record ('e, 'o, 'd) deps =
  dp_insert_chained :: "'e \<Rightarrow> event \<Rightarrow> (bytes \<Rightarrow> bytes) \<Rightarrow> bool result \<times> event \<times> 'e"
  dp_put :: "('o \<Rightarrow> string \<Rightarrow> put_options \<Rightarrow> bytes \<Rightarrow> bytes result \<times> 'o) option"
  dp_payload_bucket :: string
  dp_storage_class :: string
  dp_retention_days :: int
  dp_legal_hold_default :: bool
  dp_redactor :: "(string \<Rightarrow> string \<Rightarrow> bytes \<Rightarrow> (bytes \<times> bool) result) option"
  dp_dead_letters :: "('d \<Rightarrow> dead_letter \<Rightarrow> go_error option \<times> 'd) option"
  dp_topic :: string
  dp_unmarshal :: "bytes \<Rightarrow> envelope result"
  dp_error_text :: "go_error \<Rightarrow> string"

record ('e, 'o, 'd) ingest_state =
  is_events :: 'e
  is_objects :: 'o
  is_dead :: 'd
  is_metrics :: "metric multiset"

record ingest_result =
  ir_inserted :: bool
  ir_event_id :: string
  ir_event :: "event option"
  ir_reason :: string

definition bump :: "metric \<Rightarrow> ('e, 'o, 'd) ingest_state \<Rightarrow> ('e, 'o, 'd) ingest_state" where
  "bump m st = st\<lparr>is_metrics := add_mset m (is_metrics st)\<rparr>"

definition rejected :: "string \<Rightarrow> string \<Rightarrow> ingest_result" where
  "rejected reason i = \<lparr>ir_inserted = False, ir_event_id = i, ir_event = None, ir_reason = reason\<rparr>"

section \<open>The pipeline\<close>

definition dead_letter_msg ::
  "('e, 'o, 'd) deps \<Rightarrow> message \<Rightarrow> bytes \<Rightarrow> string \<Rightarrow> ('e, 'o, 'd) ingest_state \<Rightarrow> ('e, 'o, 'd) ingest_state" where
  "dead_letter_msg dp msg raw reason st =
     (let st1 = bump (DeadLettered (dp_topic dp)) st in
      case dp_dead_letters dp of
        None \<Rightarrow> st1
      | Some sink \<Rightarrow>
          st1\<lparr>is_dead := snd (sink (is_dead st1)
            \<lparr>dl_id = '''', dl_topic = dp_topic dp, dl_partition = im_partition msg, dl_offset = im_offset msg,
             dl_key = string_of (im_key msg), dl_payload = raw, dl_reason = reason, dl_rejected_at = zero_time\<rparr>)\<rparr>)"

text \<open>Computing or verifying the payload hash: the envelope to go on with and the payload body.\<close>

definition check_payload :: "envelope \<Rightarrow> (envelope \<times> bytes) option" where
  "check_payload ev =
     (if length (env_payload ev) > 0 then
        (let computed = hash_payload (env_payload ev) in
         if env_payload_hash ev \<noteq> '''' \<and> normalize_hash (env_payload_hash ev) \<noteq> computed then None
         else Some (ev\<lparr>env_payload_hash := computed\<rparr>, env_payload ev))
      else Some (ev, []))"

text \<open>Redaction: the body to store and whether it was changed.\<close>

definition redact_payload :: "('e, 'o, 'd) deps \<Rightarrow> envelope \<Rightarrow> bytes \<Rightarrow> (bytes \<times> bool) result" where
  "redact_payload dp ev body =
     (case dp_redactor dp of
        None \<Rightarrow> Inr (body, False)
      | Some apply \<Rightarrow>
          if length body > 0 then
            (case apply (env_source_service ev) (env_action ev) body of
               Inl err \<Rightarrow> Inl err
             | Inr (out, changed) \<Rightarrow> if changed then Inr (out, True) else Inr (body, False))
          else Inr (body, False))"

text \<open>The payload write: the reference to store in the row.\<close>

definition payload_options :: "('e, 'o, 'd) deps \<Rightarrow> envelope \<Rightarrow> put_options" where
  "payload_options dp ev =
     \<lparr>po_key = env_id ev, po_content_type = ''application/json'', po_storage_class = dp_storage_class dp,
      po_retention_days = dp_retention_days dp, po_legal_hold = dp_legal_hold_default dp\<rparr>"

definition put_payload ::
  "('e, 'o, 'd) deps \<Rightarrow> envelope \<Rightarrow> bytes \<Rightarrow> ('e, 'o, 'd) ingest_state \<Rightarrow> string result \<times> ('e, 'o, 'd) ingest_state" where
  "put_payload dp ev body st =
     (case dp_put dp of
        None \<Rightarrow> (Inr '''', st)
      | Some put \<Rightarrow>
          if dp_payload_bucket dp \<noteq> '''' \<and> length body > 0 then
            (case put (is_objects st) (dp_payload_bucket dp) (payload_options dp ev) body of
               (Inl err, objs) \<Rightarrow> (Inl err, st\<lparr>is_objects := objs\<rparr>)
             | (Inr key_bytes, objs) \<Rightarrow> (Inr (string_of key_bytes), st\<lparr>is_objects := objs\<rparr>))
          else (Inr '''', st))"

definition payload_row :: "('e, 'o, 'd) deps \<Rightarrow> envelope \<Rightarrow> bytes \<Rightarrow> string \<Rightarrow> bool \<Rightarrow> event" where
  "payload_row dp ev payload_hash payload_ref redacted =
     \<lparr>ev_id = env_id ev, ev_ts = env_ts ev, ev_source_service = env_source_service ev,
      ev_actor_id = env_actor_id ev, ev_action = env_action ev, ev_target_type = env_target_type ev,
      ev_target_id = env_target_id ev, ev_payload_hash = payload_hash, ev_payload_ref = payload_ref,
      ev_prev_hash = [], ev_this_hash = [], ev_anchored = False,
      ev_legal_hold = dp_legal_hold_default dp, ev_redacted = redacted\<rparr>"

definition envelope_hash_fn :: "envelope \<Rightarrow> bytes \<Rightarrow> bytes \<Rightarrow> bytes" where
  "envelope_hash_fn ev payload_hash prev_hash =
     canonical_hash (env_id ev) (env_ts ev) (env_source_service ev) (env_actor_id ev) (env_action ev)
       (env_target_type ev) (env_target_id ev) payload_hash prev_hash"

definition insert_row ::
  "('e, 'o, 'd) deps \<Rightarrow> envelope \<Rightarrow> bytes \<Rightarrow> event \<Rightarrow> ('e, 'o, 'd) ingest_state \<Rightarrow>
   ingest_result \<times> ('e, 'o, 'd) ingest_state" where
  "insert_row dp ev payload_hash row st =
     (case dp_insert_chained dp (is_events st) row (envelope_hash_fn ev payload_hash) of
        (Inl err, row', es) \<Rightarrow>
          (rejected (''insert: '' @ dp_error_text dp err) (env_id ev),
           bump (IngestRejections (env_source_service ev) ''insert'') (st\<lparr>is_events := es\<rparr>))
      | (Inr inserted, row', es) \<Rightarrow>
          if \<not> inserted then
            (\<lparr>ir_inserted = False, ir_event_id = env_id ev, ir_event = None, ir_reason = ''''\<rparr>,
             bump (IngestDuplicates (env_source_service ev)) (st\<lparr>is_events := es\<rparr>))
          else
            (\<lparr>ir_inserted = True, ir_event_id = env_id ev, ir_event = Some row', ir_reason = ''''\<rparr>,
             bump (EventsIngested (env_source_service ev)) (st\<lparr>is_events := es\<rparr>)))"

text \<open>
  What happens to a decoded message before its row is inserted: an early return, or the envelope with its
  hash, the payload hash and the row for \<open>InsertChained\<close>. This half touches the object store or the
  dead-letter sink, never the event store.
\<close>

definition prepare_decoded ::
  "('e, 'o, 'd) deps \<Rightarrow> message \<Rightarrow> envelope \<Rightarrow> ('e, 'o, 'd) ingest_state \<Rightarrow>
   (ingest_result + envelope \<times> bytes \<times> event) \<times> ('e, 'o, 'd) ingest_state" where
  "prepare_decoded dp msg ev0 st =
     (let service = env_source_service ev0;
          reject = (\<lambda>label reason. (Inl (rejected reason (env_id ev0)),
            dead_letter_msg dp msg (im_value msg) reason (bump (IngestRejections service label) st))) in
      case check_payload ev0 of
        None \<Rightarrow> reject ''payload_hash'' ''payload_hash mismatch''
      | Some (ev, payload_body) \<Rightarrow>
          (case redact_payload dp ev payload_body of
             Inl err \<Rightarrow> reject ''redaction'' (''redaction: '' @ dp_error_text dp err)
           | Inr (body, redacted) \<Rightarrow>
               (case decode_hash_to_bytes (env_payload_hash ev) of
                  Inl err \<Rightarrow> reject ''payload_hash_format'' (''payload_hash format: '' @ dp_error_text dp err)
                | Inr payload_hash \<Rightarrow>
                    (case put_payload dp ev body st of
                       (Inl err, st') \<Rightarrow>
                         (Inl (rejected (''s3 put: '' @ dp_error_text dp err) (env_id ev)),
                          bump (IngestRejections service ''s3_put'') st')
                     | (Inr payload_ref, st') \<Rightarrow>
                         (Inr (ev, payload_hash, payload_row dp ev payload_hash payload_ref redacted), st')))))"

text \<open>
  \<open>IngestMessage\<close> after decoding. The deferred latency observation runs on every path, so it is added to
  the final state.
\<close>

definition ingest_decoded ::
  "('e, 'o, 'd) deps \<Rightarrow> message \<Rightarrow> envelope \<Rightarrow> ('e, 'o, 'd) ingest_state \<Rightarrow>
   ingest_result \<times> ('e, 'o, 'd) ingest_state" where
  "ingest_decoded dp msg ev0 st =
     (case prepare_decoded dp msg ev0 st of
        (Inl r, st') \<Rightarrow> (r, st')
      | (Inr (ev, payload_hash, row), st') \<Rightarrow> insert_row dp ev payload_hash row st')"

definition ingest_message ::
  "('e, 'o, 'd) deps \<Rightarrow> message \<Rightarrow> ('e, 'o, 'd) ingest_state \<Rightarrow> ingest_result \<times> ('e, 'o, 'd) ingest_state" where
  "ingest_message dp msg st =
     (case decode_and_validate (dp_unmarshal dp) (im_value msg) of
        Inl err \<Rightarrow>
          (rejected (''decode: '' @ dp_error_text dp err) '''',
           dead_letter_msg dp msg (im_value msg) (''decode: '' @ dp_error_text dp err)
             (bump (IngestRejections ''unknown'' ''decode'') st))
      | Inr ev \<Rightarrow>
          (let r = ingest_decoded dp msg ev st in
           (fst r, bump (IngestLatency (env_source_service ev)) (snd r))))"

definition ingest_value ::
  "('e, 'o, 'd) deps \<Rightarrow> bytes \<Rightarrow> ('e, 'o, 'd) ingest_state \<Rightarrow> ingest_result \<times> ('e, 'o, 'd) ingest_state" where
  "ingest_value dp v st =
     ingest_message dp \<lparr>im_topic = '''', im_partition = 0, im_offset = 0, im_key = [], im_value = v\<rparr> st"


section \<open>The paths of a message\<close>

lemma bump_fields [frame_simps]:
  "is_events (bump m st) = is_events st" "is_objects (bump m st) = is_objects st"
  "is_dead (bump m st) = is_dead st" "is_metrics (bump m st) = add_mset m (is_metrics st)"
  by (simp_all add: bump_def)

lemma dead_letter_frame [frame_simps]:
  "is_events (dead_letter_msg dp msg raw reason st) = is_events st"
  "is_objects (dead_letter_msg dp msg raw reason st) = is_objects st"
  "is_metrics (dead_letter_msg dp msg raw reason st) = add_mset (DeadLettered (dp_topic dp)) (is_metrics st)"
  by (simp_all add: dead_letter_msg_def bump_def Let_def split: option.splits)

lemma rejected_fields [simp]:
  "\<not> ir_inserted (rejected reason i)" "ir_reason (rejected reason i) = reason" "ir_event (rejected reason i) = None"
  by (simp_all add: rejected_def)

lemma put_payload_frame:
  "put_payload dp ev body st = (r, st') \<Longrightarrow> is_events st' = is_events st \<and> is_metrics st' = is_metrics st \<and>
     is_dead st' = is_dead st"
  by (auto simp: put_payload_def split: option.splits if_splits prod.splits sum.splits)

text \<open>
  \<open>reaches_insert\<close>: the message passed every check and its payload was written; the row is about to be
  inserted into the state \<open>st1\<close>.
\<close>

definition reaches_insert ::
  "('e, 'o, 'd) deps \<Rightarrow> message \<Rightarrow> ('e, 'o, 'd) ingest_state \<Rightarrow> envelope \<Rightarrow> bytes \<Rightarrow> event \<Rightarrow>
   ('e, 'o, 'd) ingest_state \<Rightarrow> bool" where
  "reaches_insert dp msg st ev payload_hash row st1 \<longleftrightarrow>
     (\<exists>ev0 payload body redacted payload_ref.
        decode_and_validate (dp_unmarshal dp) (im_value msg) = Inr ev0 \<and>
        check_payload ev0 = Some (ev, payload) \<and> redact_payload dp ev payload = Inr (body, redacted) \<and>
        decode_hash_to_bytes (env_payload_hash ev) = Inr payload_hash \<and>
        put_payload dp ev body st = (Inr payload_ref, st1) \<and>
        row = payload_row dp ev payload_hash payload_ref redacted)"

lemma check_payload_service:
  "check_payload ev = Some (ev', payload) \<Longrightarrow> env_source_service ev' = env_source_service ev \<and>
     env_id ev' = env_id ev \<and> env_ts ev' = env_ts ev"
  by (auto simp: check_payload_def Let_def split: if_splits)

lemma ingest_message_paths:
  assumes "ingest_message dp msg st = (r, st')"
  obtains (early) label service where "\<not> ir_inserted r" "ir_reason r \<noteq> ''''" "is_events st' = is_events st"
      "is_objects st' = is_objects st"
      "\<exists>extra. is_metrics st' = add_mset (DeadLettered (dp_topic dp))
         (add_mset (IngestRejections service label) (is_metrics st)) + extra \<and> set_mset extra \<subseteq> range IngestLatency"
  | (put_failed) ev body err where "\<not> ir_inserted r" "ir_reason r = ''s3 put: '' @ dp_error_text dp err"
      "is_events st' = is_events st" "is_dead st' = is_dead st"
      "is_objects st' = is_objects (snd (put_payload dp ev body st))" "fst (put_payload dp ev body st) = Inl err"
      "is_metrics st' = is_metrics st + {#IngestRejections (env_source_service ev) ''s3_put'',
         IngestLatency (env_source_service ev)#}"
  | (insert) ev payload_hash row st1 st2 where "reaches_insert dp msg st ev payload_hash row st1"
      "insert_row dp ev payload_hash row st1 = (r, st2)" "st' = bump (IngestLatency (env_source_service ev)) st2"
proof (cases "decode_and_validate (dp_unmarshal dp) (im_value msg)")
  case (Inl err)
  with assms show ?thesis
    by (intro early [of "''unknown''" "''decode''"])
      (auto simp: ingest_message_def frame_simps intro!: exI [of _ "{#}"])
next
  case (Inr ev0)
  let ?s = "env_source_service ev0"
  have r: "r = fst (ingest_decoded dp msg ev0 st)"
    and st': "st' = bump (IngestLatency ?s) (snd (ingest_decoded dp msg ev0 st))"
    using assms Inr by (simp_all add: ingest_message_def Let_def)
  have reject: thesis
    if "ingest_decoded dp msg ev0 st = (rejected reason (env_id ev0),
      dead_letter_msg dp msg (im_value msg) reason (bump (IngestRejections ?s label) st))" and "reason \<noteq> ''''"
    for reason label
    using that r st' by (intro early [of ?s label])
      (auto simp: frame_simps intro!: exI [of _ "{#IngestLatency ?s#}"])
  show ?thesis
  proof (cases "check_payload ev0")
    case None
    then show ?thesis
      by (intro reject [of "''payload_hash mismatch''" "''payload_hash''"]) (simp_all add: ingest_decoded_def prepare_decoded_def Let_def)
  next
    case (Some evp)
    then obtain ev payload where evp: "check_payload ev0 = Some (ev, payload)"
      by (cases evp) auto
    have s: "env_source_service ev = ?s"
      using check_payload_service [OF evp] by simp
    show ?thesis
    proof (cases "redact_payload dp ev payload")
      case (Inl err)
      with evp show ?thesis
        by (intro reject [of "''redaction: '' @ dp_error_text dp err" "''redaction''"])
          (simp_all add: ingest_decoded_def prepare_decoded_def Let_def)
    next
      case (Inr br)
      then obtain body redacted where red: "redact_payload dp ev payload = Inr (body, redacted)"
        by (cases br) auto
      show ?thesis
      proof (cases "decode_hash_to_bytes (env_payload_hash ev)")
        case (Inl err)
        with evp red show ?thesis
          by (intro reject [of "''payload_hash format: '' @ dp_error_text dp err" "''payload_hash_format''"])
            (simp_all add: ingest_decoded_def prepare_decoded_def Let_def)
      next
        case hash: (Inr payload_hash)
        obtain pr st1 where put: "put_payload dp ev body st = (pr, st1)"
          by (cases "put_payload dp ev body st")
        note frame = put_payload_frame [OF put]
        show ?thesis
        proof (cases pr)
          case (Inl err)
          with evp red hash put r st' frame s show ?thesis
            by (intro put_failed [of err ev body]) (simp_all add: ingest_decoded_def prepare_decoded_def Let_def frame_simps)
        next
          case ref: (Inr payload_ref)
          let ?row = "payload_row dp ev payload_hash payload_ref redacted"
          have "reaches_insert dp msg st ev payload_hash ?row st1"
            using Inr \<open>decode_and_validate (dp_unmarshal dp) (im_value msg) = Inr ev0\<close> evp red hash put ref
            unfolding reaches_insert_def by blast
          moreover have "ingest_decoded dp msg ev0 st = insert_row dp ev payload_hash ?row st1"
            using evp red hash put ref by (simp add: ingest_decoded_def prepare_decoded_def Let_def)
          ultimately show ?thesis
            using r st' s by (intro insert [of ev payload_hash ?row st1 "snd (insert_row dp ev payload_hash ?row st1)"]) simp_all
        qed
      qed
    qed
  qed
qed


section \<open>A message in two steps\<close>

text \<open>
  \<open>ingest_prepare\<close> is \<open>IngestMessage\<close> up to the call of \<open>InsertChained\<close>, \<open>ingest_finish\<close> the rest, so that a run
  of several replicas can interleave their messages between the two.
\<close>

definition ingest_prepare ::
  "('e, 'o, 'd) deps \<Rightarrow> message \<Rightarrow> ('e, 'o, 'd) ingest_state \<Rightarrow>
   (ingest_result + envelope \<times> bytes \<times> event) \<times> ('e, 'o, 'd) ingest_state" where
  "ingest_prepare dp msg st =
     (case decode_and_validate (dp_unmarshal dp) (im_value msg) of
        Inl err \<Rightarrow>
          (Inl (rejected (''decode: '' @ dp_error_text dp err) ''''),
           dead_letter_msg dp msg (im_value msg) (''decode: '' @ dp_error_text dp err)
             (bump (IngestRejections ''unknown'' ''decode'') st))
      | Inr ev0 \<Rightarrow>
          (case prepare_decoded dp msg ev0 st of
             (Inl r, st') \<Rightarrow> (Inl r, bump (IngestLatency (env_source_service ev0)) st')
           | (Inr ready, st') \<Rightarrow> (Inr ready, st')))"

definition ingest_finish ::
  "('e, 'o, 'd) deps \<Rightarrow> envelope \<Rightarrow> bytes \<Rightarrow> event \<Rightarrow> ('e, 'o, 'd) ingest_state \<Rightarrow>
   ingest_result \<times> ('e, 'o, 'd) ingest_state" where
  "ingest_finish dp ev payload_hash row st =
     (let r = insert_row dp ev payload_hash row st in
      (fst r, bump (IngestLatency (env_source_service ev)) (snd r)))"

text \<open>A message prepared for its insert reached it, and the event store was not touched on the way.\<close>

lemma prepare_ready:
  assumes "ingest_prepare dp msg st = (Inr (ev, payload_hash, row), st')"
  shows "reaches_insert dp msg st ev payload_hash row st'"
proof -
  obtain ev0 where dec: "decode_and_validate (dp_unmarshal dp) (im_value msg) = Inr ev0"
    and prep: "prepare_decoded dp msg ev0 st = (Inr (ev, payload_hash, row), st')"
    using assms by (auto simp: ingest_prepare_def split: sum.splits prod.splits)
  obtain payload where check: "check_payload ev0 = Some (ev, payload)"
    using prep by (auto simp: prepare_decoded_def Let_def split: option.splits sum.splits prod.splits)
  obtain body redacted where red: "redact_payload dp ev payload = Inr (body, redacted)"
    using prep check by (auto simp: prepare_decoded_def Let_def split: sum.splits prod.splits)
  obtain payload_ref where "decode_hash_to_bytes (env_payload_hash ev) = Inr payload_hash"
    "put_payload dp ev body st = (Inr payload_ref, st')" "row = payload_row dp ev payload_hash payload_ref redacted"
    using prep check red by (auto simp: prepare_decoded_def Let_def split: sum.splits prod.splits)
  with dec check red show ?thesis
    unfolding reaches_insert_def by blast
qed

lemma prepare_frame:
  assumes "ingest_prepare dp msg st = (r, st')"
  shows "is_events st' = is_events st"
  using assms
  by (auto simp: ingest_prepare_def prepare_decoded_def Let_def frame_simps put_payload_frame
      split: sum.splits prod.splits option.splits)

lemma prepare_dead:
  assumes "ingest_prepare dp msg st = (r, st')"
  shows "is_dead st' = is_dead st \<or> (\<exists>sink dl. dp_dead_letters dp = Some sink \<and> is_dead st' = snd (sink (is_dead st) dl))"
proof -
  have sunk: "is_dead (dead_letter_msg dp msg raw reason (bump m st)) = is_dead st \<or>
      (\<exists>sink dl. dp_dead_letters dp = Some sink \<and>
         is_dead (dead_letter_msg dp msg raw reason (bump m st)) = snd (sink (is_dead st) dl))" for raw reason m
    by (auto simp: dead_letter_msg_def Let_def frame_simps split: option.splits)
  show ?thesis
  proof (cases "is_dead st' = is_dead st")
    case False
    then obtain raw reason m where "is_dead st' = is_dead (dead_letter_msg dp msg raw reason (bump m st))"
      using assms by (auto simp: ingest_prepare_def prepare_decoded_def Let_def frame_simps dest!: put_payload_frame
          split: sum.splits prod.splits option.splits)
    with sunk [of raw reason m] show ?thesis
      by simp
  qed simp
qed

lemma ingest_in_two_steps:
  "ingest_message dp msg st =
     (case ingest_prepare dp msg st of
        (Inl r, st') \<Rightarrow> (r, st')
      | (Inr (ev, payload_hash, row), st') \<Rightarrow> ingest_finish dp ev payload_hash row st')"
proof (cases "\<exists>ev payload_hash row st'. ingest_prepare dp msg st = (Inr (ev, payload_hash, row), st')")
  case True
  then obtain ev payload_hash row st' where prep: "ingest_prepare dp msg st = (Inr (ev, payload_hash, row), st')"
    by blast
  then obtain ev0 where dec: "decode_and_validate (dp_unmarshal dp) (im_value msg) = Inr ev0"
    and "prepare_decoded dp msg ev0 st = (Inr (ev, payload_hash, row), st')"
    by (auto simp: ingest_prepare_def split: sum.splits prod.splits)
  moreover have "env_source_service ev = env_source_service ev0"
    using prepare_ready [OF prep] dec check_payload_service by (auto simp: reaches_insert_def)
  ultimately show ?thesis
    by (simp add: prep ingest_message_def ingest_decoded_def ingest_finish_def Let_def)
next
  case False
  then show ?thesis
    by (auto simp: ingest_message_def ingest_decoded_def ingest_prepare_def Let_def split: sum.splits prod.splits)
qed

section \<open>Every message is counted once\<close>

fun is_outcome :: "metric \<Rightarrow> bool" where
  "is_outcome (EventsIngested s) = True"
| "is_outcome (IngestDuplicates s) = True"
| "is_outcome (IngestRejections s l) = True"
| "is_outcome _ = False"

lemma filter_latency: "set_mset extra \<subseteq> range IngestLatency \<Longrightarrow> filter_mset is_outcome extra = {#}"
  by (rule multiset_eqI) (fastforce simp: count_eq_zero_iff)

text \<open>The outcome counter a result corresponds to.\<close>

definition outcome_of :: "ingest_result \<Rightarrow> metric \<Rightarrow> bool" where
  "outcome_of r m = (case m of
     EventsIngested s \<Rightarrow> ir_inserted r
   | IngestDuplicates s \<Rightarrow> \<not> ir_inserted r \<and> ir_reason r = ''''
   | IngestRejections s l \<Rightarrow> \<not> ir_inserted r \<and> ir_reason r \<noteq> ''''
   | _ \<Rightarrow> False)"

lemma insert_row_outcome:
  assumes "insert_row dp ev h row st = (r, st')"
  shows "\<exists>m. is_metrics st' = add_mset m (is_metrics st) \<and> is_outcome m \<and> outcome_of r m"
  using assms
  by (auto simp: insert_row_def bump_def outcome_of_def rejected_def split: prod.splits sum.splits if_splits)

lemma ingest_outcome:
  assumes "ingest_message dp msg st = (r, st')"
  shows "\<exists>m. filter_mset is_outcome (is_metrics st') = add_mset m (filter_mset is_outcome (is_metrics st)) \<and>
    outcome_of r m"
  using assms
proof (cases rule: ingest_message_paths)
  case (early label service)
  then show ?thesis
    using filter_latency by (intro exI [of _ "IngestRejections service label"]) (auto simp: outcome_of_def)
next
  case (put_failed ev body err)
  then show ?thesis
    by (intro exI [of _ "IngestRejections (env_source_service ev) ''s3_put''"]) (simp add: outcome_of_def)
next
  case (insert ev h row st1 st2)
  obtain m where m: "is_metrics st2 = add_mset m (is_metrics st1)" "is_outcome m" "outcome_of r m"
    using insert_row_outcome [OF insert(2)] by blast
  have "is_metrics st1 = is_metrics st"
    using insert(1) put_payload_frame unfolding reaches_insert_def by blast
  with insert m show ?thesis
    by (intro exI [of _ m]) (simp add: frame_simps)
qed

lemma reaches_insert_row:
  assumes "reaches_insert dp msg st ev h row st1"
  shows "is_events st1 = is_events st" and "ev_id row = env_id ev" and "envelope_hash_fn ev h = chain_hash_fn row"
    and "env_id ev \<noteq> ''''" and "\<not> is_zero (ev_ts row)" and "length h = 32"
  using assms
  by (auto simp: reaches_insert_def payload_row_def put_payload_frame envelope_hash_fn_def chain_hash_fn_def fun_eq_iff
      decode_and_validate_Inr well_formed_def dest!: check_payload_service decode_hash_length)

section \<open>The pipeline on stores that keep their contracts\<close>

locale ingesting =
  event_store inv log get list_events chain_head insert_chained set_legal_hold mark_anchored +
  object_store put body_at string_of
  for inv :: "'e \<Rightarrow> bool" and log :: "'e \<Rightarrow> event list" and get list_events chain_head
    and insert_chained set_legal_hold mark_anchored
    and put :: "time \<Rightarrow> 'o \<Rightarrow> string \<Rightarrow> put_options \<Rightarrow> bytes \<Rightarrow> bytes result \<times> 'o" and body_at +
  fixes dp :: "('e, 'o, 'd) deps" and now :: time
  assumes dp_insert: "dp_insert_chained dp = insert_chained"
    and dp_put: "dp_put dp = Some (put now)"
begin

lemma insert_row_cases:
  assumes "inv (is_events st)" and "insert_row dp ev h row st = (r, st')"
  shows "ir_inserted r \<and> ev_id row \<notin> ev_id ` set (log (is_events st)) \<and> ir_reason r = '''' \<and>
      ir_event r = Some (link_event (envelope_hash_fn ev h) (chain_tip (log (is_events st))) row) \<and>
      inv (is_events st') \<and> is_objects st' = is_objects st \<and>
      log (is_events st') =
        log_insert (link_event (envelope_hash_fn ev h) (chain_tip (log (is_events st))) row) (log (is_events st)) \<or>
    \<not> ir_inserted r \<and> ir_reason r = '''' \<and> ev_id row \<in> ev_id ` set (log (is_events st)) \<and>
      is_events st' = is_events st \<and> is_objects st' = is_objects st"
proof (cases "ev_id row \<in> ev_id ` set (log (is_events st))")
  case True
  then show ?thesis
    using assms by (auto simp: insert_row_def dp_insert insert_duplicate bump_def)
next
  case False
  then show ?thesis
    using assms(2) insert_fresh [OF assms(1) False, of "envelope_hash_fn ev h"]
    by (auto simp: insert_row_def dp_insert bump_def)
qed

text \<open>What a payload reference points to.\<close>

definition payloads_present :: "'e \<Rightarrow> 'o \<Rightarrow> bool" where
  "payloads_present es obs \<longleftrightarrow> (\<forall>e \<in> set (log es). ev_payload_ref e = '''' \<or>
     ev_payload_ref e = ev_id e \<and> (\<exists>b. body_at obs (dp_payload_bucket dp) (ev_id e) = Inr b))"

lemma put_keeps_payloads:
  assumes "payloads_present es obs" and "put now obs (dp_payload_bucket dp) opts body = (r, obs')"
  shows "payloads_present es obs'"
proof -
  have "\<exists>b. body_at obs' (dp_payload_bucket dp) i = Inr b"
    if "body_at obs (dp_payload_bucket dp) i = Inr b0" for i b0
  proof (cases "i = po_key opts")
    case True
    then show ?thesis
      using put_stores put_fails assms(2) that by (cases r) blast+
  next
    case False
    then show ?thesis
      using put_others [OF assms(2)] that by simp
  qed
  then show ?thesis
    using assms(1) unfolding payloads_present_def by blast
qed

lemma put_payload_keeps:
  assumes "payloads_present es (is_objects st)" and "put_payload dp ev body st = (r, st')"
  shows "payloads_present es (is_objects st')"
  using assms put_keeps_payloads [OF assms(1)]
  by (auto simp: put_payload_def dp_put split: if_splits prod.splits sum.splits)

lemma put_payload_ref:
  assumes "put_payload dp ev body st = (Inr payload_ref, st')"
  shows "payload_ref = '''' \<or> payload_ref = env_id ev \<and>
    body_at (is_objects st') (dp_payload_bucket dp) (env_id ev) = Inr body"
  using assms put_stores
  by (fastforce simp: put_payload_def dp_put payload_options_def split: if_splits prod.splits sum.splits)

lemma ingest_keeps:
  assumes "inv (is_events st)" and present: "payloads_present (is_events st) (is_objects st)"
    and "ingest_message dp msg st = (r, st')"
  shows "inv (is_events st') \<and> payloads_present (is_events st') (is_objects st') \<and>
    extends (log (is_events st)) (log (is_events st')) \<and>
    (\<not> ir_inserted r \<longrightarrow> is_events st' = is_events st)"
  using assms(3)
proof (cases rule: ingest_message_paths)
  case (early label service)
  with assms show ?thesis by simp
next
  case (put_failed ev body err)
  with assms show ?thesis
    using put_payload_keeps [OF present] by (metis extends_refl prod.collapse)
next
  case (insert ev h row st1 st2)
  note row = reaches_insert_row [OF insert(1)]
  obtain body payload_ref redacted where put: "put_payload dp ev body st = (Inr payload_ref, st1)"
    and row_eq: "row = payload_row dp ev h payload_ref redacted"
    using insert(1) by (auto simp: reaches_insert_def)
  have present1: "payloads_present (is_events st1) (is_objects st1)"
    using put_payload_keeps [OF present put] row(1) by simp
  have inv1: "inv (is_events st1)"
    using assms(1) row(1) by simp
  have st': "is_events st' = is_events st2" "is_objects st' = is_objects st2"
    using insert(3) by (simp_all add: frame_simps)
  let ?linked = "link_event (envelope_hash_fn ev h) (chain_tip (log (is_events st1))) row"
  show ?thesis
    using insert_row_cases [OF inv1 insert(2)]
  proof (elim disjE conjE)
    assume new: "ir_inserted r" "ev_id row \<notin> ev_id ` set (log (is_events st1))"
      and st2: "inv (is_events st2)" "is_objects st2 = is_objects st1"
        "log (is_events st2) = log_insert ?linked (log (is_events st1))"
    have fresh: "ev_key ?linked \<notin> ev_key ` set (log (is_events st1))"
      using fresh_key [OF new(2)] by simp
    have "ev_payload_ref ?linked = '''' \<or> ev_payload_ref ?linked = ev_id ?linked \<and>
        body_at (is_objects st1) (dp_payload_bucket dp) (ev_id ?linked) = Inr body"
      using put_payload_ref [OF put] row(2) by (simp add: row_eq payload_row_def link_event_def)
    then have "payloads_present (is_events st2) (is_objects st2)"
      using present1 by (auto simp: payloads_present_def st2 set_log_insert [OF fresh])
    moreover have "extends (log (is_events st)) (log (is_events st2))"
      using extends_log_insert [OF log_ascending [OF inv1] fresh] row(1) by (simp add: st2)
    ultimately show ?thesis
      using new(1) st2(1) st' by simp
  next
    assume "\<not> ir_inserted r" "is_events st2 = is_events st1" "is_objects st2 = is_objects st1"
    then show ?thesis
      using assms(1) present1 row(1) st' by simp
  qed
qed

text \<open>What an accepted message leaves in the index.\<close>

lemma ingest_inserted:
  assumes "inv (is_events st)" and "ingest_message dp msg st = (r, st')" and "ir_inserted r"
  shows "\<exists>ev row. dp_unmarshal dp (im_value msg) = Inr ev \<and> well_formed ev \<and> ir_event r = Some row \<and>
    log (is_events st') = log_insert row (log (is_events st)) \<and>
    ev_id row = env_id ev \<and> env_id ev \<notin> ev_id ` set (log (is_events st)) \<and> ev_ts row = env_ts ev \<and>
    ev_prev_hash row = chain_tip (log (is_events st)) \<and> hash_ok row \<and>
    (if env_payload ev = [] then decode_hash_to_bytes (env_payload_hash ev) = Inr (ev_payload_hash row)
     else ev_payload_hash row = sha256 (env_payload ev) \<and>
       normalize_hash (env_payload_hash ev) = hash_payload (env_payload ev))"
  using assms(2)
proof (cases rule: ingest_message_paths)
  case (insert ev h row st1 st2)
  note row = reaches_insert_row [OF insert(1)]
  obtain ev0 payload body payload_ref redacted where
    dec: "decode_and_validate (dp_unmarshal dp) (im_value msg) = Inr ev0"
    and chk: "check_payload ev0 = Some (ev, payload)"
    and hash: "decode_hash_to_bytes (env_payload_hash ev) = Inr h"
    and row_eq: "row = payload_row dp ev h payload_ref redacted"
    using insert(1) by (auto simp: reaches_insert_def)
  have inv1: "inv (is_events st1)"
    using assms(1) row(1) by simp
  let ?linked = "link_event (chain_hash_fn row) (chain_tip (log (is_events st))) row"
  have new: "ev_id row \<notin> ev_id ` set (log (is_events st))" "ir_event r = Some ?linked"
    "log (is_events st2) = log_insert ?linked (log (is_events st))"
    using insert_row_cases [OF inv1 insert(2)] assms(3) row(1,3) by simp_all
  have fields: "ev_payload_hash ?linked = h" "ev_ts ?linked = env_ts ev"
    by (simp_all add: row_eq payload_row_def link_event_def)
  have ev0: "dp_unmarshal dp (im_value msg) = Inr ev0" "well_formed ev0"
    using dec by (simp_all add: decode_and_validate_Inr)
  have "if env_payload ev0 = [] then decode_hash_to_bytes (env_payload_hash ev0) = Inr h
     else h = sha256 (env_payload ev0) \<and> normalize_hash (env_payload_hash ev0) = hash_payload (env_payload ev0)"
    using chk hash ev0(2) by (auto simp: check_payload_def Let_def well_formed_def split: if_splits)
  with ev0 new fields row(2) check_payload_service [OF chk] insert(3) show ?thesis
    by (intro exI [of _ ev0] exI [of _ ?linked]) (simp add: frame_simps)
qed (use assms(3) in simp_all)

end

end
