(* ===== verification/Consumer.thy ===== *)
theory Consumer
  imports Ingest
begin

text \<open>
  \<open>internal/kafka\<close>: the in-memory consumer group and its run loop, and the handler \<open>app.Server\<close> passes to
  it. The feed is a bounded channel. \<open>Run\<close> waits on two channels, the context and the feed; when both are
  ready Go picks either, so the loop is a step relation, one step per round. Producers (\<open>Enqueue\<close>) and
  \<open>Stop\<close> interleave with it.
\<close>

record 's fake_consumer =
  fk_feed :: "message list"
  fk_buffer :: nat
  fk_stopped :: bool
  fk_committed :: "int list"
  fk_world :: 's

definition new_fake_consumer :: "int \<Rightarrow> 's \<Rightarrow> 's fake_consumer" where
  "new_fake_consumer buffer w =
     \<lparr>fk_feed = [], fk_buffer = nat (if buffer \<le> 0 then 64 else buffer), fk_stopped = False,
      fk_committed = [], fk_world = w\<rparr>"

definition enqueue :: "message \<Rightarrow> 's fake_consumer \<Rightarrow> go_error option \<times> 's fake_consumer" where
  "enqueue msg f =
     (if fk_stopped f then (Some (ErrMsg ''kafka: fake consumer stopped''), f)
      else if length (fk_feed f) < fk_buffer f then (None, f\<lparr>fk_feed := fk_feed f @ [msg]\<rparr>)
      else (Some (ErrMsg ''kafka: fake feed full''), f))"

definition stop_consumer :: "'s fake_consumer \<Rightarrow> 's fake_consumer" where
  "stop_consumer f = (if fk_stopped f then f else f\<lparr>fk_stopped := True\<rparr>)"

text \<open>\<open>Committed\<close> copies the offsets out; \<open>PollFeed\<close> takes a message past \<open>Run\<close>, which then is neither
  handled nor committed (no message in time and a closed feed answer the same).\<close>

definition committed :: "'s fake_consumer \<Rightarrow> int list" where
  "committed f = fk_committed f"

definition poll_feed :: "'s fake_consumer \<Rightarrow> message option \<times> 's fake_consumer" where
  "poll_feed f = (case fk_feed f of [] \<Rightarrow> (None, f) | msg # rest \<Rightarrow> (Some msg, f\<lparr>fk_feed := rest\<rparr>))"

text \<open>A handler acts on the world and returns an error or nil; nil commits the offset.\<close>

type_synonym 's handler = "message \<Rightarrow> 's \<Rightarrow> go_error option \<times> 's"

definition handle_next :: "'s handler \<Rightarrow> message \<Rightarrow> message list \<Rightarrow> 's fake_consumer \<Rightarrow> 's fake_consumer" where
  "handle_next handler msg rest f =
     (let r = handler msg (fk_world f) in
      f\<lparr>fk_feed := rest, fk_world := snd r,
        fk_committed := (if fst r = None then fk_committed f @ [im_offset msg] else fk_committed f)\<rparr>)"

datatype run_status = Running | Returned "go_error option"

text \<open>One round of \<open>Run\<close>: cancelled context, closed and drained feed, or a message.\<close>

inductive run_step :: "'s handler \<Rightarrow> bool \<Rightarrow> 's fake_consumer \<Rightarrow> run_status \<Rightarrow> 's fake_consumer \<Rightarrow> bool"
  for handler :: "'s handler" where
  run_cancelled: "run_step handler True f (Returned (Some ErrContext)) f"
| run_closed: "fk_feed f = [] \<Longrightarrow> fk_stopped f \<Longrightarrow> run_step handler c f (Returned None) f"
| run_message: "fk_feed f = msg # rest \<Longrightarrow> run_step handler c f Running (handle_next handler msg rest f)"

inductive_cases run_stepE: "run_step handler c f status f'"

inductive_simps run_step_running: "run_step handler c f Running f'"

text \<open>Draining what is in the feed, round by round.\<close>

fun drain :: "'s handler \<Rightarrow> message list \<Rightarrow> 's fake_consumer \<Rightarrow> 's fake_consumer" where
  "drain handler [] f = f"
| "drain handler (msg # rest) f = drain handler rest (handle_next handler msg rest f)"

lemma run_step_drain:
  assumes "run_step handler False f status f'"
  shows "(case status of
      Running \<Rightarrow> drain handler (fk_feed f) f = drain handler (fk_feed f') f'
    | Returned err \<Rightarrow> err = None \<and> f' = f \<and> fk_feed f = [])"
  by (rule run_stepE [OF assms]) (auto simp: handle_next_def Let_def)

section \<open>The handler of the service\<close>

text \<open>
  The handler in \<open>startLoops\<close> ignores the pipeline's result and returns nil; \<open>ingest.IngestMessage_\<close> is
  built from the Kafka message field by field.
\<close>

definition app_handler ::
  "('e, 'o, 'd) deps \<Rightarrow> ('e, 'o, 'd) ingest_state handler" where
  "app_handler dp msg st =
     (let r = ingest_message dp
        \<lparr>im_topic = im_topic msg, im_partition = im_partition msg, im_offset = im_offset msg,
         im_key = im_key msg, im_value = im_value msg\<rparr> st
      in (None, snd r))"

lemma app_handler_ingest: "app_handler dp msg st = (None, snd (ingest_message dp msg st))"
  by (cases msg) (simp add: app_handler_def Let_def)

fun ingest_all :: "('e, 'o, 'd) deps \<Rightarrow> message list \<Rightarrow> ('e, 'o, 'd) ingest_state \<Rightarrow> ('e, 'o, 'd) ingest_state" where
  "ingest_all dp [] st = st"
| "ingest_all dp (m # ms) st = ingest_all dp ms (snd (ingest_message dp m st))"

lemma drain_app:
  "fk_committed (drain (app_handler dp) msgs f) = fk_committed f @ map im_offset msgs \<and>
   fk_world (drain (app_handler dp) msgs f) = ingest_all dp msgs (fk_world f)"
  by (induction msgs arbitrary: f) (simp_all add: handle_next_def Let_def app_handler_ingest)

lemma ingest_all_outcomes:
  "size (filter_mset is_outcome (is_metrics (ingest_all dp msgs st))) =
   size (filter_mset is_outcome (is_metrics st)) + length msgs"
proof (induction msgs arbitrary: st)
  case (Cons m msgs)
  obtain r st' where step: "ingest_message dp m st = (r, st')"
    by (cases "ingest_message dp m st")
  from ingest_outcome [OF step] Cons [of st'] step show ?case
    by auto
qed simp

section \<open>The pipeline over the in-memory stores\<close>

text \<open>
  The dependencies \<open>app.Build\<close> wires in development mode: the in-memory stores and the fake object store.
  The parameters come from the configuration and the clock.
\<close>

definition mem_deps ::
  "string \<Rightarrow> time \<Rightarrow> string \<Rightarrow> string \<Rightarrow> int \<Rightarrow> bool \<Rightarrow>
   (string \<Rightarrow> string \<Rightarrow> bytes \<Rightarrow> (bytes \<times> bool) result) option \<Rightarrow> string \<Rightarrow>
   (bytes \<Rightarrow> envelope result) \<Rightarrow> (go_error \<Rightarrow> string) \<Rightarrow> (mem_store, fake_s3, dead_letter_store) deps" where
  "mem_deps fresh now bucket class days hold redactor topic unmarshal error_text =
     \<lparr>dp_insert_chained = mem_insert_chained, dp_put = Some (put_adapter now), dp_payload_bucket = bucket,
      dp_storage_class = class, dp_retention_days = days, dp_legal_hold_default = hold,
      dp_redactor = redactor, dp_dead_letters = Some (mem_append_dead_letter fresh now),
      dp_topic = topic, dp_unmarshal = unmarshal, dp_error_text = error_text\<rparr>"

interpretation mem_ingest: ingesting mem_inv mem_log mem_get mem_list mem_chain_head
  mem_insert_chained mem_set_legal_hold mem_mark_anchored put_adapter s3_get
  "mem_deps fresh now bucket storage days hold redactor topic unmarshal error_text" now
  for fresh now bucket storage days hold redactor topic unmarshal error_text
  by unfold_locales (simp_all add: mem_deps_def)


text \<open>
  Messages one after the other, each with the dependencies of its moment: the clock moves on, the policy is
  reloaded. The bucket is the same for all.
\<close>

definition memory_deps :: "string \<Rightarrow> (mem_store, fake_s3, dead_letter_store) deps \<Rightarrow> bool" where
  "memory_deps bucket dp \<longleftrightarrow> (\<exists>fresh now storage days hold redactor topic unmarshal error_text.
     dp = mem_deps fresh now bucket storage days hold redactor topic unmarshal error_text)"

fun ingest_feed :: "(('e, 'o, 'd) deps \<times> message) list \<Rightarrow> ('e, 'o, 'd) ingest_state \<Rightarrow> ('e, 'o, 'd) ingest_state" where
  "ingest_feed [] st = st"
| "ingest_feed ((dp, m) # ms) st = ingest_feed ms (snd (ingest_message dp m st))"

definition feed_ok :: "string \<Rightarrow> (mem_store, fake_s3, dead_letter_store) ingest_state \<Rightarrow> bool" where
  "feed_ok bucket st \<longleftrightarrow> mem_inv (is_events st) \<and>
     (\<forall>e \<in> set (mem_log (is_events st)). ev_payload_ref e = '''' \<or>
        ev_payload_ref e = ev_id e \<and> (\<exists>b. s3_get (is_objects st) bucket (ev_id e) = Inr b))"

lemma ingest_feed_keeps:
  assumes "\<forall>x \<in> set feed. memory_deps bucket (fst x)" and "feed_ok bucket st"
  shows "feed_ok bucket (ingest_feed feed st) \<and>
    extends (mem_log (is_events st)) (mem_log (is_events (ingest_feed feed st)))"
  using assms
proof (induction feed arbitrary: st)
  case (Cons x feed)
  obtain dp m where x: "x = (dp, m)"
    by (cases x)
  obtain fresh now storage days hold redactor topic unmarshal error_text where
    dp: "dp = mem_deps fresh now bucket storage days hold redactor topic unmarshal error_text"
    using Cons.prems(1) by (auto simp: x memory_deps_def)
  obtain r st' where step: "ingest_message dp m st = (r, st')"
    by (cases "ingest_message dp m st")
  note present = mem_ingest.payloads_present_def [of fresh now bucket storage days hold redactor topic unmarshal error_text, folded dp]
  have "dp_payload_bucket dp = bucket"
    by (simp add: dp mem_deps_def)
  then have "feed_ok bucket st' \<and> extends (mem_log (is_events st)) (mem_log (is_events st'))"
    using mem_ingest.ingest_keeps [OF _ _ step [unfolded dp]] Cons.prems(2)
    by (simp add: feed_ok_def present flip: dp)
  with Cons.IH [of st'] Cons.prems(1) step show ?case
    by (auto simp: x intro: extends_trans)
qed simp

lemma put_rejected_message:
  assumes "decode_and_validate (dp_unmarshal dp) (im_value msg) = Inr ev0"
    and "check_payload ev0 = Some (ev, payload)" and "redact_payload dp ev payload = Inr (body, redacted)"
    and "decode_hash_to_bytes (env_payload_hash ev) = Inr payload_hash"
    and "put_payload dp ev body st = (Inl err, st')"
  shows "ingest_message dp msg st = (rejected (''s3 put: '' @ dp_error_text dp err) (env_id ev),
    bump (IngestLatency (env_source_service ev0)) (bump (IngestRejections (env_source_service ev0) ''s3_put'') st'))"
  using assms by (simp add: ingest_message_def ingest_decoded_def prepare_decoded_def Let_def)

text \<open>A message with a payload body, for closed instances: the envelope is what the decoder returns.\<close>

definition sample_envelope :: envelope where
  "sample_envelope =
     \<lparr>env_id = ''a'', env_ts = Time 1, env_source_service = ''orch'', env_actor_id = ''u'',
      env_action = ''tx.initiated'', env_target_type = ''transaction'', env_target_id = ''t'',
      env_payload_hash = hash_payload [7], env_payload = [7], env_prev_hash = '''', env_this_hash = '''',
      env_redaction = ''''\<rparr>"

definition sample_message :: message where
  "sample_message = \<lparr>im_topic = ''audit.v1'', im_partition = 0, im_offset = 42, im_key = [], im_value = [1]\<rparr>"

definition sample_deps :: "time \<Rightarrow> (mem_store, fake_s3, dead_letter_store) deps" where
  "sample_deps now = mem_deps ''f'' now ''b'' ''STANDARD'' 2555 False None ''audit.v1''
     (\<lambda>b. Inr sample_envelope) (\<lambda>e. '''')"

definition empty_world :: "(mem_store, fake_s3, dead_letter_store) ingest_state" where
  "empty_world = \<lparr>is_events = ma_events new_all, is_objects = new_fake_s3, is_dead = ma_dead_letters new_all, is_metrics = {#}\<rparr>"

lemma sample_steps:
  "decode_and_validate (dp_unmarshal (sample_deps now)) (im_value sample_message) = Inr sample_envelope"
  "check_payload sample_envelope = Some (sample_envelope, [7])"
  "redact_payload (sample_deps now) sample_envelope [7] = Inr ([7], False)"
  "decode_hash_to_bytes (env_payload_hash sample_envelope) = Inr (sha256 [7])"
proof -
  show "decode_and_validate (dp_unmarshal (sample_deps now)) (im_value sample_message) = Inr sample_envelope"
    by (simp add: decode_and_validate_Inr sample_deps_def mem_deps_def sample_message_def well_formed_def
        sample_envelope_def hash_payload_def is_zero_def zero_time_def)
  have "normalize_hash (hash_payload [7]) = hash_payload [7]"
    by (simp add: hash_payload_def)
  then show "check_payload sample_envelope = Some (sample_envelope, [7])"
    by (simp add: check_payload_def sample_envelope_def)
  show "redact_payload (sample_deps now) sample_envelope [7] = Inr ([7], False)"
    by (simp add: redact_payload_def sample_deps_def mem_deps_def)
  show "decode_hash_to_bytes (env_payload_hash sample_envelope) = Inr (sha256 [7])"
    by (simp add: sample_envelope_def)
qed

lemma sample_ingest:
  "ir_inserted (fst (ingest_message (sample_deps now) sample_message empty_world)) \<and>
   (\<exists>row. ir_event (fst (ingest_message (sample_deps now) sample_message empty_world)) = Some row \<and>
      ev_id row = ''a'' \<and> ev_payload_ref row = ''a'')"
proof -
  have "env_id sample_envelope \<notin> ev_id ` set (mem_log (is_events empty_world))"
    by (simp add: empty_world_def)
  have put: "put_payload (sample_deps now) sample_envelope [7] empty_world =
      (Inr ''a'', empty_world\<lparr>is_objects := [(''b/a'', stored_object now ''b'' (payload_options (sample_deps now) sample_envelope) [7])]\<rparr>)"
    by (simp add: put_payload_def sample_deps_def mem_deps_def put_adapter_def s3_put_def empty_world_def
        payload_options_def sample_envelope_def object_path_def Let_def)
  show ?thesis
    using sample_steps put
    by (simp add: ingest_message_def ingest_decoded_def prepare_decoded_def Let_def insert_row_def sample_deps_def mem_deps_def
        mem_insert_chained_def empty_world_def new_event_store_def bump_def payload_row_def sample_envelope_def)
qed

section \<open>Properties\<close>

text \<open>
  Property C6. What an accepted message leaves behind: the event was well formed and its id new; exactly
  one row is added to the log, linked to the newest row and carrying its own correct hash; its payload
  hash is the SHA-256 of the body as received, before redaction, and agrees with the hash the producer
  claimed (for a message without a body it is the claimed hash).
\<close>

theorem accepted_message_adds_one_row:
  assumes "mem_inv (is_events st)"
    and "dp = mem_deps fresh now bucket storage days hold redactor topic unmarshal error_text"
    and "ingest_message dp msg st = (r, st')" and "ir_inserted r"
  shows "\<exists>ev row. unmarshal (im_value msg) = Inr ev \<and> well_formed ev \<and> ir_event r = Some row \<and>
    mem_log (is_events st') = log_insert row (mem_log (is_events st)) \<and>
    ev_id row = env_id ev \<and> env_id ev \<notin> ev_id ` set (mem_log (is_events st)) \<and> ev_ts row = env_ts ev \<and>
    ev_prev_hash row = chain_tip (mem_log (is_events st)) \<and> ev_this_hash row = event_hash row \<and>
    (if env_payload ev = [] then decode_hash_to_bytes (env_payload_hash ev) = Inr (ev_payload_hash row)
     else ev_payload_hash row = sha256 (env_payload ev) \<and>
       normalize_hash (env_payload_hash ev) = hash_payload (env_payload ev))"
  using mem_ingest.ingest_inserted [OF assms(1) assms(3)[unfolded assms(2)] assms(4)]
  by (simp add: mem_deps_def hash_ok_def)

theorem accepted_message_adds_one_row_witness:
  "\<exists>ev row. Inr sample_envelope = (Inr ev :: envelope result) \<and>
     mem_log (is_events (snd (ingest_message (sample_deps (Time 5)) sample_message empty_world))) = log_insert row [] \<and>
     ev_payload_hash row = sha256 [7] \<and> env_payload ev = [7]"
proof -
  let ?r = "ingest_message (sample_deps (Time 5)) sample_message empty_world"
  have "mem_inv (is_events empty_world)" "?r = (fst ?r, snd ?r)"
    by (simp_all add: empty_world_def)
  from accepted_message_adds_one_row [OF this(1) sample_deps_def this(2) sample_ingest [THEN conjunct1]]
  show ?thesis
    by (auto simp: sample_envelope_def empty_world_def)
qed

text \<open>
  Property C20. Through any sequence of messages, good or bad, the index keeps its invariant and only
  grows (its rows stay, in their order), and no row refers to a payload that is not there: the object is
  written before the row, and neither a later write nor a failed one takes it away. The pipeline runs over
  the in-memory stores; the clock, the policy and every other setting but the bucket may differ from message
  to message.
\<close>

theorem referenced_payloads_exist:
  assumes "\<forall>x \<in> set feed \<union> set feed'. memory_deps bucket (fst x)"
  defines "st \<equiv> ingest_feed feed empty_world"
  defines "st' \<equiv> ingest_feed feed' st"
  shows "mem_inv (is_events st') \<and> extends (mem_log (is_events st)) (mem_log (is_events st')) \<and>
    (\<forall>e \<in> set (mem_log (is_events st')). ev_payload_ref e = '''' \<or>
       ev_payload_ref e = ev_id e \<and> (\<exists>b. s3_get (is_objects st') bucket (ev_id e) = Inr b))"
proof -
  have "feed_ok bucket empty_world"
    by (simp add: feed_ok_def empty_world_def)
  then have "feed_ok bucket st"
    using ingest_feed_keeps [of feed bucket] assms(1) by (simp add: st_def)
  then show ?thesis
    using ingest_feed_keeps [of feed' bucket st] assms(1) by (simp add: st'_def feed_ok_def)
qed

theorem referenced_payloads_exist_witness:
  "let st = ingest_feed [(sample_deps (Time 5), sample_message)] empty_world;
       st' = ingest_feed [(sample_deps (Time 6), sample_message)] st in
   \<exists>e b. e \<in> set (mem_log (is_events st')) \<and> ev_payload_ref e = ''a'' \<and> s3_get (is_objects st') ''b'' ''a'' = Inr b"
proof -
  define st where "st = ingest_feed [(sample_deps (Time 5), sample_message)] empty_world"
  define st' where "st' = ingest_feed [(sample_deps (Time 6), sample_message)] st"
  have wired: "memory_deps ''b'' (sample_deps now)" for now
    unfolding memory_deps_def sample_deps_def by blast
  have kept: "extends (mem_log (is_events st)) (mem_log (is_events st')) \<and>
      (\<forall>e \<in> set (mem_log (is_events st')). ev_payload_ref e = '''' \<or>
         ev_payload_ref e = ev_id e \<and> (\<exists>b. s3_get (is_objects st') ''b'' (ev_id e) = Inr b))"
    using referenced_payloads_exist [of "[(sample_deps (Time 5), sample_message)]" "[(sample_deps (Time 6), sample_message)]" "''b''"]
      wired unfolding st_def st'_def by simp
  obtain row where row: "ir_event (fst (ingest_message (sample_deps (Time 5)) sample_message empty_world)) = Some row"
    "ev_id row = ''a''" "ev_payload_ref row = ''a''"
    using sample_ingest by blast
  have "row \<in> set (mem_log (is_events st))"
    using mem_ingest.ingest_inserted [where st = empty_world and msg = sample_message, OF _ _ sample_ingest [of "Time 5", THEN conjunct1],
        unfolded sample_deps_def, OF _ surjective_pairing] row(1)
    by (auto simp: empty_world_def st_def sample_deps_def log_insert_def)
  with kept obtain e where e: "e \<in> set (mem_log (is_events st'))" "immutable_part e = immutable_part row"
    by (auto simp: extends_def)
  from arg_cong [OF e(2), of ev_payload_ref] have "ev_payload_ref e = ''a''"
    using row(3) by (simp add: immutable_part_def)
  with kept row(2) e have "e \<in> set (mem_log (is_events st')) \<and> ev_payload_ref e = ''a'' \<and>
      (\<exists>b. s3_get (is_objects st') ''b'' ''a'' = Inr b)"
    by fastforce
  then show ?thesis
    unfolding st_def st'_def Let_def by blast
qed

text \<open>
  Property C21. Every message is accounted for exactly once: draining a feed with the service's handler
  commits every offset in order and increases the sum of the counters for ingested, duplicate and
  rejected events by the number of messages. The handler commits whatever the pipeline's result was.
\<close>

theorem every_message_is_counted_and_committed:
  "fk_committed (drain (app_handler dp) msgs f) = fk_committed f @ map im_offset msgs \<and>
   size (filter_mset is_outcome (is_metrics (fk_world (drain (app_handler dp) msgs f)))) =
     size (filter_mset is_outcome (is_metrics (fk_world f))) + length msgs"
  using drain_app [of dp msgs f] by (simp add: ingest_all_outcomes)

text \<open>
  Property C28. A message whose payload cannot be written is lost: if the object store fails, the row is
  not inserted, no dead letter is recorded, and yet the offset is committed, so the broker will not
  deliver it again. The README promises at-least-once ingestion.
\<close>

theorem failed_payload_write_loses_message:
  fixes f :: "('e, 'o, 'd) ingest_state fake_consumer" and rest :: "message list"
  assumes "decode_and_validate (dp_unmarshal dp) (im_value msg) = Inr ev0"
    and "check_payload ev0 = Some (ev, payload)" and "redact_payload dp ev payload = Inr (body, redacted)"
    and "decode_hash_to_bytes (env_payload_hash ev) = Inr payload_hash"
    and "fst (put_payload dp ev body (fk_world f)) = Inl err"
  defines "f' \<equiv> handle_next (app_handler dp) msg rest f"
  shows "fk_committed f' = fk_committed f @ [im_offset msg] \<and>
    is_events (fk_world f') = is_events (fk_world f) \<and> is_dead (fk_world f') = is_dead (fk_world f)"
proof -
  obtain st' where put: "put_payload dp ev body (fk_world f) = (Inl err, st')"
    using assms(5) by (metis prod.collapse)
  from put_rejected_message [OF assms(1-4) put] put_payload_frame [OF put] show ?thesis
    by (simp add: f'_def handle_next_def app_handler_ingest Let_def frame_simps)
qed

theorem failed_payload_write_loses_message_witness:
  "let dp = (sample_deps (Time 5))\<lparr>dp_put := Some (\<lambda>s b opts body. (Inl (ErrMsg ''down''), s))\<rparr>;
       f = new_fake_consumer 8 empty_world in
   fk_committed (handle_next (app_handler dp) sample_message [] f) = [42]"
proof -
  let ?dp = "(sample_deps (Time 5))\<lparr>dp_put := Some (\<lambda>s b opts body. (Inl (ErrMsg ''down''), s))\<rparr>"
  let ?f = "new_fake_consumer 8 empty_world"
  note s = sample_steps
  have "decode_and_validate (dp_unmarshal ?dp) (im_value sample_message) = Inr sample_envelope"
    "redact_payload ?dp sample_envelope [7] = Inr ([7], False)"
    using s(1,3) by (simp_all add: redact_payload_def sample_deps_def mem_deps_def)
  moreover have "fst (put_payload ?dp sample_envelope [7] (fk_world ?f)) = Inl (ErrMsg ''down'')"
    by (simp add: put_payload_def sample_deps_def mem_deps_def)
  ultimately have "fk_committed (handle_next (app_handler ?dp) sample_message [] ?f) =
      fk_committed ?f @ [im_offset sample_message]"
    using failed_payload_write_loses_message [OF _ s(2) _ s(4), of ?dp sample_message "[7]" False ?f] by blast
  then show ?thesis
    by (simp add: new_fake_consumer_def sample_message_def)
qed


text \<open>
  Property C29. A re-delivered message with a payload is not recognised as a duplicate while the first
  payload is under retention: the object store refuses the second write before the index is asked, so the
  message is counted as an \<open>s3_put\<close> rejection and not as a duplicate. The index is unchanged and no dead
  letter is written. This is over the in-memory stores, with a positive retention setting, for a message whose
  first delivery was inserted with its payload stored; the redaction policy is any, but the same for both
  deliveries.
\<close>

theorem redelivery_is_rejected_not_deduplicated:
  assumes "dp = mem_deps fresh now bucket storage days hold redactor topic unmarshal error_text"
    and "dp2 = mem_deps fresh2 now2 bucket storage days hold redactor topic unmarshal error_text"
    and "ingest_message dp msg st = (r, st1)" and "ir_inserted r"
    and "ir_event r = Some row" and "ev_payload_ref row \<noteq> ''''"
    and "0 < days" and "now2 < add_duration now (days_duration days)"
    and "ingest_message dp2 msg st1 = (r2, st2)"
  shows "\<not> ir_inserted r2 \<and> ir_reason r2 = ''s3 put: '' @ error_text (ErrRetentionActive (ev_id row)) \<and>
    is_events st2 = is_events st1 \<and> is_dead st2 = is_dead st1 \<and>
    is_metrics st2 = is_metrics st1 + {#IngestRejections (ev_source_service row) ''s3_put'', IngestLatency (ev_source_service row)#}"
  using assms(3)
proof (cases rule: ingest_message_paths)
  case (insert ev h row0 st2 st3)
  obtain ev0 payload body redacted payload_ref where
    dec: "decode_and_validate (dp_unmarshal dp) (im_value msg) = Inr ev0"
    and chk: "check_payload ev0 = Some (ev, payload)" and red: "redact_payload dp ev payload = Inr (body, redacted)"
    and hash: "decode_hash_to_bytes (env_payload_hash ev) = Inr h"
    and put: "put_payload dp ev body st = (Inr payload_ref, st2)" and row0: "row0 = payload_row dp ev h payload_ref redacted"
    using insert(1) by (auto simp: reaches_insert_def)
  have row: "ev_id row = env_id ev" "ev_source_service row = env_source_service ev" "ev_payload_ref row = payload_ref"
    using insert(2) assms(1,5) row0
    by (auto simp: insert_row_def mem_deps_def mem_insert_chained_def payload_row_def Let_def
        split: prod.splits sum.splits if_splits option.splits)
  have stored: "bucket \<noteq> ''''" "body \<noteq> []"
    using put row(3) assms(1,6) by (auto simp: put_payload_def mem_deps_def split: if_splits)
  have opts: "payload_options dp2 ev = payload_options dp ev"
    by (simp add: payload_options_def assms(1,2) mem_deps_def)
  obtain key where "put_adapter now (is_objects st) bucket (payload_options dp ev) body = (Inr key, is_objects st2)"
    using put assms(1) stored by (auto simp: put_payload_def mem_deps_def split: prod.splits sum.splits)
  then have objs: "is_objects st2 = AList.update (object_path bucket (env_id ev))
      (stored_object now bucket (payload_options dp ev) body) (is_objects st)"
    using put_adapter_cases by (fastforce simp: payload_options_def)
  have "is_objects st3 = is_objects st2"
    using insert(2) by (auto simp: insert_row_def bump_def split: prod.splits sum.splits if_splits)
  then have at: "map_of (is_objects st1) (object_path bucket (env_id ev)) =
      Some (stored_object now bucket (payload_options dp ev) body)"
    using insert(3) by (simp add: frame_simps objs update_conv')
  have "is_retained now2 (stored_object now bucket (payload_options dp ev) body)"
    using assms(1,7,8) by (simp add: is_retained_def payload_options_def mem_deps_def)
  with at have refused: "put_payload dp2 ev body st1 = (Inl (ErrRetentionActive (env_id ev)), st1)"
    using assms(2) stored
    by (simp add: put_payload_def mem_deps_def put_adapter_def s3_put_def Let_def payload_options_def)
  have "decode_and_validate (dp_unmarshal dp2) (im_value msg) = Inr ev0"
    "redact_payload dp2 ev payload = Inr (body, redacted)"
    using dec red by (simp_all add: assms(1,2) mem_deps_def redact_payload_def)
  from put_rejected_message [OF this(1) chk this(2) hash refused] check_payload_service [OF chk] assms(9) show ?thesis
    by (auto simp: assms(2) mem_deps_def frame_simps rejected_def row)
qed (use assms(4) in simp_all)

theorem redelivery_is_rejected_not_deduplicated_witness:
  "\<exists>st1 st2. st1 = snd (ingest_message (sample_deps (Time 5)) sample_message empty_world) \<and>
     st2 = snd (ingest_message (sample_deps (Time 6)) sample_message st1) \<and> is_events st2 = is_events st1 \<and>
     size (is_metrics st2) = size (is_metrics st1) + 2"
proof -
  obtain r st1 where first: "ingest_message (sample_deps (Time 5)) sample_message empty_world = (r, st1)"
    by (metis prod.exhaust)
  obtain r2 st2 where second: "ingest_message (sample_deps (Time 6)) sample_message st1 = (r2, st2)"
    by (metis prod.exhaust)
  obtain row where row: "ir_inserted r" "ir_event r = Some row" "ev_payload_ref row \<noteq> ''''"
    using sample_ingest [of "Time 5"] first by auto
  have "Time 6 < add_duration (Time 5) (days_duration 2555)"
    by (simp add: days_duration_exact add_duration_def)
  from redelivery_is_rejected_not_deduplicated [OF sample_deps_def sample_deps_def first row _ this second]
  show ?thesis
    using first second by (intro exI [of _ st1] exI [of _ st2]) simp
qed

end
