(* ===== verification/Config.thy ===== *)
theory Config
  imports Gostd
begin

text \<open>
  \<open>internal/config\<close>: the configuration read from the environment. The environment is a map from names
  to values, an unset variable reading as the empty string; \<open>time.ParseDuration\<close> is the parameter
  \<open>parse_dur\<close> (nanoseconds), the Unicode case table is \<open>tab\<close>. A malformed value falls back to its default.
\<close>

record config =
  cfg_port :: string
  cfg_kafka_brokers :: "string list"
  cfg_kafka_topic :: string
  cfg_kafka_consumer_group :: string
  cfg_db_url :: string
  cfg_payload_bucket :: string
  cfg_payload_storage_class :: string
  cfg_glacier_transition_days :: int
  cfg_deep_archive_transition_days :: int
  cfg_retention_days :: int
  cfg_chain_anchor_interval :: int
  cfg_kms_key_id :: string
  cfg_external_notary_url :: string
  cfg_redaction_policy_path :: string
  cfg_log_level :: string
  cfg_legal_hold_default :: bool

type_synonym env = "string \<rightharpoonup> string"

definition getenv :: "env \<Rightarrow> string \<Rightarrow> string" where
  "getenv en k = (case en k of None \<Rightarrow> '''' | Some v \<Rightarrow> v)"

definition env_or :: "env \<Rightarrow> string \<Rightarrow> string \<Rightarrow> string" where
  "env_or en k def = (let v = getenv en k in if v \<noteq> '''' then v else def)"

definition env_int :: "env \<Rightarrow> string \<Rightarrow> int \<Rightarrow> int" where
  "env_int en k def =
     (let v = getenv en k in
      if v \<noteq> '''' then (case atoi v of Some n \<Rightarrow> n | None \<Rightarrow> def) else def)"

definition minute :: int where
  "minute = 60000000000"

text \<open>\<open>time.Duration(n) * time.Minute\<close> wraps around in \<open>int64\<close>.\<close>

definition env_dur :: "(string \<Rightarrow> int option) \<Rightarrow> env \<Rightarrow> string \<Rightarrow> int \<Rightarrow> int" where
  "env_dur parse_dur en k def =
     (let v = getenv en k in
      if v \<noteq> '''' then
        (case parse_dur v of
           Some d \<Rightarrow> d
         | None \<Rightarrow>
             (case atoi v of
                Some n \<Rightarrow> sint (word_of_int n * word_of_int minute :: 64 word)
              | None \<Rightarrow> def))
      else def)"

definition env_bool :: "(string \<Rightarrow> string) \<Rightarrow> env \<Rightarrow> string \<Rightarrow> bool \<Rightarrow> bool" where
  "env_bool tab en k def =
     (let v = getenv en k in
      if v \<noteq> '''' then
        (let w = to_lower tab v in
         if w \<in> set [''1'', ''true'', ''yes'', ''on''] then True
         else if w \<in> set [''0'', ''false'', ''no'', ''off''] then False
         else def)
      else def)"

fun collect_parts :: "string list \<Rightarrow> string list" where
  "collect_parts [] = []"
| "collect_parts (p # ps) =
     (let q = trim_space p in if q \<noteq> '''' then q # collect_parts ps else collect_parts ps)"

definition split_csv :: "string \<Rightarrow> string list" where
  "split_csv s = (if s = '''' then [] else collect_parts (split_on (CHR '','') s))"

definition load_config :: "(string \<Rightarrow> int option) \<Rightarrow> (string \<Rightarrow> string) \<Rightarrow> env \<Rightarrow> config" where
  "load_config parse_dur tab en =
     \<lparr>cfg_port = env_or en ''PORT'' ''8080'',
      cfg_kafka_brokers = split_csv (getenv en ''KAFKA_BROKERS''),
      cfg_kafka_topic = env_or en ''KAFKA_TOPIC'' ''audit.v1'',
      cfg_kafka_consumer_group = env_or en ''KAFKA_CONSUMER_GROUP'' ''audit-event-log'',
      cfg_db_url = getenv en ''DB_URL'',
      cfg_payload_bucket = getenv en ''PAYLOAD_BUCKET'',
      cfg_payload_storage_class = env_or en ''PAYLOAD_STORAGE_CLASS'' ''STANDARD'',
      cfg_glacier_transition_days = env_int en ''GLACIER_TRANSITION_DAYS'' 90,
      cfg_deep_archive_transition_days = env_int en ''DEEP_ARCHIVE_TRANSITION_DAYS'' 365,
      cfg_retention_days = env_int en ''RETENTION_DAYS'' 2555,
      cfg_chain_anchor_interval = env_dur parse_dur en ''CHAIN_ANCHOR_INTERVAL_MINUTES'' (60 * minute),
      cfg_kms_key_id = getenv en ''KMS_KEY_ID'',
      cfg_external_notary_url = getenv en ''EXTERNAL_NOTARY_URL'',
      cfg_redaction_policy_path = env_or en ''REDACTION_POLICY_PATH'' ''/etc/audit/redaction.yaml'',
      cfg_log_level = env_or en ''LOG_LEVEL'' ''info'',
      cfg_legal_hold_default = env_bool tab en ''LEGAL_HOLD_DEFAULT'' False\<rparr>"

lemma collect_parts_words:
  "\<forall>p \<in> set ps. p \<noteq> '''' \<and> is_graphic (hd p) \<and> is_graphic (last p) \<Longrightarrow> collect_parts ps = ps"
  by (induction ps) (simp_all add: trim_space_graphic Let_def)

lemma split_csv_join:
  assumes "ps \<noteq> []" and "\<forall>p \<in> set ps. p \<noteq> '''' \<and> CHR '','' \<notin> set p \<and> is_graphic (hd p) \<and> is_graphic (last p)"
  shows "split_csv (join_with (CHR '','') ps) = ps"
proof -
  have "join_with (CHR '','') ps \<noteq> ''''"
    using assms by (cases ps rule: join_with.cases [of "(CHR '','', ps)" for ps, simplified]) auto
  then show ?thesis
    using assms split_join [of ps "CHR '',''"] collect_parts_words [of ps] by (simp add: split_csv_def)
qed

section \<open>Properties\<close>

text \<open>
  A malformed setting never takes effect: the retention period is the number in
  \<open>RETENTION_DAYS\<close> if that is a decimal \<open>int64\<close>, and 2555 days otherwise; legal hold by default is on
  exactly for the four words for true in any ASCII case; and a broker list of non-empty names without
  commas and outer white space is read back as written.
\<close>

theorem config_values:
  assumes "is_ascii (getenv en ''LEGAL_HOLD_DEFAULT'')" and "ps \<noteq> []"
    and "\<forall>p \<in> set ps. p \<noteq> '''' \<and> CHR '','' \<notin> set p \<and> is_graphic (hd p) \<and> is_graphic (last p)"
    and "en ''KAFKA_BROKERS'' = Some (join_with (CHR '','') ps)"
  shows "cfg_retention_days (load_config parse_dur tab en) =
      (case atoi (getenv en ''RETENTION_DAYS'') of Some n \<Rightarrow> n | None \<Rightarrow> 2555) \<and>
    cfg_legal_hold_default (load_config parse_dur tab en) =
      (map lower_char (getenv en ''LEGAL_HOLD_DEFAULT'') \<in> {''1'', ''true'', ''yes'', ''on''}) \<and>
    cfg_kafka_brokers (load_config parse_dur tab en) = ps"
proof -
  have "atoi '''' = None"
    by (simp add: atoi_def has_prefix_def)
  then show ?thesis
    using assms split_csv_join [OF assms(2,3)]
    by (auto simp: load_config_def env_int_def env_bool_def getenv_def Let_def to_lower_def)
qed

theorem config_values_witness:
  "cfg_kafka_brokers (load_config (\<lambda>s. None) (\<lambda>s. s) [''KAFKA_BROKERS'' \<mapsto> ''k1:9092,k2:9092'']) = [''k1:9092'', ''k2:9092'']"
  using config_values [of "[''KAFKA_BROKERS'' \<mapsto> ''k1:9092,k2:9092'']" "[''k1:9092'', ''k2:9092'']" "\<lambda>s. None" "\<lambda>s. s"]
  by (simp add: getenv_def is_ascii_def is_graphic_def)

end
