(* ===== verification/Auth.thy ===== *)
theory Auth
  imports Config Sha256 Prelude
begin

unbundle bit_operations_syntax

text \<open>
  \<open>internal/auth\<close>: HS256 service tokens and the two roles. HMAC-SHA-256 and unpadded URL-safe base64 are
  computed in full; the JSON form of the claims is the parameter \<open>parse_claims\<close> (and \<open>marshal_claims\<close>
  for \<open>Issue\<close>). The request context that carries the roles is the value the middleware passes on.
\<close>

section \<open>HMAC-SHA-256\<close>

definition hmac_key :: "bytes \<Rightarrow> bytes" where
  "hmac_key key = (let k = (if length key > 64 then sha256 key else key) in k @ replicate (64 - length k) 0)"

definition hmac_sha256 :: "bytes \<Rightarrow> bytes \<Rightarrow> bytes" where
  "hmac_sha256 key msg =
     (let k = hmac_key key in
      sha256 (map (\<lambda>b. b XOR 0x5C) k @ sha256 (map (\<lambda>b. b XOR 0x36) k @ msg)))"

section \<open>base64.RawURLEncoding\<close>

definition b64_char :: "nat \<Rightarrow> char" where
  "b64_char n =
     (if n < 26 then char_of (65 + n) else if n < 52 then char_of (71 + n)
      else if n < 62 then char_of (n - 4) else if n = 62 then CHR ''-'' else CHR ''_'')"

definition b64_value :: "char \<Rightarrow> nat option" where
  "b64_value c =
     (let n = of_char c :: nat in
      if 65 \<le> n \<and> n \<le> 90 then Some (n - 65) else if 97 \<le> n \<and> n \<le> 122 then Some (n - 71)
      else if 48 \<le> n \<and> n \<le> 57 then Some (n + 4) else if n = 45 then Some 62
      else if n = 95 then Some 63 else None)"

fun b64_encode :: "bytes \<Rightarrow> string" where
  "b64_encode [] = []"
| "b64_encode [a] = (let x = unat a in [b64_char (x div 4), b64_char (x mod 4 * 16)])"
| "b64_encode [a, b] =
     (let x = unat a; y = unat b in
      [b64_char (x div 4), b64_char (x mod 4 * 16 + y div 16), b64_char (y mod 16 * 4)])"
| "b64_encode (a # b # c # rest) =
     (let x = unat a; y = unat b; z = unat c in
      [b64_char (x div 4), b64_char (x mod 4 * 16 + y div 16), b64_char (y mod 16 * 4 + z div 64), b64_char (z mod 64)]
      @ b64_encode rest)"

text \<open>
  Decoding: line breaks are skipped, any other character outside the alphabet is an error, and so is a
  single left-over character; unused bits of the last character are ignored.
\<close>

fun b64_groups :: "nat list \<Rightarrow> bytes option" where
  "b64_groups [] = Some []"
| "b64_groups [p] = None"
| "b64_groups [p, q] = Some [word_of_nat (p * 4 + q div 16)]"
| "b64_groups [p, q, r] = Some [word_of_nat (p * 4 + q div 16), word_of_nat (q mod 16 * 16 + r div 4)]"
| "b64_groups (p # q # r # s # rest) =
     (case b64_groups rest of
        None \<Rightarrow> None
      | Some bs \<Rightarrow> Some ([word_of_nat (p * 4 + q div 16), word_of_nat (q mod 16 * 16 + r div 4),
          word_of_nat (r mod 4 * 64 + s)] @ bs))"

definition b64_decode :: "string \<Rightarrow> bytes result" where
  "b64_decode s =
     (let skip = (\<lambda>c. c = CHR 0x0A \<or> c = CHR 0x0D); cs = List.filter (\<lambda>c. \<not> skip c) s; vs = map b64_value cs;
          corrupt = (\<lambda>n. Inl (ErrMsg (''illegal base64 data at input byte '' @ int_text (int n)))) in
      if None \<in> set vs then corrupt (length (takeWhile (\<lambda>c. skip c \<or> b64_value c \<noteq> None) s))
      else case b64_groups (map the vs) of
             None \<Rightarrow> corrupt (length s - 1)
           | Some bs \<Rightarrow> Inr bs)"

lemma b64_value_char [simp]: "n < 64 \<Longrightarrow> b64_value (b64_char n) = Some n"
  by (auto simp: b64_value_def b64_char_def Let_def)

lemma b64_char_not_special:
  "n < 64 \<Longrightarrow> b64_char n \<noteq> CHR 0x0A" "n < 64 \<Longrightarrow> b64_char n \<noteq> CHR 0x0D" "n < 64 \<Longrightarrow> b64_char n \<noteq> CHR ''.''"
  using b64_value_char [of n] by (auto simp: b64_value_def)

fun b64_values :: "bytes \<Rightarrow> nat list" where
  "b64_values [] = []"
| "b64_values [a] = (let x = unat a in [x div 4, x mod 4 * 16])"
| "b64_values [a, b] = (let x = unat a; y = unat b in [x div 4, x mod 4 * 16 + y div 16, y mod 16 * 4])"
| "b64_values (a # b # c # rest) =
     (let x = unat a; y = unat b; z = unat c in
      [x div 4, x mod 4 * 16 + y div 16, y mod 16 * 4 + z div 64, z mod 64] @ b64_values rest)"

lemma unat_byte: "unat (b :: byte) < 256"
  using unsigned_less [of b] by simp

lemma b64_encode_values: "b64_encode bs = map b64_char (b64_values bs)"
  by (induction bs rule: b64_values.induct) (simp_all add: Let_def)

lemma b64_values_range: "\<forall>v \<in> set (b64_values bs). v < 64"
proof (induction bs rule: b64_values.induct)
  case (2 a)
  show ?case using unat_byte [of a] by (simp add: Let_def)
next
  case (3 a b)
  show ?case using unat_byte [of a] unat_byte [of b] by (simp add: Let_def) linarith
next
  case (4 a b c rest)
  then show ?case using unat_byte [of a] unat_byte [of b] unat_byte [of c] by (simp add: Let_def) linarith
qed simp

lemma digit16: "w < 16 \<Longrightarrow> (v * 16 + w) div 16 = v" "w < 16 \<Longrightarrow> (v * 16 + w) mod 16 = w" for v w :: nat
  by simp_all

lemma digit4: "w < 4 \<Longrightarrow> (v * 4 + w) div 4 = v" "w < 4 \<Longrightarrow> (v * 4 + w) mod 4 = w" for v w :: nat
  by simp_all

lemma b64_groups_values: "b64_groups (b64_values bs) = Some bs"
proof (induction bs rule: b64_values.induct)
  case (2 a)
  have "unat a div 4 * 4 + unat a mod 4 * 16 div 16 = unat a"
    by simp
  then show ?case by (simp add: Let_def)
next
  case (3 a b)
  have "unat a div 4 * 4 + (unat a mod 4 * 16 + unat b div 16) div 16 = unat a"
    "(unat a mod 4 * 16 + unat b div 16) mod 16 * 16 + unat b mod 16 * 4 div 4 = unat b"
    using unat_byte [of b] by (simp_all add: digit16)
  then show ?case by (simp add: Let_def)
next
  case (4 a b c rest)
  have "unat a div 4 * 4 + (unat a mod 4 * 16 + unat b div 16) div 16 = unat a"
    "(unat a mod 4 * 16 + unat b div 16) mod 16 * 16 + (unat b mod 16 * 4 + unat c div 64) div 4 = unat b"
    "(unat b mod 16 * 4 + unat c div 64) mod 4 * 64 + unat c mod 64 = unat c"
    using unat_byte [of b] unat_byte [of c] by (simp_all add: digit16 digit4)
  with 4 show ?case by (simp add: Let_def)
qed simp

lemma b64_decode_encode [simp]: "b64_decode (b64_encode bs) = Inr bs"
proof -
  have "List.filter (\<lambda>c. c \<noteq> CHR 0x0A \<and> c \<noteq> CHR 0x0D) (b64_encode bs) = b64_encode bs"
    using b64_values_range [of bs] b64_char_not_special by (simp add: b64_encode_values filter_id_conv)
  moreover have "map b64_value (b64_encode bs) = map Some (b64_values bs)"
    using b64_values_range [of bs] by (simp add: b64_encode_values)
  moreover have "None \<notin> set (map Some (b64_values bs))" "map the (map Some (b64_values bs)) = b64_values bs"
    by (auto simp: o_def)
  ultimately show ?thesis
    by (simp only: b64_decode_def Let_def de_Morgan_disj if_False b64_groups_values option.case)
qed

lemma b64_encode_no_dot: "CHR ''.'' \<notin> set (b64_encode bs)"
  using b64_values_range [of bs] b64_char_not_special(3) by (fastforce simp: b64_encode_values)

lemma b64_encode_inject: "b64_encode a = b64_encode b \<longleftrightarrow> a = b"
  using b64_decode_encode by (metis sum.inject(2))

section \<open>Roles\<close>

type_synonym role = string

definition role_reader :: role where "role_reader = ''audit-reader''"
definition role_admin :: role where "role_admin = ''audit-admin''"
definition role_system :: role where "role_system = ''audit-system''"

lemmas role_defs = role_reader_def role_admin_def role_system_def

type_synonym role_set = "role \<rightharpoonup> bool"

definition has_role :: "role_set \<Rightarrow> role \<Rightarrow> bool" where
  "has_role s r = (case s r of Some b \<Rightarrow> b | None \<Rightarrow> False)"

text \<open>\<open>Roles\<close>: the set in the request context; none there reads as the empty set.\<close>

definition roles_of :: "role_set option \<Rightarrow> role_set" where
  "roles_of ctx = (case ctx of Some rs \<Rightarrow> rs | None \<Rightarrow> Map.empty)"

fun has_any_of :: "role_set \<Rightarrow> role list \<Rightarrow> bool" where
  "has_any_of granted [] = False"
| "has_any_of granted (want # rest) =
     (if has_role granted want then True
      else if want = role_reader \<and> has_role granted role_admin then True
      else has_any_of granted rest)"

definition has_any :: "role_set option \<Rightarrow> role list \<Rightarrow> bool" where
  "has_any ctx required = has_any_of (roles_of ctx) required"

definition admin_services :: "env \<Rightarrow> string set" where
  "admin_services en =
     (let raw = getenv en ''AUDIT_ADMIN_SERVICES''; raw' = (if raw = '''' then ''audit-admin'' else raw) in
      set (collect_parts (split_on (CHR '','') raw')))"

section \<open>Tokens\<close>

record claims =
  cl_sub :: string
  cl_iat :: int
  cl_exp :: int

definition unix_seconds :: "time \<Rightarrow> int" where
  "unix_seconds t = nanos t div 1000000000"

definition token_mac :: "string \<Rightarrow> string \<Rightarrow> string \<Rightarrow> string" where
  "token_mac secret head body = b64_encode (hmac_sha256 (bytes_of secret) (bytes_of (head @ ''.'' @ body)))"

definition verify_token :: "(bytes \<Rightarrow> claims result) \<Rightarrow> string \<Rightarrow> string \<Rightarrow> claims result" where
  "verify_token parse_claims token secret =
     (let parts = split_on (CHR ''.'') token in
      if length parts \<noteq> 3 then Inl (ErrMsg ''malformed token'')
      else if token_mac secret (parts ! 0) (parts ! 1) \<noteq> parts ! 2 then Inl (ErrMsg ''invalid signature'')
      else case b64_decode (parts ! 1) of
             Inl err \<Rightarrow> Inl (ErrWrap ''decode payload'' err)
           | Inr body \<Rightarrow>
               (case parse_claims body of
                  Inl err \<Rightarrow> Inl (ErrWrap ''parse payload'' err)
                | Inr c \<Rightarrow> Inr c))"

text \<open>\<open>SecretFromEnv\<close>: the secret and whether to bypass authentication, or exiting the process.\<close>

datatype secret_choice = Secret string bool | Fatal string

definition secret_from_env :: "env \<Rightarrow> bool \<Rightarrow> secret_choice" where
  "secret_from_env en testing =
     (let s = getenv en ''SERVICE_TOKEN_SECRET'' in
      if s \<noteq> '''' then Secret s False
      else if getenv en ''DEV_MODE'' = ''1'' \<or> testing then Secret '''' True
      else Fatal ''SERVICE_TOKEN_SECRET not set and DEV_MODE!=1; refusing to start in production mode'')"

definition auth_skip_paths :: "string list" where
  "auth_skip_paths = [''/healthz'', ''/readyz'', ''/metrics'']"

text \<open>\<open>Middleware\<close>: the 401 message, or the role set the wrapped handler runs with.\<close>

definition authenticate ::
  "(bytes \<Rightarrow> claims result) \<Rightarrow> (go_error \<Rightarrow> string) \<Rightarrow> env \<Rightarrow> string \<Rightarrow> bool \<Rightarrow> time \<Rightarrow> string \<Rightarrow> string \<Rightarrow>
   string + role_set" where
  "authenticate parse_claims error_text en secret bypass now path authorization =
     (if bypass \<or> path \<in> set auth_skip_paths then Inr [role_admin \<mapsto> True, role_reader \<mapsto> True]
      else if \<not> has_prefix authorization ''Bearer '' then Inl ''missing or malformed Authorization header''
      else case verify_token parse_claims (trim_prefix authorization ''Bearer '') secret of
             Inl err \<Rightarrow> Inl (error_text err)
           | Inr c \<Rightarrow>
               if unix_seconds now > cl_exp c then Inl ''token expired''
               else Inr (if cl_sub c \<in> admin_services en then [role_reader \<mapsto> True, role_admin \<mapsto> True]
                         else [role_reader \<mapsto> True]))"

definition issue_token :: "(claims \<Rightarrow> bytes) \<Rightarrow> bytes \<Rightarrow> time \<Rightarrow> string \<Rightarrow> string \<Rightarrow> string result" where
  "issue_token marshal_claims header now service secret =
     (if secret = '''' then Inl (ErrMsg ''auth: secret is required to issue a token'')
      else let c = \<lparr>cl_sub = service, cl_iat = unix_seconds now,
                    cl_exp = unix_seconds (Time (nanos now + 24 * 3600000000000))\<rparr>;
               head = b64_encode header; body = b64_encode (marshal_claims c)
           in Inr (head @ ''.'' @ body @ ''.'' @ token_mac secret head body))"

lemma split_token:
  assumes "CHR ''.'' \<notin> set a" and "CHR ''.'' \<notin> set b" and "CHR ''.'' \<notin> set c"
  shows "split_on (CHR ''.'') (a @ ''.'' @ b @ ''.'' @ c) = [a, b, c]"
  using split_join [of "[a, b, c]" "CHR ''.''"] assms by simp

lemma verify_token_Inr:
  assumes "verify_token parse_claims token secret = Inr c"
  shows "\<exists>head body. token = head @ ''.'' @ body @ ''.'' @ token_mac secret head body \<and>
    (\<exists>json. b64_decode body = Inr json \<and> parse_claims json = Inr c)"
proof -
  obtain head body sig where parts: "split_on (CHR ''.'') token = [head, body, sig]"
    using assms by (auto simp: verify_token_def Let_def length_Suc_conv numeral_3_eq_3 split: if_splits)
  then have "token = head @ ''.'' @ body @ ''.'' @ sig"
    using join_split_on [of "CHR ''.''" token] by simp
  with assms parts show ?thesis
    by (auto simp: verify_token_def Let_def split: if_splits sum.splits)
qed

lemma issued_token_verifies:
  assumes "issue_token marshal_claims header now service secret = Inr token"
    and "parse_claims (marshal_claims \<lparr>cl_sub = service, cl_iat = unix_seconds now, cl_exp = unix_seconds now + 86400\<rparr>) = Inr c"
  shows "verify_token parse_claims token secret = Inr c"
proof -
  let ?c = "\<lparr>cl_sub = service, cl_iat = unix_seconds now, cl_exp = unix_seconds now + 86400\<rparr>"
  let ?head = "b64_encode header" and ?body = "b64_encode (marshal_claims ?c)"
  have day: "unix_seconds (Time (nanos now + 24 * 3600000000000)) = unix_seconds now + 86400"
    by (simp add: unix_seconds_def)
  have token: "token = ?head @ ''.'' @ ?body @ ''.'' @ token_mac secret ?head ?body"
    using assms(1) by (simp add: issue_token_def Let_def flip: day split: if_splits)
  have "split_on (CHR ''.'') token = [?head, ?body, token_mac secret ?head ?body]"
    unfolding token token_mac_def by (rule split_token) (simp_all add: b64_encode_no_dot)
  then show ?thesis
    by (simp add: verify_token_def assms(2))
qed


lemma granted_roles [simp]:
  "has_role [role_reader \<mapsto> True] role_reader" "\<not> has_role [role_reader \<mapsto> True] role_admin"
  "has_role [role_reader \<mapsto> True, role_admin \<mapsto> True] role_admin"
  "has_role [role_reader \<mapsto> True, role_admin \<mapsto> True] role_reader"
  by (simp_all add: has_role_def role_defs)

lemma has_any_reader: "has_any (Some rs) [role_reader] \<longleftrightarrow> has_role rs role_reader \<or> has_role rs role_admin"
  by (simp add: has_any_def roles_of_def)

lemma has_any_admin: "has_any (Some rs) [role_admin] \<longleftrightarrow> has_role rs role_admin"
  by (simp add: has_any_def roles_of_def role_defs)

lemma authenticated_token:
  assumes "authenticate parse_claims error_text en secret False now path authorization = Inr rs"
    and "path \<notin> set auth_skip_paths"
  shows "\<exists>head body json c. authorization = ''Bearer '' @ head @ ''.'' @ body @ ''.'' @
      b64_encode (hmac_sha256 (bytes_of secret) (bytes_of (head @ ''.'' @ body))) \<and>
    b64_decode body = Inr json \<and> parse_claims json = Inr c \<and> unix_seconds now \<le> cl_exp c \<and>
    has_role rs role_reader \<and> (has_role rs role_admin \<longleftrightarrow> cl_sub c \<in> admin_services en)"
proof -
  have bearer: "has_prefix authorization ''Bearer ''"
    using assms by (auto simp: authenticate_def split: if_splits)
  then obtain c where c: "verify_token parse_claims (trim_prefix authorization ''Bearer '') secret = Inr c"
    and live: "unix_seconds now \<le> cl_exp c"
    and rs: "rs = (if cl_sub c \<in> admin_services en then [role_reader \<mapsto> True, role_admin \<mapsto> True] else [role_reader \<mapsto> True])"
    using assms by (auto simp: authenticate_def split: if_splits sum.splits)
  have "authorization = ''Bearer '' @ trim_prefix authorization ''Bearer ''"
    using bearer has_prefix_iff by blast
  moreover obtain head body json where "trim_prefix authorization ''Bearer '' =
      head @ ''.'' @ body @ ''.'' @ token_mac secret head body"
    and json: "b64_decode body = Inr json" "parse_claims json = Inr c"
    using verify_token_Inr [OF c] by blast
  ultimately have "authorization = ''Bearer '' @ head @ ''.'' @ body @ ''.'' @
      b64_encode (hmac_sha256 (bytes_of secret) (bytes_of (head @ ''.'' @ body)))"
    by (simp only: token_mac_def)
  moreover have "has_role rs role_reader \<and> (has_role rs role_admin \<longleftrightarrow> cl_sub c \<in> admin_services en)"
    using rs by simp
  ultimately show ?thesis
    using json live by blast
qed

section \<open>Properties\<close>

definition sample_claims :: "bytes \<Rightarrow> claims result" where
  "sample_claims b = Inr \<lparr>cl_sub = ''audit-admin'', cl_iat = 0, cl_exp = 86400\<rparr>"

definition sample_token :: string where
  "sample_token = b64_encode [1] @ ''.'' @ b64_encode [2] @ ''.'' @ token_mac ''s3cret'' (b64_encode [1]) (b64_encode [2])"

lemma sample_token_issued: "issue_token (\<lambda>c. [2]) [1] (Time 0) ''audit-admin'' ''s3cret'' = Inr sample_token"
  by (simp add: issue_token_def sample_token_def Let_def)

text \<open>
  Property C22. No access without a valid token: outside the three probe paths and the development
  bypass, a request passes the middleware only with a bearer token of three parts whose third part is
  the HMAC-SHA-256 of the first two under the shared secret, whose claims decode and have not expired;
  it gets the reader role, and the admin role exactly if its subject is on the allowlist.
\<close>

theorem access_needs_valid_token:
  assumes "authenticate parse_claims error_text en secret False now path authorization = Inr rs"
    and "path \<notin> set auth_skip_paths"
  shows "\<exists>head body json c. authorization = ''Bearer '' @ head @ ''.'' @ body @ ''.'' @
      b64_encode (hmac_sha256 (bytes_of secret) (bytes_of (head @ ''.'' @ body))) \<and>
    b64_decode body = Inr json \<and> parse_claims json = Inr c \<and> unix_seconds now \<le> cl_exp c \<and>
    has_role rs role_reader \<and> (has_role rs role_admin \<longleftrightarrow> cl_sub c \<in> admin_services en)"
  using assms by (rule authenticated_token)

theorem access_needs_valid_token_witness:
  "\<exists>head body json c. ''Bearer '' @ sample_token = ''Bearer '' @ head @ ''.'' @ body @ ''.'' @
      b64_encode (hmac_sha256 (bytes_of ''s3cret'') (bytes_of (head @ ''.'' @ body))) \<and>
    b64_decode body = Inr json \<and> sample_claims json = Inr c \<and> unix_seconds (Time 5) \<le> cl_exp c \<and>
    has_role [role_reader \<mapsto> True, role_admin \<mapsto> True] role_reader \<and>
    (has_role [role_reader \<mapsto> True, role_admin \<mapsto> True] role_admin \<longleftrightarrow> cl_sub c \<in> admin_services Map.empty)"
proof (rule access_needs_valid_token)
  have "''audit-admin'' \<in> admin_services Map.empty"
    by (simp add: admin_services_def getenv_def trim_space_graphic is_graphic_def Let_def)
  moreover have "trim_prefix (''Bearer '' @ sample_token) ''Bearer '' = sample_token"
    by (rule trim_prefix_append)
  ultimately show "authenticate sample_claims (\<lambda>e. []) Map.empty ''s3cret'' False (Time 5) ''/v1/events''
      (''Bearer '' @ sample_token) = Inr [role_reader \<mapsto> True, role_admin \<mapsto> True]"
    using issued_token_verifies [OF sample_token_issued, of sample_claims]
    by (simp add: authenticate_def auth_skip_paths_def has_prefix_def unix_seconds_def sample_claims_def)
  show "''/v1/events'' \<notin> set auth_skip_paths"
    by (simp add: auth_skip_paths_def)
qed

text \<open>
  A token issued for a service under the shared secret is accepted by the middleware under
  the same secret for 24 hours and rejected as expired afterwards, provided the JSON form of the claims
  can be read back.
\<close>

theorem issued_token_lifetime:
  assumes "issue_token marshal_claims header issued service secret = Inr token"
    and "parse_claims (marshal_claims \<lparr>cl_sub = service, cl_iat = unix_seconds issued, cl_exp = unix_seconds issued + 86400\<rparr>) =
      Inr \<lparr>cl_sub = service, cl_iat = unix_seconds issued, cl_exp = unix_seconds issued + 86400\<rparr>"
    and "path \<notin> set auth_skip_paths"
  shows "authenticate parse_claims error_text en secret False now path (''Bearer '' @ token) =
    (if unix_seconds now \<le> unix_seconds issued + 86400
     then Inr (if service \<in> admin_services en then [role_reader \<mapsto> True, role_admin \<mapsto> True] else [role_reader \<mapsto> True])
     else Inl ''token expired'')"
proof -
  have "trim_prefix (''Bearer '' @ token) ''Bearer '' = token"
    by (rule trim_prefix_append)
  then show ?thesis
    using issued_token_verifies [OF assms(1), of parse_claims] assms(2,3)
    by (simp add: authenticate_def has_prefix_def)
qed

theorem issued_token_lifetime_witness:
  "authenticate sample_claims (\<lambda>e. '''') Map.empty ''s3cret'' False (Time 86401000000000) ''/v1/events'' (''Bearer '' @ sample_token) =
     Inl ''token expired''"
proof -
  have "sample_claims [2] = Inr \<lparr>cl_sub = ''audit-admin'', cl_iat = unix_seconds (Time 0), cl_exp = unix_seconds (Time 0) + 86400\<rparr>"
    by (simp add: sample_claims_def unix_seconds_def)
  then show ?thesis
    by (subst issued_token_lifetime [OF sample_token_issued]) (simp_all add: auth_skip_paths_def unix_seconds_def)
qed

end
