(* ===== verification/Api.thy ===== *)
theory Api
  imports Auth Ingest
begin

text \<open>
  \<open>internal/api\<close>: the REST router and its handlers. A handler maps a request and the state to a response
  and the next state. The dependencies are the fields of \<open>api_deps\<close>; what the handlers take from
  third-party or formatting code is there too (UUID syntax, RFC 3339 times, JSON request bodies, the
  text of an error, fresh ids). A response body is the \<open>view\<close> handed to the JSON encoder. The request
  path is the cleaned, unescaped path; the router splits it at slashes, a wildcard matching one
  non-empty segment.
\<close>

section \<open>Requests, responses, state\<close>

record request =
  rq_method :: string
  rq_path :: string
  rq_query :: "string \<Rightarrow> string"
  rq_authorization :: string
  rq_body :: bytes

datatype view =
    VStr string
  | VBool bool
  | VInt int
  | VList "view list"
  | VObj "(string \<times> view) list"
  | VReport report
  | VPlain string

record response =
  rs_code :: int
  rs_body :: view

record create_export_req =
  ce_query :: bytes
  ce_format :: string
  ce_retention_days :: int

datatype hold_body = HoldBody bool | EmptyBody | MalformedBody

record ('e, 'j, 'r) api_state =
  as_events :: 'e
  as_exports :: 'j
  as_redactor :: 'r
  as_metrics :: "metric multiset"

record ('e, 'j, 'r) api_deps =
  ad_get :: "'e \<Rightarrow> string \<Rightarrow> event result"
  ad_list :: "'e \<Rightarrow> filter \<Rightarrow> list_result result"
  ad_set_legal_hold :: "('e \<Rightarrow> string \<Rightarrow> bool \<Rightarrow> go_error option \<times> 'e) option"
  ad_verify_window :: "('e \<Rightarrow> time \<Rightarrow> time \<Rightarrow> report result) option"
  ad_presign :: "(string \<Rightarrow> string \<Rightarrow> int \<Rightarrow> string result) option"
  ad_payload_bucket :: string
  ad_create_job :: "'j \<Rightarrow> export_job \<Rightarrow> go_error option \<times> 'j"
  ad_get_job :: "'j \<Rightarrow> string \<Rightarrow> export_job result"
  ad_redactor_reload :: "('r \<Rightarrow> go_error option \<times> 'r) option"
  ad_valid_id :: "string \<Rightarrow> bool"
  ad_fmt_time :: "time \<Rightarrow> string"
  ad_parse_time :: "string \<Rightarrow> time result"
  ad_error_text :: "go_error \<Rightarrow> string"
  ad_new_export_id :: string
  ad_upper_table :: "string \<Rightarrow> string"
  ad_decode_export :: "bytes \<Rightarrow> create_export_req option"
  ad_decode_hold :: "bytes \<Rightarrow> hold_body"

definition write_json :: "int \<Rightarrow> view \<Rightarrow> response" where
  "write_json code v = \<lparr>rs_code = code, rs_body = v\<rparr>"

definition write_error :: "int \<Rightarrow> string \<Rightarrow> response" where
  "write_error code msg = write_json code (VObj [(''error'', VStr msg)])"

definition api_bump :: "metric \<Rightarrow> ('e, 'j, 'r) api_state \<Rightarrow> ('e, 'j, 'r) api_state" where
  "api_bump m st = st\<lparr>as_metrics := add_mset m (as_metrics st)\<rparr>"

definition parse_int_default :: "string \<Rightarrow> int \<Rightarrow> int \<Rightarrow> int \<Rightarrow> int" where
  "parse_int_default s def lo hi =
     (if s = '''' then def
      else case atoi s of
             None \<Rightarrow> def
           | Some n \<Rightarrow> if n < lo then lo else if n > hi then hi else n)"

definition event_view :: "('e, 'j, 'r) api_deps \<Rightarrow> event \<Rightarrow> (string \<times> view) list" where
  "event_view dp e =
     [(''id'', VStr (ev_id e)), (''ts'', VStr (ad_fmt_time dp (ev_ts e))),
      (''source_service'', VStr (ev_source_service e)), (''actor_id'', VStr (ev_actor_id e)),
      (''action'', VStr (ev_action e)), (''target_type'', VStr (ev_target_type e)),
      (''target_id'', VStr (ev_target_id e)), (''anchored'', VBool (ev_anchored e)),
      (''legal_hold'', VBool (ev_legal_hold e)), (''redacted'', VBool (ev_redacted e)),
      (''payload_ref'', VStr (ev_payload_ref e)),
      (''payload_hash'', VStr (''sha256:'' @ hex_encode (ev_payload_hash e))),
      (''prev_hash'', VStr (hash_hex (ev_prev_hash e))), (''this_hash'', VStr (hash_hex (ev_this_hash e)))]"

section \<open>Handlers\<close>

definition event_views :: "('e, 'j, 'r) api_deps \<Rightarrow> event list \<Rightarrow> view list" where
  "event_views dp es = map (\<lambda>e. VObj (event_view dp e)) es"

definition healthz :: response where
  "healthz = write_json 200 (VObj [(''status'', VStr ''ok'')])"

text \<open>An optional time parameter of the query.\<close>

definition query_time :: "('e, 'j, 'r) api_deps \<Rightarrow> request \<Rightarrow> string \<Rightarrow> time result" where
  "query_time dp rq k =
     (if rq_query rq k = '''' then Inr zero_time else ad_parse_time dp (rq_query rq k))"

definition list_filter :: "('e, 'j, 'r) api_deps \<Rightarrow> request \<Rightarrow> response + filter" where
  "list_filter dp rq =
     (let f = \<lparr>f_from = zero_time, f_to = zero_time, f_service = rq_query rq ''service'',
          f_actor = rq_query rq ''actor'', f_action = rq_query rq ''action'',
          f_target_type = rq_query rq ''target_type'', f_target_id = rq_query rq ''target_id'',
          f_limit = parse_int_default (rq_query rq ''limit'') 100 1 1000, f_cursor = zero_cursor\<rparr>
      in case query_time dp rq ''from'' of
           Inl err \<Rightarrow> Inl (write_error 400 (''invalid from: '' @ ad_error_text dp err))
         | Inr lo \<Rightarrow>
             (case query_time dp rq ''to'' of
                Inl err \<Rightarrow> Inl (write_error 400 (''invalid to: '' @ ad_error_text dp err))
              | Inr hi \<Rightarrow>
                  (if rq_query rq ''cursor'' = '''' then Inr (f\<lparr>f_from := lo, f_to := hi\<rparr>)
                   else case parse_cursor (ad_parse_time dp) (rq_query rq ''cursor'') of
                          Inl err \<Rightarrow> Inl (write_error 400 (''invalid cursor: '' @ ad_error_text dp err))
                        | Inr c \<Rightarrow> Inr (f\<lparr>f_from := lo, f_to := hi, f_cursor := c\<rparr>))))"

definition handle_list_events ::
  "('e, 'j, 'r) api_deps \<Rightarrow> request \<Rightarrow> ('e, 'j, 'r) api_state \<Rightarrow> response \<times> ('e, 'j, 'r) api_state" where
  "handle_list_events dp rq st =
     ((case list_filter dp rq of
         Inl resp \<Rightarrow> resp
       | Inr f \<Rightarrow>
           (case ad_list dp (as_events st) f of
              Inl err \<Rightarrow> write_error 500 (''list: '' @ ad_error_text dp err)
            | Inr res \<Rightarrow>
                write_json 200 (VObj
                  [(''events'', VList (event_views dp (lr_events res))),
                   (''next_cursor'', VStr (if is_zero (cur_ts (lr_next res)) then ''''
                                       else cursor_string (ad_fmt_time dp) (lr_next res)))]))),
      api_bump (QueryLatency ''list'') st)"

text \<open>Looking a row up by the id in the path, with the responses for a bad id.\<close>

definition with_event ::
  "('e, 'j, 'r) api_deps \<Rightarrow> string \<Rightarrow> ('e, 'j, 'r) api_state \<Rightarrow> response + event" where
  "with_event dp i st =
     (if i = '''' then Inl (write_error 400 ''missing id'')
      else if \<not> ad_valid_id dp i then Inl (write_error 404 ''not found'')
      else case ad_get dp (as_events st) i of
             Inl err \<Rightarrow>
               if is_not_found err then Inl (write_error 404 ''not found'')
               else Inl (write_error 500 (''get: '' @ ad_error_text dp err))
           | Inr e \<Rightarrow> Inr e)"

definition handle_get_event ::
  "('e, 'j, 'r) api_deps \<Rightarrow> string \<Rightarrow> ('e, 'j, 'r) api_state \<Rightarrow> response \<times> ('e, 'j, 'r) api_state" where
  "handle_get_event dp i st =
     ((case with_event dp i st of
         Inl resp \<Rightarrow> resp
       | Inr e \<Rightarrow>
           (let payload_url =
              (case ad_presign dp of
                 None \<Rightarrow> ''''
               | Some presign \<Rightarrow>
                   if ad_payload_bucket dp \<noteq> '''' \<and> ev_payload_ref e \<noteq> '''' then
                     (case presign (ad_payload_bucket dp) (ev_payload_ref e) (15 * minute) of
                        Inl err \<Rightarrow> ''''
                      | Inr u \<Rightarrow> u)
                   else '''')
            in write_json 200 (VObj (event_view dp e @ [(''payload_url'', VStr payload_url)])))),
      api_bump (QueryLatency ''get'') st)"

text \<open>The search for the preceding row in \<open>handleVerifyEvent\<close>: backwards through one page.\<close>

fun previous_in_page :: "event \<Rightarrow> string \<Rightarrow> event list \<Rightarrow> bytes option" where
  "previous_in_page e i [] = None"
| "previous_in_page e i (cand # rest) =
     (if ev_id cand = i then previous_in_page e i rest
      else if ev_ts cand < ev_ts e \<or> (ev_ts cand = ev_ts e \<and> ev_id cand < ev_id e) then Some (ev_this_hash cand)
      else previous_in_page e i rest)"

definition verify_filter :: "event \<Rightarrow> filter" where
  "verify_filter e = zero_filter\<lparr>f_to := ev_ts e, f_limit := 1000\<rparr>"

definition verify_view :: "event \<Rightarrow> verify_result \<Rightarrow> (string \<times> view) list" where
  "verify_view e res =
     [(''id'', VStr (ev_id e)),
      (''prev_hash'', VStr (hash_hex (case vr_prev_hash res of None \<Rightarrow> [] | Some p \<Rightarrow> p))),
      (''this_hash'', VStr (hash_hex (vr_this_hash res))), (''computed'', VStr (hash_hex (vr_computed res))),
      (''status'', VStr (status_string (vr_status res)))] @
     (if vr_reason res \<noteq> '''' then [(''reason'', VStr (vr_reason res))] else [])"

definition handle_verify_event ::
  "('e, 'j, 'r) api_deps \<Rightarrow> string \<Rightarrow> ('e, 'j, 'r) api_state \<Rightarrow> response \<times> ('e, 'j, 'r) api_state" where
  "handle_verify_event dp i st =
     (case with_event dp i st of
        Inl resp \<Rightarrow> (resp, st)
      | Inr e \<Rightarrow>
          (case ad_list dp (as_events st) (verify_filter e) of
             Inl err \<Rightarrow> (write_error 500 (''list: '' @ ad_error_text dp err), st)
           | Inr page \<Rightarrow>
               (let prev = (case previous_in_page e i (rev (lr_events page)) of
                              None \<Rightarrow> zero_hash | Some h \<Rightarrow> if h = [] then zero_hash else h);
                    res = verify_event e (Some prev)
                in (write_json 200 (VObj (verify_view e res)),
                    api_bump (ChainVerifyOutcomes (status_string (vr_status res))) st))))"

definition handle_create_export ::
  "('e, 'j, 'r) api_deps \<Rightarrow> request \<Rightarrow> ('e, 'j, 'r) api_state \<Rightarrow> response \<times> ('e, 'j, 'r) api_state" where
  "handle_create_export dp rq st =
     (case ad_decode_export dp (rq_body rq) of
        None \<Rightarrow> (write_error 400 ''malformed json'', st)
      | Some req \<Rightarrow>
          (let up = to_upper (ad_upper_table dp) (ce_format req);
               format = (if up \<noteq> ''JSON'' \<and> up \<noteq> ''CSV'' then ''JSON'' else up);
               days = (if ce_retention_days req \<le> 0 then 2555 else ce_retention_days req);
               query = (if length (ce_query req) = 0 then bytes_of ''{}'' else ce_query req);
               i = ad_new_export_id dp;
               job = \<lparr>job_id = i, job_query = query, job_format = format, job_retention_days = days,
                 job_status = ''PENDING'', job_row_count = 0, job_payload_ref = '''', job_chain_root = [],
                 job_anchor_id = '''', job_created_at = zero_time, job_completed_at = zero_time\<rparr>
           in case ad_create_job dp (as_exports st) job of
                (Some err, jobs) \<Rightarrow>
                  (write_error 500 (''create: '' @ ad_error_text dp err), st\<lparr>as_exports := jobs\<rparr>)
              | (None, jobs) \<Rightarrow>
                  (write_json 202 (VObj [(''id'', VStr i), (''status'', VStr ''PENDING'')]),
                   api_bump (ExportsCreated format) (st\<lparr>as_exports := jobs\<rparr>))))"

definition job_view :: "('e, 'j, 'r) api_deps \<Rightarrow> export_job \<Rightarrow> (string \<times> view) list" where
  "job_view dp j =
     [(''id'', VStr (job_id j)), (''status'', VStr (job_status j)), (''format'', VStr (job_format j)),
      (''retention_days'', VInt (job_retention_days j)), (''row_count'', VInt (job_row_count j))] @
     (if job_payload_ref j \<noteq> '''' then
        (''payload_ref'', VStr (job_payload_ref j)) #
        (case ad_presign dp of
           None \<Rightarrow> []
         | Some presign \<Rightarrow>
             if ad_payload_bucket dp \<noteq> '''' then
               (case presign (ad_payload_bucket dp) (job_payload_ref j) (15 * minute) of
                  Inl err \<Rightarrow> []
                | Inr u \<Rightarrow> [(''download_url'', VStr u)])
             else [])
      else []) @
     (if length (job_chain_root j) = 32 then [(''chain_root'', VStr (hash_hex (job_chain_root j)))] else []) @
     (if job_anchor_id j \<noteq> '''' then [(''anchor_id'', VStr (job_anchor_id j))] else []) @
     (if \<not> is_zero (job_completed_at j) then [(''completed_at'', VStr (ad_fmt_time dp (job_completed_at j)))] else [])"

definition handle_get_export ::
  "('e, 'j, 'r) api_deps \<Rightarrow> string \<Rightarrow> ('e, 'j, 'r) api_state \<Rightarrow> response \<times> ('e, 'j, 'r) api_state" where
  "handle_get_export dp i st =
     ((if i = '''' then write_error 400 ''missing id''
       else if \<not> ad_valid_id dp i then write_error 404 ''not found''
       else case ad_get_job dp (as_exports st) i of
              Inl err \<Rightarrow>
                if is_not_found err then write_error 404 ''not found''
                else write_error 500 (''get: '' @ ad_error_text dp err)
            | Inr j \<Rightarrow> write_json 200 (VObj (job_view dp j))),
      st)"

text \<open>A window bound that does not parse reads as the zero time, which leaves the window open.\<close>

definition lenient_time :: "('e, 'j, 'r) api_deps \<Rightarrow> string \<Rightarrow> time" where
  "lenient_time dp s = (case ad_parse_time dp s of Inl err \<Rightarrow> zero_time | Inr t \<Rightarrow> t)"

definition handle_admin_verify_chain ::
  "('e, 'j, 'r) api_deps \<Rightarrow> request \<Rightarrow> ('e, 'j, 'r) api_state \<Rightarrow> response \<times> ('e, 'j, 'r) api_state" where
  "handle_admin_verify_chain dp rq st =
     ((case ad_verify_window dp of
         None \<Rightarrow> write_error 501 ''verifier not configured''
       | Some verify \<Rightarrow>
           (case verify (as_events st) (lenient_time dp (rq_query rq ''from'')) (lenient_time dp (rq_query rq ''to'')) of
              Inl err \<Rightarrow> write_error 500 (''verify: '' @ ad_error_text dp err)
            | Inr r \<Rightarrow> write_json 200 (VReport r))),
      st)"

definition handle_legal_hold ::
  "('e, 'j, 'r) api_deps \<Rightarrow> string \<Rightarrow> request \<Rightarrow> ('e, 'j, 'r) api_state \<Rightarrow> response \<times> ('e, 'j, 'r) api_state" where
  "handle_legal_hold dp i rq st =
     (case ad_set_legal_hold dp of
        None \<Rightarrow> (write_error 501 ''legal hold not configured'', st)
      | Some setter \<Rightarrow>
          if i = '''' then (write_error 400 ''missing id'', st)
          else if \<not> ad_valid_id dp i then (write_error 404 ''not found'', st)
          else (let set_to = (\<lambda>hold.
                  case setter (as_events st) i hold of
                    (Some err, es) \<Rightarrow>
                      (if is_not_found err then write_error 404 ''not found''
                       else write_error 500 (''set legal hold: '' @ ad_error_text dp err), st\<lparr>as_events := es\<rparr>)
                  | (None, es) \<Rightarrow>
                      (write_json 200 (VObj [(''id'', VStr i), (''legal_hold'', VBool hold)]), st\<lparr>as_events := es\<rparr>))
                in case ad_decode_hold dp (rq_body rq) of
                     MalformedBody \<Rightarrow> (write_error 400 ''malformed json'', st)
                   | EmptyBody \<Rightarrow> set_to False
                   | HoldBody hold \<Rightarrow> set_to hold))"

definition handle_redaction_reload ::
  "('e, 'j, 'r) api_deps \<Rightarrow> ('e, 'j, 'r) api_state \<Rightarrow> response \<times> ('e, 'j, 'r) api_state" where
  "handle_redaction_reload dp st =
     (case ad_redactor_reload dp of
        None \<Rightarrow> (write_error 501 ''redaction reload not configured'', st)
      | Some reload_fn \<Rightarrow>
          (case reload_fn (as_redactor st) of
             (Some err, r) \<Rightarrow> (write_error 500 (''reload: '' @ ad_error_text dp err), st\<lparr>as_redactor := r\<rparr>)
           | (None, r) \<Rightarrow> (write_json 200 (VObj [(''status'', VStr ''reloaded'')]), st\<lparr>as_redactor := r\<rparr>)))"


section \<open>The router\<close>

datatype route =
    HealthzRoute | MetricsRoute | ReloadRoute | ListEventsRoute | GetEventRoute string
  | VerifyEventRoute string | CreateExportRoute | GetExportRoute string | AdminVerifyRoute
  | LegalHoldRoute string | RedirectRoute string | WrongMethod | NoRoute

definition route_get :: "string \<Rightarrow> bool" where
  "route_get m \<longleftrightarrow> m = ''GET'' \<or> m = ''HEAD''"

text \<open>\<open>http.ServeMux\<close> on the registered patterns: a path that is not clean (empty, \<open>.\<close> or \<open>..\<close> segments) is
  answered by a redirect to the clean one, a path known under another method by 405. The path carries no
  percent escapes.\<close>

fun clean_segments :: "string list \<Rightarrow> string list \<Rightarrow> string list" where
  "clean_segments acc [] = rev acc"
| "clean_segments acc (s # ss) =
     (if s = '''' \<or> s = ''.'' then clean_segments acc ss
      else if s = ''..'' then clean_segments (tl acc) ss
      else clean_segments (s # acc) ss)"

definition clean_path :: "string \<Rightarrow> string" where
  "clean_path p =
     (let np = CHR ''/'' # join_with (CHR ''/'') (clean_segments [] (split_on (CHR ''/'') p)) in
      if p \<noteq> '''' \<and> last p = CHR ''/'' \<and> np \<noteq> ''/'' then np @ ''/'' else np)"

definition path_route :: "string \<Rightarrow> (string \<times> route) list" where
  "path_route path =
     (let segs = split_on (CHR ''/'') path in
      if segs = ['''', ''healthz''] then [(''GET'', HealthzRoute)]
      else if segs = ['''', ''metrics''] then [(''GET'', MetricsRoute)]
      else if segs = ['''', ''v1'', ''events''] then [(''GET'', ListEventsRoute)]
      else if segs = ['''', ''v1'', ''exports''] then [(''POST'', CreateExportRoute)]
      else if segs = ['''', ''v1'', ''admin'', ''verify-chain''] then [(''POST'', AdminVerifyRoute)]
      else if segs = ['''', ''v1'', ''admin'', ''redaction'', ''reload''] then [(''POST'', ReloadRoute)]
      else if length segs = 4 \<and> take 3 segs = ['''', ''v1'', ''events''] \<and> segs ! 3 \<noteq> ''''
        then [(''GET'', GetEventRoute (segs ! 3))]
      else if length segs = 4 \<and> take 3 segs = ['''', ''v1'', ''exports''] \<and> segs ! 3 \<noteq> ''''
        then [(''GET'', GetExportRoute (segs ! 3))]
      else if length segs = 5 \<and> take 3 segs = ['''', ''v1'', ''events''] \<and> segs ! 3 \<noteq> '''' \<and> segs ! 4 = ''verify-chain''
        then [(''GET'', VerifyEventRoute (segs ! 3))]
      else if length segs = 5 \<and> take 4 segs = ['''', ''v1'', ''admin'', ''legal-hold''] \<and> segs ! 4 \<noteq> ''''
        then [(''POST'', LegalHoldRoute (segs ! 4))]
      else [])"

definition route_of :: "string \<Rightarrow> string \<Rightarrow> route" where
  "route_of m path =
     (if m \<noteq> ''CONNECT'' \<and> clean_path path \<noteq> path then RedirectRoute (clean_path path)
      else case path_route path of
             [] \<Rightarrow> NoRoute
           | (want, r) # _ \<Rightarrow> if want = m \<or> (want = ''GET'' \<and> route_get m) then r else WrongMethod)"

definition require ::
  "role_set option \<Rightarrow> role list \<Rightarrow> ('s \<Rightarrow> response \<times> 's) \<Rightarrow> 's \<Rightarrow> response \<times> 's" where
  "require ctx required h st =
     (if has_any ctx required then h st
      else (\<lparr>rs_code = 403, rs_body = VPlain ''forbidden''\<rparr>, st))"

definition dispatch ::
  "('e, 'j, 'r) api_deps \<Rightarrow> role_set option \<Rightarrow> request \<Rightarrow> ('e, 'j, 'r) api_state \<Rightarrow>
   response \<times> ('e, 'j, 'r) api_state" where
  "dispatch dp ctx rq st =
     (case route_of (rq_method rq) (rq_path rq) of
        HealthzRoute \<Rightarrow> (healthz, st)
      | MetricsRoute \<Rightarrow> (\<lparr>rs_code = 200, rs_body = VPlain ''metrics''\<rparr>, st)
      | ReloadRoute \<Rightarrow> require ctx [role_admin] (handle_redaction_reload dp) st
      | ListEventsRoute \<Rightarrow> require ctx [role_reader] (handle_list_events dp rq) st
      | GetEventRoute i \<Rightarrow> require ctx [role_reader] (handle_get_event dp i) st
      | VerifyEventRoute i \<Rightarrow> require ctx [role_reader] (handle_verify_event dp i) st
      | CreateExportRoute \<Rightarrow> require ctx [role_admin] (handle_create_export dp rq) st
      | GetExportRoute i \<Rightarrow> require ctx [role_reader] (handle_get_export dp i) st
      | AdminVerifyRoute \<Rightarrow> require ctx [role_admin] (handle_admin_verify_chain dp rq) st
      | LegalHoldRoute i \<Rightarrow> require ctx [role_admin] (handle_legal_hold dp i rq) st
      | RedirectRoute path \<Rightarrow> (\<lparr>rs_code = 301, rs_body = VPlain path\<rparr>, st)
      | WrongMethod \<Rightarrow> (\<lparr>rs_code = 405, rs_body = VPlain ''Method Not Allowed''\<rparr>, st)
      | NoRoute \<Rightarrow> (\<lparr>rs_code = 404, rs_body = VPlain ''404 page not found''\<rparr>, st))"

definition unauthorized :: "string \<Rightarrow> response" where
  "unauthorized msg = \<lparr>rs_code = 401,
     rs_body = VObj [(''error'', VObj [(''code'', VStr ''unauthorized''), (''message'', VStr msg)])]\<rparr>"

text \<open>The server: the authentication middleware around the router.\<close>

record auth_env =
  ae_parse_claims :: "bytes \<Rightarrow> claims result"
  ae_env :: env
  ae_secret :: string
  ae_bypass :: bool

definition serve ::
  "('e, 'j, 'r) api_deps \<Rightarrow> auth_env \<Rightarrow> time \<Rightarrow> request \<Rightarrow> ('e, 'j, 'r) api_state \<Rightarrow>
   response \<times> ('e, 'j, 'r) api_state" where
  "serve dp ae now rq st =
     (case authenticate (ae_parse_claims ae) (ad_error_text dp) (ae_env ae) (ae_secret ae) (ae_bypass ae) now
        (rq_path rq) (rq_authorization rq) of
        Inl msg \<Rightarrow> (unauthorized msg, st)
      | Inr rs \<Rightarrow> dispatch dp (Some rs) rq st)"

section \<open>Who can do what\<close>

text \<open>The state without its counters.\<close>

definition data_of :: "('e, 'j, 'r) api_state \<Rightarrow> 'e \<times> 'j \<times> 'r" where
  "data_of st = (as_events st, as_exports st, as_redactor st)"

lemma data_of_bump [frame_simps]: "data_of (api_bump m st) = data_of st"
  by (simp add: data_of_def api_bump_def)

lemma read_handlers_keep [frame_simps]:
  "data_of (snd (handle_list_events dp rq st)) = data_of st"
  "data_of (snd (handle_get_event dp i st)) = data_of st"
  "data_of (snd (handle_verify_event dp i st)) = data_of st"
  "data_of (snd (handle_get_export dp i st)) = data_of st"
  "data_of (snd (handle_admin_verify_chain dp rq st)) = data_of st"
  by (simp_all add: handle_list_events_def handle_get_event_def handle_verify_event_def handle_get_export_def
      handle_admin_verify_chain_def Let_def data_of_bump split: sum.splits)

lemma require_cases:
  "snd (require ctx required h st) = (if has_any ctx required then snd (h st) else st)"
  by (simp add: require_def)

lemma skip_path_routes:
  assumes "path \<in> set auth_skip_paths"
  shows "route_of m path \<in> {HealthzRoute, MetricsRoute, WrongMethod, NoRoute}"
proof -
  have "path_route ''/healthz'' = [(''GET'', HealthzRoute)]" "path_route ''/readyz'' = []"
    "path_route ''/metrics'' = [(''GET'', MetricsRoute)]"
    by (simp_all add: path_route_def Let_def)
  moreover have "clean_path ''/healthz'' = ''/healthz''" "clean_path ''/readyz'' = ''/readyz''"
    "clean_path ''/metrics'' = ''/metrics''"
    by (simp_all add: clean_path_def Let_def)
  ultimately show ?thesis
    using assms by (auto simp: auth_skip_paths_def route_of_def)
qed

lemma dispatch_mutates_admin:
  "data_of (snd (dispatch dp ctx rq st)) \<noteq> data_of st \<Longrightarrow>
   has_any ctx [role_admin] \<and> rq_path rq \<notin> set auth_skip_paths"
  using skip_path_routes [of "rq_path rq" "rq_method rq"]
  by (auto simp: dispatch_def require_cases frame_simps split: route.splits if_splits)


section \<open>The single-event check against the store\<close>

text \<open>Every row of the page is older than \<open>e\<close>, so the search takes the page's last row.\<close>

lemma previous_in_page_last:
  assumes "\<forall>x \<in> set es. ev_ts x < ev_ts e" and "\<forall>x \<in> set es. ev_id x \<noteq> i"
  shows "previous_in_page e i (rev es) = (if es = [] then None else Some (ev_this_hash (last es)))"
  using assms by (cases es rule: rev_cases) auto

definition compared_hash :: "event list \<Rightarrow> event \<Rightarrow> bytes" where
  "compared_hash l e =
     (let page = take 1000 [x \<leftarrow> l. ev_ts x < ev_ts e] in
      if page = [] then zero_hash else ev_this_hash (last page))"

lemma handle_verify_event_mem:
  assumes inv: "mem_inv s" and e: "e \<in> set (mem_log s)" and ts: "\<not> is_zero (ev_ts e)"
    and hashes: "\<forall>x \<in> set (mem_log s). ev_this_hash x \<noteq> []"
    and deps: "ad_get dp = mem_get" "ad_list dp = mem_list" "ad_valid_id dp (ev_id e)" "ev_id e \<noteq> ''''"
    and "as_events st = s"
  shows "handle_verify_event dp (ev_id e) st =
    (write_json 200 (VObj (verify_view e (verify_event e (Some (compared_hash (mem_log s) e))))),
     api_bump (ChainVerifyOutcomes (status_string (vr_status (verify_event e (Some (compared_hash (mem_log s) e)))))) st)"
proof -
  let ?page = "take 1000 [x \<leftarrow> mem_log s. ev_ts x < ev_ts e]"
  have "passes_filter (verify_filter e) = (\<lambda>x. ev_ts x < ev_ts e)"
    using ts by (simp add: fun_eq_iff passes_filter_def matches_fields_def verify_filter_def zero_filter_def not_le)
  moreover have "clamp_limit (f_limit (verify_filter e)) = 1000"
    by (simp add: verify_filter_def zero_filter_def clamp_limit_def)
  ultimately obtain next_c where list: "mem_list s (verify_filter e) = Inr \<lparr>lr_events = ?page, lr_next = next_c\<rparr>"
    by (simp add: mem_list_events)
  have members: "x \<in> set (mem_log s) \<and> ev_ts x < ev_ts e" if "x \<in> set ?page" for x
    using that by (auto dest: in_set_takeD)
  then have "ev_id x \<noteq> ev_id e" if "x \<in> set ?page" for x
    using members [OF that] mem_log_distinct [OF inv] e by (metis distinct_map inj_onD less_irrefl)
  then have prev: "previous_in_page e (ev_id e) (rev ?page) = (if ?page = [] then None else Some (ev_this_hash (last ?page)))"
    using members by (intro previous_in_page_last) blast+
  have "ev_this_hash (last ?page) \<noteq> []" if "?page \<noteq> []"
    using that members [of "last ?page"] hashes by auto
  moreover have "with_event dp (ev_id e) st = Inr e"
    using assms mem.get_member [OF inv e] by (simp add: with_event_def)
  ultimately show ?thesis
    using list prev assms(9) deps(2)
    by (auto simp: handle_verify_event_def compared_hash_def Let_def)
qed

lemma compared_hash_not_predecessor:
  assumes "intact l" and "distinct (map ev_id l)" and "\<forall>x \<in> set l. encodable x"
    and split: "l = pre @ [p, e] @ post"
    and missed: "\<not> ev_ts p < ev_ts e \<or> 1000 < length [x \<leftarrow> l. ev_ts x < ev_ts e] \<and> last (take 1000 [x \<leftarrow> l. ev_ts x < ev_ts e]) \<noteq> p"
    and eq: "compared_hash l e = ev_prev_hash e"
  shows "ev_this_hash p = zero_hash \<or> (\<exists>y \<in> set l. collision (event_bytes y) (event_bytes p))"
proof -
  let ?page = "take 1000 [x \<leftarrow> l. ev_ts x < ev_ts e]"
  have link: "ev_prev_hash e = ev_this_hash p"
    using assms(1) by (auto simp: split intact_append intact_Cons)
  show ?thesis
  proof (cases "?page = []")
    case True
    with eq link show ?thesis
      by (simp add: compared_hash_def)
  next
    case False
    let ?y = "last ?page"
    have y: "?y \<in> set l" "ev_ts ?y < ev_ts e"
      using in_set_takeD [OF last_in_set [OF False]] by simp_all
    have "?y \<noteq> p"
      using missed y(2) by auto
    moreover have p: "p \<in> set l"
      by (simp add: split)
    ultimately have "ev_id ?y \<noteq> ev_id p"
      using assms(2) y(1) by (metis distinct_map inj_onD)
    moreover have "event_hash ?y = event_hash p"
      using eq link False assms(1) y(1) p by (auto simp: compared_hash_def Let_def intact_def hash_ok_def)
    ultimately have "collision (event_bytes ?y) (event_bytes p)"
      using event_hash_binding [of ?y p] assms(3) y(1) p by (auto simp: same_content_def)
    with y(1) show ?thesis by blast
  qed
qed

section \<open>Properties\<close>

text \<open>
  Property C7. Only an administrator can change anything through the API: if a request, outside the
  development bypass, changes the events, the export jobs or the redaction policy, then it carried a
  bearer token with a valid HMAC under the shared secret whose unexpired claims name a service on the
  administrator allowlist. No probe path reaches a handler that changes state.
\<close>

theorem only_admins_change_state:
  assumes "data_of (snd (serve dp ae now rq st)) \<noteq> data_of st" and "\<not> ae_bypass ae"
  shows "\<exists>head body json c. rq_authorization rq = ''Bearer '' @ head @ ''.'' @ body @ ''.'' @
      b64_encode (hmac_sha256 (bytes_of (ae_secret ae)) (bytes_of (head @ ''.'' @ body))) \<and>
    b64_decode body = Inr json \<and> ae_parse_claims ae json = Inr c \<and> unix_seconds now \<le> cl_exp c \<and>
    cl_sub c \<in> admin_services (ae_env ae)"
proof -
  obtain rs where rs: "authenticate (ae_parse_claims ae) (ad_error_text dp) (ae_env ae) (ae_secret ae) False now
      (rq_path rq) (rq_authorization rq) = Inr rs"
    and "data_of (snd (dispatch dp (Some rs) rq st)) \<noteq> data_of st"
    using assms by (auto simp: serve_def split: sum.splits)
  then have "has_any (Some rs) [role_admin]" "rq_path rq \<notin> set auth_skip_paths"
    using dispatch_mutates_admin by blast+
  with authenticated_token [OF rs] show ?thesis
    by (auto simp: has_any_admin)
qed

text \<open>
  Property C27. The single-event check raises false alarms: if the row before \<open>e\<close> in an intact chain has
  the same time as \<open>e\<close>, or more than 1000 rows are older than \<open>e\<close>, then the handler compares \<open>e\<close> with
  another row's hash and answers that there is a gap, unless SHA-256 inputs of two rows collide or the
  predecessor's hash is 32 zero bytes. It asks the store for one page of rows strictly before \<open>e\<close>'s time.
\<close>

theorem verify_endpoint_false_gap:
  assumes "mem_inv s" and "vr_status (fst (verify_chain (mem_log s))) = StatusOK"
    and "\<forall>x \<in> set (mem_log s). encodable x" and "mem_log s = pre @ [p, e] @ post"
    and "\<not> ev_ts p < ev_ts e \<or>
      1000 < length [x \<leftarrow> mem_log s. ev_ts x < ev_ts e] \<and> last (take 1000 [x \<leftarrow> mem_log s. ev_ts x < ev_ts e]) \<noteq> p"
    and "ad_get dp = mem_get" and "ad_list dp = mem_list" and "ad_valid_id dp (ev_id e)" and "ev_id e \<noteq> ''''"
    and "\<not> is_zero (ev_ts e)" and "as_events st = s"
  shows "(\<exists>fields. rs_body (fst (handle_verify_event dp (ev_id e) st)) = VObj fields \<and>
      (''status'', VStr ''gap'') \<in> set fields) \<or>
    ev_this_hash p = zero_hash \<or> (\<exists>y \<in> set (mem_log s). collision (event_bytes y) (event_bytes p))"
proof (cases "compared_hash (mem_log s) e = ev_prev_hash e")
  case True
  have "intact (mem_log s)"
    using assms(2) by (simp add: verify_chain_ok)
  from compared_hash_not_predecessor [OF this mem_log_distinct [OF assms(1)] assms(3-5) True] show ?thesis
    by blast
next
  case False
  have whole: "\<forall>x \<in> set (mem_log s). hash_ok x"
    using assms(2) by (simp add: verify_chain_ok intact_def)
  have "ev_this_hash x \<noteq> []" if "x \<in> set (mem_log s)" for x
  proof -
    have "ev_this_hash x = event_hash x"
      using whole that by (simp add: hash_ok_def)
    then have "length (ev_this_hash x) = 32"
      by (simp add: length_event_hash)
    then show ?thesis by auto
  qed
  moreover have e: "e \<in> set (mem_log s)"
    by (simp add: assms(4))
  ultimately have resp: "rs_body (fst (handle_verify_event dp (ev_id e) st)) =
      VObj (verify_view e (verify_event e (Some (compared_hash (mem_log s) e))))"
    using handle_verify_event_mem [OF assms(1) e assms(10) _ assms(6-9,11)] by (simp add: write_json_def)
  have "vr_status (verify_event e (Some (compared_hash (mem_log s) e))) = StatusGap"
    using whole e False by (simp add: verify_event_status)
  then have "(''status'', VStr ''gap'') \<in> set (verify_view e (verify_event e (Some (compared_hash (mem_log s) e))))"
    by (simp add: verify_view_def status_string_def)
  with resp show ?thesis by blast
qed


text \<open>Dependencies for closed instances, over the in-memory store.\<close>

definition sample_api :: "(mem_store, nat, nat) api_deps" where
  "sample_api =
     \<lparr>ad_get = mem_get, ad_list = mem_list, ad_set_legal_hold = Some mem_set_legal_hold, ad_verify_window = None,
      ad_presign = None, ad_payload_bucket = '''', ad_create_job = (\<lambda>j x. (None, Suc j)),
      ad_get_job = (\<lambda>j i. Inl (ErrNotFound i)), ad_redactor_reload = Some (\<lambda>r. (None, Suc r)),
      ad_valid_id = (\<lambda>i. True), ad_fmt_time = (\<lambda>t. ''t''), ad_parse_time = (\<lambda>s. Inr (Time 7)),
      ad_error_text = (\<lambda>e. ''''), ad_new_export_id = ''x'', ad_upper_table = (\<lambda>s. s),
      ad_decode_export = (\<lambda>b. None), ad_decode_hold = (\<lambda>b. HoldBody True)\<rparr>"

definition sample_api_state :: "mem_store \<Rightarrow> (mem_store, nat, nat) api_state" where
  "sample_api_state s = \<lparr>as_events = s, as_exports = 0, as_redactor = 0, as_metrics = {#}\<rparr>"

definition sample_auth :: auth_env where
  "sample_auth = \<lparr>ae_parse_claims = sample_claims, ae_env = Map.empty, ae_secret = ''s3cret'', ae_bypass = False\<rparr>"

definition sample_reload :: request where
  "sample_reload = \<lparr>rq_method = ''POST'', rq_path = ''/v1/admin/redaction/reload'', rq_query = (\<lambda>k. ''''),
     rq_authorization = ''Bearer '' @ sample_token, rq_body = []\<rparr>"

lemma sample_token_admin:
  "authenticate sample_claims f Map.empty ''s3cret'' False (Time 5) ''/v1/admin/redaction/reload'' (''Bearer '' @ sample_token) =
   Inr [role_reader \<mapsto> True, role_admin \<mapsto> True]"
proof -
  have "sample_claims [2] = Inr \<lparr>cl_sub = ''audit-admin'', cl_iat = 0, cl_exp = 86400\<rparr>"
    by (simp add: sample_claims_def)
  moreover have "''audit-admin'' \<in> admin_services Map.empty"
    by (simp add: admin_services_def getenv_def trim_space_graphic is_graphic_def Let_def)
  moreover have "trim_prefix (''Bearer '' @ sample_token) ''Bearer '' = sample_token"
    by (rule trim_prefix_append)
  ultimately show ?thesis
    using issued_token_verifies [OF sample_token_issued, of sample_claims]
    by (simp add: authenticate_def auth_skip_paths_def has_prefix_def unix_seconds_def sample_claims_def)
qed

theorem only_admins_change_state_witness:
  "\<exists>head body json c. rq_authorization sample_reload = ''Bearer '' @ head @ ''.'' @ body @ ''.'' @
      b64_encode (hmac_sha256 (bytes_of (ae_secret sample_auth)) (bytes_of (head @ ''.'' @ body))) \<and>
    b64_decode body = Inr json \<and> ae_parse_claims sample_auth json = Inr c \<and> unix_seconds (Time 5) \<le> cl_exp c \<and>
    cl_sub c \<in> admin_services (ae_env sample_auth)"
proof (rule only_admins_change_state)
  have "route_of ''POST'' ''/v1/admin/redaction/reload'' = ReloadRoute"
    by (simp add: route_of_def path_route_def clean_path_def Let_def)
  then show "data_of (snd (serve sample_api sample_auth (Time 5) sample_reload (sample_api_state sample_store))) \<noteq>
      data_of (sample_api_state sample_store)"
    using sample_token_admin
    by (simp add: serve_def sample_auth_def sample_reload_def dispatch_def require_def has_any_admin
        handle_redaction_reload_def sample_api_def sample_api_state_def data_of_def)
  show "\<not> ae_bypass sample_auth"
    by (simp add: sample_auth_def)
qed

theorem verify_endpoint_false_gap_witness:
  "let s = two_rows 1; p = hd (row_pair 1) in
   (\<exists>fields. rs_body (fst (handle_verify_event sample_api ''b'' (sample_api_state s))) = VObj fields \<and>
      (''status'', VStr ''gap'') \<in> set fields) \<or>
    ev_this_hash p = zero_hash \<or> (\<exists>y \<in> set (mem_log s). collision (event_bytes y) (event_bytes p))"
proof -
  have log: "mem_inv (two_rows 1)" "mem_log (two_rows 1) = row_pair 1"
    by (simp_all add: two_rows_log)
  have rows: "row_pair 1 = [] @ [hd (row_pair 1), last (row_pair 1)] @ []"
    by (simp add: row_pair_def Let_def)
  have e: "ev_id (last (row_pair 1)) = ''b''" "ev_ts (last (row_pair 1)) = Time 1" "ev_ts (hd (row_pair 1)) = Time 1"
    by (simp_all add: row_pair_def Let_def)
  have "(\<exists>fields. rs_body (fst (handle_verify_event sample_api (ev_id (last (row_pair 1))) (sample_api_state (two_rows 1)))) =
        VObj fields \<and> (''status'', VStr ''gap'') \<in> set fields) \<or>
      ev_this_hash (hd (row_pair 1)) = zero_hash \<or>
      (\<exists>y \<in> set (mem_log (two_rows 1)). collision (event_bytes y) (event_bytes (hd (row_pair 1))))"
    by (rule verify_endpoint_false_gap [where pre = "[]" and post = "[]"])
      (use log rows e row_pair_facts [of 1] in
        \<open>simp_all add: verify_chain_ok sample_api_def sample_api_state_def is_zero_def zero_time_def\<close>)
  then show ?thesis
    by (simp add: e Let_def)
qed

text \<open>
  A client can page through \<open>GET /v1/events\<close>: the filter a request denotes asks for 1 to
  1000 rows, and when the \<open>next_cursor\<close> text of a response is sent back, the handler goes on from exactly
  the cursor the store returned, provided the time format can be read back and contains no bar.
\<close>

theorem next_cursor_round_trip:
  assumes "ad_parse_time dp (ad_fmt_time dp (cur_ts c)) = Inr (cur_ts c)" and "CHR ''|'' \<notin> set (ad_fmt_time dp (cur_ts c))"
    and "\<not> is_zero (cur_ts c)" and "rq_query rq ''cursor'' = cursor_string (ad_fmt_time dp) c"
    and "list_filter dp rq = Inr f"
  shows "f_cursor f = c \<and> 1 \<le> f_limit f \<and> f_limit f \<le> 1000"
proof -
  have "rq_query rq ''cursor'' \<noteq> ''''"
    using assms(3,4) by (simp add: cursor_string_def)
  moreover have "parse_cursor (ad_parse_time dp) (cursor_string (ad_fmt_time dp) c) = Inr c"
    using parse_cursor_string assms(1,2) by blast
  ultimately show ?thesis
    using assms(4,5)
    by (auto simp: list_filter_def Let_def parse_int_default_def split: sum.splits option.splits if_splits)
qed

theorem next_cursor_round_trip_witness:
  "\<exists>f. list_filter sample_api (sample_reload\<lparr>rq_query := (\<lambda>k. if k = ''cursor'' then ''t|a'' else '''')\<rparr>) = Inr f \<and>
     f_cursor f = \<lparr>cur_ts = Time 7, cur_id = ''a''\<rparr>"
proof -
  let ?rq = "sample_reload\<lparr>rq_query := (\<lambda>k. if k = ''cursor'' then ''t|a'' else '''')\<rparr>"
  have "\<exists>f. list_filter sample_api ?rq = Inr f"
    by (simp add: list_filter_def sample_api_def query_time_def parse_cursor_def Let_def)
  then obtain f where f: "list_filter sample_api ?rq = Inr f"
    by blast
  have "f_cursor f = \<lparr>cur_ts = Time 7, cur_id = ''a''\<rparr> \<and> 1 \<le> f_limit f \<and> f_limit f \<le> 1000"
    by (rule next_cursor_round_trip [OF _ _ _ _ f])
      (simp_all add: sample_api_def cursor_string_def is_zero_def zero_time_def)
  with f show ?thesis by blast
qed



end
