(* ===== verification/Export.thy ===== *)
theory Export
  imports Runs Objects Redaction
begin

text \<open>
  \<open>internal/export\<close>: the export job of the regulator interface. \<open>run_job\<close> pages through the events,
  renders them, signs the chain root as an anchor, writes the artifact to the object store and closes the
  job. CSV rendering follows \<open>encoding/csv\<close> in full; JSON rendering is a field of \<open>export_deps\<close>. Paging
  may not end for an arbitrary store, so the result is an \<open>option\<close>; over a store that keeps the contract
  of \<open>event_reader\<close> the job is shown to return.
\<close>

section \<open>Dependencies and state\<close>

record manifest =
  mf_type :: string
  mf_export_id :: string
  mf_format :: string
  mf_window_from :: time
  mf_window_to :: time
  mf_row_count :: int
  mf_chain_root :: string
  mf_anchor_id :: string
  mf_kms_key_id :: string
  mf_signature_hex :: string
  mf_generated_at :: time

text \<open>The library calls: \<open>encoding/json\<close>, RFC 3339 times, and \<open>%q\<close> of \<open>fmt\<close>.\<close>

record export_lib =
  xl_parse_json :: "bytes \<Rightarrow> (string \<rightharpoonup> json) result"
  xl_parse_time :: "string \<Rightarrow> time result"
  xl_fmt_time :: "time \<Rightarrow> string"
  xl_marshal_events :: "event list \<Rightarrow> bytes result"
  xl_marshal_manifest :: "manifest \<Rightarrow> bytes"
  xl_quote :: "string \<Rightarrow> string"

text \<open>
  \<open>xd_list\<close> reads the store as it is while the job pages through it; \<open>xd_now\<close> is the time of the
  job (the code reads the clock again for the manifest, the object and the job row).
\<close>

record ('a, 'j, 'o) export_deps =
  xd_list :: "filter \<Rightarrow> list_result result"
  xd_insert_anchor :: "'a \<Rightarrow> anchor \<Rightarrow> string result \<times> 'a"
  xd_update_job :: "'j \<Rightarrow> string \<Rightarrow> string \<Rightarrow> int \<Rightarrow> string \<Rightarrow> bytes \<Rightarrow> string \<Rightarrow> time \<Rightarrow> go_error option \<times> 'j"
  xd_put :: "'o \<Rightarrow> string \<Rightarrow> put_options \<Rightarrow> bytes \<Rightarrow> string result \<times> 'o"
  xd_payload_bucket :: string
  xd_signer :: "(bytes \<Rightarrow> (bytes \<times> string) result) option"
  xd_default_retention_days :: int
  xd_lib :: export_lib
  xd_now :: time

record ('a, 'j, 'o) export_state =
  xs_anchors :: 'a
  xs_jobs :: 'j
  xs_objects :: 'o

section \<open>The query\<close>

definition json_string :: "(string \<rightharpoonup> json) \<Rightarrow> string \<Rightarrow> string option" where
  "json_string q k = (case q k of Some (JString s) \<Rightarrow> Some s | _ \<Rightarrow> None)"

text \<open>A time that is absent, empty or malformed leaves the bound open.\<close>

definition query_bound :: "(string \<Rightarrow> time result) \<Rightarrow> (string \<rightharpoonup> json) \<Rightarrow> string \<Rightarrow> time" where
  "query_bound parse_time q k =
     (case json_string q k of
        None \<Rightarrow> zero_time
      | Some v \<Rightarrow>
          if v \<noteq> '''' then (case parse_time v of Inl err \<Rightarrow> zero_time | Inr ts \<Rightarrow> ts) else zero_time)"

definition query_text :: "(string \<rightharpoonup> json) \<Rightarrow> string \<Rightarrow> string" where
  "query_text q k = (case json_string q k of None \<Rightarrow> '''' | Some v \<Rightarrow> v)"

definition parse_query ::
  "(bytes \<Rightarrow> (string \<rightharpoonup> json) result) \<Rightarrow> (string \<Rightarrow> time result) \<Rightarrow> bytes \<Rightarrow> filter result" where
  "parse_query parse_json parse_time raw =
     (if length raw = 0 then Inr zero_filter
      else case parse_json raw of
             Inl err \<Rightarrow> Inl err
           | Inr q \<Rightarrow> Inr (zero_filter\<lparr>f_from := query_bound parse_time q ''from'', f_to := query_bound parse_time q ''to'',
               f_service := query_text q ''service'', f_actor := query_text q ''actor'',
               f_action := query_text q ''action'', f_target_type := query_text q ''target_type'',
               f_target_id := query_text q ''target_id''\<rparr>))"

section \<open>CSV\<close>

definition quote_char :: char where
  "quote_char = CHR 0x22"

definition line_feed :: char where
  "line_feed = CHR 0x0A"

definition carriage_return :: char where
  "carriage_return = CHR 0x0D"

lemmas csv_chars = quote_char_def line_feed_def carriage_return_def

text \<open>\<open>fieldNeedsQuotes\<close>: special characters, the end marker, or leading white space.\<close>

definition csv_needs_quotes :: "string \<Rightarrow> bool" where
  "csv_needs_quotes s \<longleftrightarrow>
     s \<noteq> '''' \<and> (s = [CHR 0x5C, CHR ''.''] \<or>
       (\<exists>c \<in> set s. c = CHR '','' \<or> c = quote_char \<or> c = carriage_return \<or> c = line_feed) \<or>
       list_ex (\<lambda>w. prefix w s) space_encodings)"

fun csv_escape :: "string \<Rightarrow> string" where
  "csv_escape [] = []"
| "csv_escape (c # cs) = (if c = quote_char then [quote_char, quote_char] else [c]) @ csv_escape cs"

definition csv_field :: "string \<Rightarrow> string" where
  "csv_field s = (if csv_needs_quotes s then quote_char # csv_escape s @ [quote_char] else s)"

definition csv_record :: "string list \<Rightarrow> string" where
  "csv_record fs = join_with (CHR '','') (map csv_field fs) @ [line_feed]"

definition bool_str :: "bool \<Rightarrow> string" where
  "bool_str b = (if b then ''true'' else ''false'')"

definition csv_header :: "string list" where
  "csv_header = [''id'', ''ts'', ''source_service'', ''actor_id'', ''action'', ''target_type'', ''target_id'',
     ''payload_hash'', ''prev_hash'', ''this_hash'', ''anchored'', ''legal_hold'', ''redacted'', ''payload_ref'']"

definition csv_row :: "(time \<Rightarrow> string) \<Rightarrow> event \<Rightarrow> string list" where
  "csv_row fmt_time e =
     [ev_id e, fmt_time (ev_ts e), ev_source_service e, ev_actor_id e, ev_action e, ev_target_type e,
      ev_target_id e, ''sha256:'' @ hex_encode (ev_payload_hash e), hash_hex (ev_prev_hash e),
      hash_hex (ev_this_hash e), bool_str (ev_anchored e), bool_str (ev_legal_hold e),
      bool_str (ev_redacted e), ev_payload_ref e]"

definition serialize_csv :: "(time \<Rightarrow> string) \<Rightarrow> event list \<Rightarrow> bytes result" where
  "serialize_csv fmt_time events =
     Inr (bytes_of (concat (map csv_record (csv_header # map (csv_row fmt_time) events))))"

section \<open>The job\<close>

definition build_manifest :: "time \<Rightarrow> export_job \<Rightarrow> event list \<Rightarrow> bytes \<Rightarrow> string \<Rightarrow> manifest" where
  "build_manifest now job events root anchor_id =
     \<lparr>mf_type = ''audit-export-manifest'', mf_export_id = job_id job, mf_format = job_format job,
      mf_window_from = (if length events > 0 then ev_ts (events ! 0) else zero_time),
      mf_window_to = (if length events > 0 then ev_ts (events ! (length events - 1)) else zero_time),
      mf_row_count = int (length events), mf_chain_root = hash_hex root, mf_anchor_id = anchor_id,
      mf_kms_key_id = '''', mf_signature_hex = '''', mf_generated_at = now\<rparr>"

definition ext_for_format :: "string \<Rightarrow> string" where
  "ext_for_format format = (if format = ''CSV'' \<or> format = ''csv'' then ''csv'' else ''json'')"

definition export_retention :: "('a, 'j, 'o) export_deps \<Rightarrow> export_job \<Rightarrow> int" where
  "export_retention dp job =
     (if job_retention_days job \<le> 0
      then (if xd_default_retention_days dp \<le> 0 then 2555 else xd_default_retention_days dp)
      else job_retention_days job)"

definition serialize_events :: "('a, 'j, 'o) export_deps \<Rightarrow> string \<Rightarrow> event list \<Rightarrow> bytes result" where
  "serialize_events dp format events =
     (if format = ''JSON'' \<or> format = '''' then xl_marshal_events (xd_lib dp) events
      else if format = ''CSV'' then serialize_csv (xl_fmt_time (xd_lib dp)) events
      else Inl (ErrMsg (''export: unsupported format '' @ xl_quote (xd_lib dp) format)))"

definition fail_job ::
  "('a, 'j, 'o) export_deps \<Rightarrow> string \<Rightarrow> ('a, 'j, 'o) export_state \<Rightarrow> ('a, 'j, 'o) export_state" where
  "fail_job dp i st =
     st\<lparr>xs_jobs := snd (xd_update_job dp (xs_jobs st) i ''FAILED'' 0 '''' [] '''' (xd_now dp))\<rparr>"

text \<open>Signing the root: the id of the new anchor, or the empty string if anything went wrong.\<close>

definition sign_root ::
  "('a, 'j, 'o) export_deps \<Rightarrow> bytes \<Rightarrow> int \<Rightarrow> ('a, 'j, 'o) export_state \<Rightarrow> string \<times> ('a, 'j, 'o) export_state" where
  "sign_root dp chain_root count st =
     (case xd_signer dp of
        None \<Rightarrow> ('''', st)
      | Some sign \<Rightarrow>
          if length chain_root = 32 then
            (case sign chain_root of
               Inl err \<Rightarrow> ('''', st)
             | Inr (sig, key_id) \<Rightarrow>
                 (case xd_insert_anchor dp (xs_anchors st)
                    \<lparr>an_id = '''', an_anchored_at = zero_time, an_root_hash = chain_root, an_last_event_id = '''',
                     an_last_event_ts = zero_time, an_signature = sig, an_kms_key_id = key_id,
                     an_notary_url = '''', an_event_count = count\<rparr> of
                    (Inl err, as) \<Rightarrow> ('''', st\<lparr>xs_anchors := as\<rparr>)
                  | (Inr i, as) \<Rightarrow> (i, st\<lparr>xs_anchors := as\<rparr>)))
          else ('''', st))"

definition export_root :: "event list \<Rightarrow> bytes" where
  "export_root all = (let root = snd (verify_chain all) in if length root \<noteq> 32 then zero_hash else root)"

definition artifact :: "('a, 'j, 'o) export_deps \<Rightarrow> export_job \<Rightarrow> event list \<Rightarrow> bytes \<Rightarrow> string \<Rightarrow> bytes \<Rightarrow> bytes" where
  "artifact dp job all root anchor_id body =
     xl_marshal_manifest (xd_lib dp) (build_manifest (xd_now dp) job all root anchor_id) @ [10] @ body @ [10]"

definition artifact_key :: "export_job \<Rightarrow> string" where
  "artifact_key job = ''exports/'' @ job_id job @ ''.'' @ ext_for_format (job_format job)"

definition finish_job ::
  "('a, 'j, 'o) export_deps \<Rightarrow> export_job \<Rightarrow> event list \<Rightarrow> ('a, 'j, 'o) export_state \<Rightarrow>
   go_error option \<times> ('a, 'j, 'o) export_state" where
  "finish_job dp job all st =
     (case serialize_events dp (job_format job) all of
        Inl err \<Rightarrow> (Some err, fail_job dp (job_id job) st)
      | Inr body \<Rightarrow>
          (let chain_root = export_root all;
               signed = sign_root dp chain_root (int (length all)) st;
               anchor_id = fst signed; st1 = snd signed;
               key = artifact_key job
           in case xd_put dp (xs_objects st1) (xd_payload_bucket dp)
                \<lparr>po_key = key, po_content_type = ''application/octet-stream'', po_storage_class = ''STANDARD'',
                 po_retention_days = export_retention dp job, po_legal_hold = False\<rparr>
                (artifact dp job all chain_root anchor_id body) of
                (Inl err, objs) \<Rightarrow>
                  (Some (ErrWrap ''export: s3 put'' err), fail_job dp (job_id job) (st1\<lparr>xs_objects := objs\<rparr>))
              | (Inr k, objs) \<Rightarrow>
                  (case xd_update_job dp (xs_jobs st1) (job_id job) ''COMPLETE'' (int (length all)) key chain_root
                     anchor_id (xd_now dp) of
                     (res, jobs) \<Rightarrow> (res, st1\<lparr>xs_objects := objs, xs_jobs := jobs\<rparr>))))"

text \<open>\<open>RunJob\<close>; a nil job is \<open>None\<close>. A cancelled context leaves the job row as it is.\<close>

definition run_job ::
  "('a, 'j, 'o) export_deps \<Rightarrow> (nat \<Rightarrow> bool) \<Rightarrow> export_job option \<Rightarrow> ('a, 'j, 'o) export_state \<Rightarrow>
   (go_error option \<times> ('a, 'j, 'o) export_state) option" where
  "run_job dp cancelled job st =
     (case job of
        None \<Rightarrow> Some (Some (ErrMsg ''export: nil job''), st)
      | Some j \<Rightarrow>
          (case parse_query (xl_parse_json (xd_lib dp)) (xl_parse_time (xd_lib dp)) (job_query j) of
             Inl err \<Rightarrow> Some (Some (ErrWrap ''export: parse query'' err), fail_job dp (job_id j) st)
           | Inr f \<Rightarrow>
               (case collect_pages cancelled (xd_list dp) 0 (f\<lparr>f_limit := 10000\<rparr>) [] of
                  None \<Rightarrow> None
                | Some (Inl Cancelled) \<Rightarrow> Some (Some ErrContext, st)
                | Some (Inl (ListFailed err)) \<Rightarrow>
                    Some (Some (ErrWrap ''export: list'' err), fail_job dp (job_id j) st)
                | Some (Inr all) \<Rightarrow> Some (finish_job dp j all st))))"


section \<open>CSV can be read back\<close>

text \<open>A reader for the quoting rules of RFC 4180, independent of the writer.\<close>

datatype csv_mode = FieldStart | Plain | Quoted | QuoteSeen

fun csv_scan :: "csv_mode \<Rightarrow> string \<Rightarrow> string list \<Rightarrow> string list list \<Rightarrow> string \<Rightarrow> string list list option" where
  "csv_scan m cur fs rows [] = (if m = FieldStart \<and> fs = [] then Some rows else None)"
| "csv_scan Quoted cur fs rows (c # cs) =
     (if c = quote_char then csv_scan QuoteSeen cur fs rows cs else csv_scan Quoted (cur @ [c]) fs rows cs)"
| "csv_scan QuoteSeen cur fs rows (c # cs) =
     (if c = quote_char then csv_scan Quoted (cur @ [quote_char]) fs rows cs
      else if c = CHR '','' then csv_scan FieldStart '''' (fs @ [cur]) rows cs
      else if c = line_feed then csv_scan FieldStart '''' [] (rows @ [fs @ [cur]]) cs
      else None)"
| "csv_scan m cur fs rows (c # cs) =
     (if c = quote_char \<and> m = FieldStart then csv_scan Quoted '''' fs rows cs
      else if c = CHR '','' then csv_scan FieldStart '''' (fs @ [cur]) rows cs
      else if c = line_feed then csv_scan FieldStart '''' [] (rows @ [fs @ [cur]]) cs
      else csv_scan Plain (cur @ [c]) fs rows cs)"

definition csv_parse :: "string \<Rightarrow> string list list option" where
  "csv_parse s = csv_scan FieldStart '''' [] [] s"

definition csv_next :: "string \<Rightarrow> string list \<Rightarrow> string list list \<Rightarrow> char \<Rightarrow> string \<Rightarrow> string list list option" where
  "csv_next cur fs rows c rest =
     (if c = CHR '','' then csv_scan FieldStart '''' (fs @ [cur]) rows rest
      else csv_scan FieldStart '''' [] (rows @ [fs @ [cur]]) rest)"

lemma csv_scan_escape:
  "csv_scan Quoted cur fs rows (csv_escape s @ rest) = csv_scan Quoted (cur @ s) fs rows rest"
  by (induction s arbitrary: cur) auto

lemma csv_scan_plain:
  assumes "\<forall>x \<in> set s. x \<noteq> CHR '','' \<and> x \<noteq> quote_char \<and> x \<noteq> line_feed" and "c = CHR '','' \<or> c = line_feed"
    and "m = Plain \<or> m = FieldStart"
  shows "csv_scan m cur fs rows (s @ c # rest) = csv_next (cur @ s) fs rows c rest"
  using assms(1,3)
proof (induction s arbitrary: cur m)
  case Nil
  then show ?case
    using assms(2) by (auto simp: csv_next_def csv_chars)
next
  case (Cons x s)
  then show ?case
    using Cons.IH [of Plain "cur @ [x]"] by (cases m) auto
qed

lemma csv_scan_field:
  assumes "c = CHR '','' \<or> c = line_feed"
  shows "csv_scan FieldStart '''' fs rows (csv_field s @ c # rest) = csv_next s fs rows c rest"
proof (cases "csv_needs_quotes s")
  case True
  then show ?thesis
    using assms by (auto simp: csv_field_def csv_scan_escape csv_next_def csv_chars)
next
  case False
  then have "\<forall>x \<in> set s. x \<noteq> CHR '','' \<and> x \<noteq> quote_char \<and> x \<noteq> line_feed"
    by (auto simp: csv_needs_quotes_def)
  from csv_scan_plain [OF this assms, of FieldStart "''''"] False show ?thesis
    by (simp add: csv_field_def)
qed

lemma csv_scan_record:
  "gs \<noteq> [] \<Longrightarrow> csv_scan FieldStart '''' fs rows (csv_record gs @ rest) =
     csv_scan FieldStart '''' [] (rows @ [fs @ gs]) rest"
proof (induction gs arbitrary: fs)
  case (Cons g gs)
  show ?case
  proof (cases gs)
    case Nil
    then show ?thesis
      using csv_scan_field [of line_feed fs rows g rest] by (simp add: csv_record_def csv_next_def csv_chars)
  next
    case (Cons g' gs')
    then have "csv_record (g # gs) = csv_field g @ CHR '','' # csv_record gs"
      by (simp add: csv_record_def)
    then show ?thesis
      using Cons Cons.IH [of "fs @ [g]"] csv_scan_field [of "CHR '',''" fs rows g "csv_record gs @ rest"]
      by (simp add: csv_next_def)
  qed
qed simp

lemma csv_parse_records: "\<forall>r \<in> set rs. r \<noteq> [] \<Longrightarrow> csv_parse (concat (map csv_record rs)) = Some rs"
proof -
  have "\<forall>r \<in> set rs. r \<noteq> [] \<Longrightarrow>
      csv_scan FieldStart '''' [] rows (concat (map csv_record rs)) = Some (rows @ rs)" for rows
    by (induction rs arbitrary: rows) (simp_all add: csv_scan_record)
  then show "\<forall>r \<in> set rs. r \<noteq> [] \<Longrightarrow> ?thesis"
    by (simp add: csv_parse_def)
qed

section \<open>The job over stores that keep their contracts\<close>

definition closed_job ::
  "export_job \<Rightarrow> string \<Rightarrow> int \<Rightarrow> string \<Rightarrow> bytes \<Rightarrow> string \<Rightarrow> time \<Rightarrow> export_job" where
  "closed_job j status n payload_ref root anchor_id t =
     j\<lparr>job_status := status, job_row_count := n, job_payload_ref := payload_ref, job_chain_root := root,
       job_anchor_id := anchor_id, job_completed_at := (if is_zero t then job_completed_at j else t)\<rparr>"

locale export_job_store =
  fixes get_job :: "'j \<Rightarrow> string \<Rightarrow> export_job result"
    and update_job :: "'j \<Rightarrow> string \<Rightarrow> string \<Rightarrow> int \<Rightarrow> string \<Rightarrow> bytes \<Rightarrow> string \<Rightarrow> time \<Rightarrow> go_error option \<times> 'j"
  assumes update_present: "get_job s i = Inr j \<Longrightarrow>
      \<exists>s'. update_job s i status n payload_ref root anchor_id t = (None, s') \<and>
        get_job s' i = Inr (closed_job j status n payload_ref root anchor_id t)"
    and update_others: "i' \<noteq> i \<Longrightarrow>
      get_job (snd (update_job s i status n payload_ref root anchor_id t)) i' = get_job s i'"

interpretation mem_jobs: export_job_store mem_get_job mem_update_job
  by unfold_locales
    (auto simp: mem_get_job_def mem_update_job_def closed_job_def Let_def split: option.splits)

locale exporting =
  event_reader inv log get list_events chain_head + object_store put body_at "\<lambda>k. k" +
  anchor_store anchors insert_anchor list_anchors + export_job_store get_job update_job
  for inv :: "'e \<Rightarrow> bool" and log :: "'e \<Rightarrow> event list" and get list_events chain_head
    and put :: "time \<Rightarrow> 'o \<Rightarrow> string \<Rightarrow> put_options \<Rightarrow> bytes \<Rightarrow> string result \<times> 'o" and body_at
    and anchors :: "'a \<Rightarrow> anchor list" and insert_anchor list_anchors
    and get_job :: "'j \<Rightarrow> string \<Rightarrow> export_job result" and update_job +
  fixes dp :: "('a, 'j, 'o) export_deps" and s :: 'e
  assumes dp_list: "xd_list dp = list_events s"
    and dp_anchor: "xd_insert_anchor dp = insert_anchor"
    and dp_update: "xd_update_job dp = update_job"
    and dp_put: "xd_put dp = put (xd_now dp)"
begin

lemma sign_root_cases:
  assumes "sign_root dp root n st = (i, st')"
  shows "xs_jobs st' = xs_jobs st \<and> xs_objects st' = xs_objects st \<and>
    (anchors (xs_anchors st') = anchors (xs_anchors st) \<or>
     (\<exists>a. anchors (xs_anchors st') = anchors (xs_anchors st) @ [a] \<and> an_root_hash a = root \<and>
        an_last_event_id a = '''' \<and> an_event_count a = n \<and> an_id a = i))"
proof (cases "\<exists>sign sig key_id. xd_signer dp = Some sign \<and> length root = 32 \<and> sign root = Inr (sig, key_id)")
  case True
  then obtain sign sig key_id where
    sign: "xd_signer dp = Some sign" "length root = 32" "sign root = Inr (sig, key_id)"
    by blast
  let ?a = "\<lparr>an_id = '''', an_anchored_at = zero_time, an_root_hash = root, an_last_event_id = '''',
    an_last_event_ts = zero_time, an_signature = sig, an_kms_key_id = key_id, an_notary_url = '''', an_event_count = n\<rparr>"
  obtain i' now as' where ins: "insert_anchor (xs_anchors st) ?a = (Inr i', as')"
    "anchors as' = anchors (xs_anchors st) @ [stamp_anchor i' now ?a]"
    using insert_anchor by blast
  with sign assms have "i = i'" "st' = st\<lparr>xs_anchors := as'\<rparr>"
    by (auto simp: sign_root_def dp_anchor)
  with ins show ?thesis
    by (simp add: stamp_anchor_def)
next
  case False
  then have "st' = st"
    using assms by (auto simp: sign_root_def split: option.splits if_splits sum.splits)
  then show ?thesis by simp
qed

lemma job_pages:
  assumes "inv s" and "\<forall>e \<in> set (log s). \<not> is_zero (ev_ts e)" and "\<forall>k. \<not> cancelled k"
    and "parse_query pj pt raw = Inr f"
  shows "collect_pages cancelled (xd_list dp) 0 (f\<lparr>f_limit := 10000\<rparr>) [] =
    Some (Inr (List.filter (matches_fields f) (log s)))"
proof -
  have "f_cursor f = zero_cursor"
    using assms(4) by (auto simp: parse_query_def zero_filter_def split: if_splits sum.splits)
  then have "passes_filter (f\<lparr>f_limit := 10000\<rparr>) = matches_fields f"
    by (simp add: fun_eq_iff passes_filter_def)
  then show ?thesis
    using pages_complete [OF assms(1,2), of cancelled 0 "f\<lparr>f_limit := 10000\<rparr>" "[]"] assms(3)
    by (simp add: dp_list)
qed

lemma run_job_complete:
  assumes inv: "inv s" and ts: "\<forall>e \<in> set (log s). \<not> is_zero (ev_ts e)" and live: "\<forall>k. \<not> cancelled k"
    and query: "parse_query (xl_parse_json (xd_lib dp)) (xl_parse_time (xd_lib dp)) (job_query j) = Inr f"
  defines "rows \<equiv> List.filter (matches_fields f) (log s)"
  assumes body: "serialize_events dp (job_format j) rows = Inr body"
    and job: "get_job (xs_jobs st) (job_id j) = Inr j0"
    and put: "\<And>opts b. po_key opts = artifact_key j \<Longrightarrow>
      \<exists>k objs. put (xd_now dp) (xs_objects st) (xd_payload_bucket dp) opts b = (Inr k, objs)"
  shows "\<exists>st' anchor_id. run_job dp cancelled (Some j) st = Some (None, st') \<and>
    get_job (xs_jobs st') (job_id j) = Inr (closed_job j0 ''COMPLETE'' (int (length rows)) (artifact_key j)
      (export_root rows) anchor_id (xd_now dp)) \<and>
    body_at (xs_objects st') (xd_payload_bucket dp) (artifact_key j) =
      Inr (artifact dp j rows (export_root rows) anchor_id body)"
proof -
  note pages = job_pages [OF inv ts live query, folded rows_def]
  obtain i st1 where sign: "sign_root dp (export_root rows) (int (length rows)) st = (i, st1)"
    by (cases "sign_root dp (export_root rows) (int (length rows)) st")
  have st1: "xs_jobs st1 = xs_jobs st" "xs_objects st1 = xs_objects st"
    using sign_root_cases [OF sign] by simp_all
  define opts where "opts = \<lparr>po_key = artifact_key j, po_content_type = ''application/octet-stream'',
    po_storage_class = ''STANDARD'', po_retention_days = export_retention dp j, po_legal_hold = False\<rparr>"
  let ?art = "artifact dp j rows (export_root rows) i body"
  have key: "po_key opts = artifact_key j"
    by (simp add: opts_def)
  obtain k objs where put': "put (xd_now dp) (xs_objects st) (xd_payload_bucket dp) opts ?art = (Inr k, objs)"
    using put [OF key] by blast
  obtain jobs where upd: "update_job (xs_jobs st) (job_id j) ''COMPLETE'' (int (length rows)) (artifact_key j)
      (export_root rows) i (xd_now dp) = (None, jobs)"
    and closed: "get_job jobs (job_id j) = Inr (closed_job j0 ''COMPLETE'' (int (length rows)) (artifact_key j)
      (export_root rows) i (xd_now dp))"
    using update_present [OF job] by blast
  have "run_job dp cancelled (Some j) st = Some (None, st1\<lparr>xs_objects := objs, xs_jobs := jobs\<rparr>)"
    using query pages body sign st1 put' upd
    by (simp add: run_job_def finish_job_def Let_def dp_put dp_update opts_def)
  with closed put_stores [OF put'] key show ?thesis
    by (intro exI [of _ "st1\<lparr>xs_objects := objs, xs_jobs := jobs\<rparr>"] exI [of _ i]) simp
qed

end

context exporting
begin

lemma fail_job_closes:
  assumes "get_job (xs_jobs st) i = Inr j0"
  shows "get_job (xs_jobs (fail_job dp i st)) i = Inr (closed_job j0 ''FAILED'' 0 '''' [] '''' (xd_now dp))"
  using update_present [OF assms, of "''FAILED''" 0 "''''" "[]" "''''" "xd_now dp"]
  by (auto simp: fail_job_def dp_update)

lemma finish_job_closes:
  assumes job: "get_job (xs_jobs st) (job_id j) = Inr j0"
    and fin: "finish_job dp j all st = (res, st')"
  shows "\<exists>j1. get_job (xs_jobs st') (job_id j) = Inr j1 \<and>
    job_status j1 = (if res = None then ''COMPLETE'' else ''FAILED'')"
proof (cases "serialize_events dp (job_format j) all")
  case (Inl err)
  with fin fail_job_closes [OF job] show ?thesis
    by (auto simp: finish_job_def closed_job_def)
next
  case (Inr body)
  obtain i st1 where sign: "sign_root dp (export_root all) (int (length all)) st = (i, st1)"
    by (cases "sign_root dp (export_root all) (int (length all)) st")
  then have job1: "get_job (xs_jobs st1) (job_id j) = Inr j0"
    using sign_root_cases [OF sign] job by simp
  have failed: "get_job (xs_jobs (fail_job dp (job_id j) (st1\<lparr>xs_objects := objs\<rparr>))) (job_id j) =
      Inr (closed_job j0 ''FAILED'' 0 '''' [] '''' (xd_now dp))" for objs
    using fail_job_closes [of "st1\<lparr>xs_objects := objs\<rparr>"] job1 by simp
  obtain jobs where upd: "update_job (xs_jobs st1) (job_id j) ''COMPLETE'' (int (length all)) (artifact_key j)
      (export_root all) i (xd_now dp) = (None, jobs)"
    and closed: "get_job jobs (job_id j) = Inr (closed_job j0 ''COMPLETE'' (int (length all)) (artifact_key j)
      (export_root all) i (xd_now dp))"
    using update_present [OF job1] by blast
  show ?thesis
    using fin Inr sign upd closed failed
    by (auto simp: finish_job_def Let_def dp_update closed_job_def split: prod.splits sum.splits)
qed

text \<open>Whatever goes wrong, the job returns, and its row is closed with the outcome it returns.\<close>

lemma run_job_returns:
  assumes "inv s" and "\<forall>e \<in> set (log s). \<not> is_zero (ev_ts e)" and "\<forall>k. \<not> cancelled k"
    and job: "get_job (xs_jobs st) (job_id j) = Inr j0"
  shows "\<exists>res st' j1. run_job dp cancelled (Some j) st = Some (res, st') \<and>
    get_job (xs_jobs st') (job_id j) = Inr j1 \<and>
    job_status j1 = (if res = None then ''COMPLETE'' else ''FAILED'')"
proof (cases "parse_query (xl_parse_json (xd_lib dp)) (xl_parse_time (xd_lib dp)) (job_query j)")
  case (Inl err)
  with fail_job_closes [OF job] show ?thesis
    by (simp add: run_job_def closed_job_def)
next
  case (Inr f)
  obtain res st' where fin: "finish_job dp j (List.filter (matches_fields f) (log s)) st = (res, st')"
    by (cases "finish_job dp j (List.filter (matches_fields f) (log s)) st")
  with Inr job_pages [OF assms(1-3) Inr]
  have "run_job dp cancelled (Some j) st = Some (res, st')"
    by (simp add: run_job_def)
  with finish_job_closes [OF job fin] show ?thesis
    by blast
qed

end

section \<open>The job over the in-memory stores\<close>

text \<open>The dependencies as \<open>app.Build\<close> fills them in when no database and no AWS client is configured.\<close>

definition mem_export_deps ::
  "export_lib \<Rightarrow> string \<Rightarrow> time \<Rightarrow> mem_store \<Rightarrow> string \<Rightarrow> (bytes \<Rightarrow> (bytes \<times> string) result) option \<Rightarrow> int \<Rightarrow>
   (anchor_store, job_store, fake_s3) export_deps" where
  "mem_export_deps lib fresh now s bucket signer retention =
     \<lparr>xd_list = mem_list s, xd_insert_anchor = mem_insert_anchor fresh now, xd_update_job = mem_update_job,
      xd_put = export_put_adapter now, xd_payload_bucket = bucket, xd_signer = signer,
      xd_default_retention_days = retention, xd_lib = lib, xd_now = now\<rparr>"

interpretation mem_export: exporting mem_inv mem_log mem_get mem_list mem_chain_head export_put_adapter s3_get
  "\<lambda>s. s" "mem_insert_anchor fresh now" mem_list_anchors mem_get_job mem_update_job
  "mem_export_deps lib fresh now s bucket signer retention" s
  for lib :: export_lib and fresh :: string and now :: time and s :: mem_store and bucket :: string
    and signer :: "(bytes \<Rightarrow> (bytes \<times> string) result) option" and retention :: int
  by unfold_locales (simp_all add: mem_export_deps_def)

text \<open>A put is refused only for an object that is there and retained.\<close>

lemma export_put_free:
  "map_of objs (object_path bucket (po_key opts)) = None \<Longrightarrow>
   \<exists>k objs'. export_put_adapter now objs bucket opts b = (Inr k, objs')"
  by (simp add: export_put_adapter_def s3_put_def Let_def)

lemma mem_get_job_iff [simp]: "mem_get_job jobs i = Inr j \<longleftrightarrow> jobs i = Some j"
  by (simp add: mem_get_job_def split: option.splits)

text \<open>The exported anchor names no event, so looking its event up fails.\<close>

lemma sweep_counts_unnamed_anchors:
  assumes inv: "mem_inv s" and noname: "'''' \<notin> ev_id ` set (mem_log s)"
    and r: "sweep cancelled (mem_list s) (mem_get s) (Some (mem_list_anchors anchs)) lo hi signer now = Some (Inr r)"
    and a: "a \<in> set anchs" "an_last_event_id a = ''''" "in_window lo hi (an_anchored_at a)"
  shows "0 < rp_anchor_mismatches r"
proof -
  obtain all where r': "r = report_sign signer now (snd (verify_chain all))
      (report_anchors (mem_get s) (Some (mem_list_anchors anchs)) (report_chain all (new_report lo hi)))"
    using r by (auto simp: sweep_def split: option.splits sum.splits page_error.splits)
  obtain as where as: "mem_list_anchors anchs lo hi = Inr as"
    "set as = {a \<in> set anchs. in_window lo hi (an_anchored_at a)}"
    using mem_anchors.list_anchors [of anchs lo hi] by blast
  have "anchor_mismatch (mem_get s) a"
    using mem.get_missing [OF inv noname] a(2) by (simp add: anchor_mismatch_def)
  with a as have "List.filter (anchor_mismatch (mem_get s)) as \<noteq> []"
    by (auto simp: filter_empty_conv)
  moreover have "rp_from (report_chain all (new_report lo hi)) = lo" "rp_to (report_chain all (new_report lo hi)) = hi"
    "rp_anchor_mismatches (report_chain all (new_report lo hi)) = 0"
    by (simp_all add: report_chain_fields) (simp_all add: new_report_def)
  ultimately show ?thesis
    using r' as(1) by (simp add: frame_simps report_anchors_def anchor_mismatches_count)
qed

lemma fail_job_anchors [simp]: "xs_anchors (fail_job dp i st) = xs_anchors st"
  by (simp add: fail_job_def)

lemma finish_job_anchors:
  assumes "serialize_events dp (job_format j) all = Inr body" and "finish_job dp j all st = (res, st')"
  shows "xs_anchors st' = xs_anchors (snd (sign_root dp (export_root all) (int (length all)) st))"
  using assms by (auto simp: finish_job_def Let_def split: sum.splits prod.splits)

lemma export_root_length [simp]: "length (export_root all) = 32"
  by (simp add: export_root_def Let_def zero_hash_def)

lemma mem_sign_root:
  assumes "sign (export_root all) = Inr (sig, key_id)"
  shows "\<exists>a. xs_anchors (snd (sign_root (mem_export_deps lib fresh now s bucket (Some sign) retention)
      (export_root all) n st)) = xs_anchors st @ [a] \<and> an_last_event_id a = '''' \<and> an_anchored_at a = now"
  using assms by (simp add: sign_root_def mem_export_deps_def mem_insert_anchor_def Let_def)

section \<open>Samples\<close>

definition sample_export_lib :: export_lib where
  "sample_export_lib = \<lparr>xl_parse_json = (\<lambda>raw. Inr Map.empty), xl_parse_time = (\<lambda>v. Inl (ErrMsg v)),
     xl_fmt_time = (\<lambda>t. ''t''), xl_marshal_events = (\<lambda>es. Inr []), xl_marshal_manifest = (\<lambda>m. bytes_of (mf_export_id m)),
     xl_quote = (\<lambda>v. v)\<rparr>"

definition sample_job :: export_job where
  "sample_job = \<lparr>job_id = ''j'', job_query = [], job_format = ''CSV'', job_retention_days = 0, job_status = ''PENDING'',
     job_row_count = 0, job_payload_ref = '''', job_chain_root = [], job_anchor_id = '''',
     job_created_at = Time 5, job_completed_at = zero_time\<rparr>"

definition sample_export_state :: "(anchor_store, job_store, fake_s3) export_state" where
  "sample_export_state = \<lparr>xs_anchors = [], xs_jobs = [''j'' \<mapsto> sample_job], xs_objects = []\<rparr>"

abbreviation sample_export_deps :: "(anchor_store, job_store, fake_s3) export_deps" where
  "sample_export_deps \<equiv>
     mem_export_deps sample_export_lib ''a1'' (Time 9) sample_store ''b'' (Some (\<lambda>root. Inr (root, ''k''))) 0"

lemma sample_export_facts:
  "mem_inv sample_store" "\<forall>e \<in> set (mem_log sample_store). \<not> is_zero (ev_ts e)"
  "xs_jobs sample_export_state (job_id sample_job) = Some sample_job" "job_format sample_job = ''CSV''"
  "parse_query (xl_parse_json sample_export_lib) (xl_parse_time sample_export_lib) (job_query sample_job) = Inr zero_filter"
  "map_of (xs_objects sample_export_state) p = None"
  using sample_store_healthy
  by (simp_all add: healthy_def sample_job_def sample_export_state_def parse_query_def)

section \<open>Properties\<close>

text \<open>
  Property C32. An export job ends: over the in-memory stores, with a context that is not cancelled,
  \<open>RunJob\<close> returns for every query, format, signer and state of the object store, and leaves the row
  of its job closed, as COMPLETE if it returns no error and as FAILED if it returns one.
\<close>

theorem export_job_returns:
  fixes lib :: export_lib and fresh :: string and now :: time and bucket :: string and retention :: int
  assumes "mem_inv s" and "\<forall>e \<in> set (mem_log s). \<not> is_zero (ev_ts e)" and "\<forall>k. \<not> cancelled k"
    and "xs_jobs st (job_id j) = Some j0"
  shows "\<exists>res st' j1. run_job (mem_export_deps lib fresh now s bucket signer retention) cancelled (Some j) st =
      Some (res, st') \<and> xs_jobs st' (job_id j) = Some j1 \<and>
    job_status j1 = (if res = None then ''COMPLETE'' else ''FAILED'')"
  using mem_export.run_job_returns [OF assms(1-3), of st j j0] assms(4) by simp

theorem export_job_returns_witness:
  "\<exists>res st' j1. run_job sample_export_deps (\<lambda>k. False) (Some (sample_job\<lparr>job_format := ''XML''\<rparr>)) sample_export_state =
      Some (res, st') \<and> xs_jobs st' ''j'' = Some j1 \<and>
    job_status j1 = (if res = None then ''COMPLETE'' else ''FAILED'')"
  using export_job_returns [OF sample_export_facts(1,2), of "\<lambda>k. False" sample_export_state
      "sample_job\<lparr>job_format := ''XML''\<rparr>" sample_job]
  by (simp add: sample_export_state_def sample_job_def)

text \<open>
  Property C33. A CSV export loses nothing: if no object is stored under the job's key, the job
  completes, the object then holds the manifest and the table, and reading the table back by the
  quoting rules of CSV gives the header and, row by row, every field of exactly the matching events in
  \<open>(ts, id)\<close> order, whatever characters the fields contain; the manifest counts them and names the
  hash of the last one as the chain root if they form an intact chain.
\<close>

theorem csv_export_round_trip:
  fixes lib :: export_lib and fresh :: string and now :: time and bucket :: string and retention :: int
  assumes "mem_inv s" and "\<forall>e \<in> set (mem_log s). \<not> is_zero (ev_ts e)" and "\<forall>k. \<not> cancelled k"
    and "xs_jobs st (job_id j) = Some j0" and "job_format j = ''CSV''"
    and "parse_query (xl_parse_json lib) (xl_parse_time lib) (job_query j) = Inr f"
    and "map_of (xs_objects st) (object_path bucket (artifact_key j)) = None"
  defines "rows \<equiv> List.filter (matches_fields f) (mem_log s)"
  shows "\<exists>st' m table. run_job (mem_export_deps lib fresh now s bucket signer retention) cancelled (Some j) st =
      Some (None, st') \<and>
    s3_get (xs_objects st') bucket (artifact_key j) =
      Inr (xl_marshal_manifest lib m @ [10] @ bytes_of table @ [10]) \<and>
    csv_parse table = Some (csv_header # map (csv_row (xl_fmt_time lib)) rows) \<and>
    mf_row_count m = int (length rows) \<and>
    (intact rows \<longrightarrow> mf_chain_root m = hash_hex (if rows = [] then zero_hash else ev_this_hash (last rows)))"
proof -
  let ?dp = "mem_export_deps lib fresh now s bucket signer retention"
  define table where "table = concat (map csv_record (csv_header # map (csv_row (xl_fmt_time lib)) rows))"
  have dp: "xd_lib ?dp = lib" "xd_payload_bucket ?dp = bucket" "xd_now ?dp = now"
    by (simp_all add: mem_export_deps_def)
  have body: "serialize_events ?dp (job_format j) rows = Inr (bytes_of table)"
    by (simp add: assms(5) serialize_events_def dp serialize_csv_def table_def)
  have put: "\<exists>k objs. export_put_adapter (xd_now ?dp) (xs_objects st) (xd_payload_bucket ?dp) opts b = (Inr k, objs)"
    if "po_key opts = artifact_key j" for opts b
    using export_put_free [of "xs_objects st" bucket opts] assms(7) that by (simp add: dp)
  obtain st' i where run: "run_job ?dp cancelled (Some j) st = Some (None, st')"
    and get: "s3_get (xs_objects st') bucket (artifact_key j) = Inr (artifact ?dp j rows (export_root rows) i (bytes_of table))"
    using mem_export.run_job_complete [OF assms(1-3) _ body [unfolded rows_def], of st j0] assms(4,6) put
    by (auto simp: dp rows_def)
  let ?m = "build_manifest now j rows (export_root rows) i"
  have "csv_parse table = Some (csv_header # map (csv_row (xl_fmt_time lib)) rows)"
    unfolding table_def by (rule csv_parse_records) (auto simp: csv_header_def csv_row_def)
  moreover have "mf_chain_root ?m = hash_hex (if rows = [] then zero_hash else ev_this_hash (last rows))" if "intact rows"
    using that intact_root_length [of rows] by (simp add: build_manifest_def export_root_def Let_def verify_chain_root)
  ultimately show ?thesis
    using run get by (intro exI [of _ st'] exI [of _ ?m] exI [of _ table])
      (simp add: artifact_def dp build_manifest_def)
qed

theorem csv_export_round_trip_witness:
  "\<exists>st' m table. run_job sample_export_deps (\<lambda>k. False) (Some sample_job) sample_export_state = Some (None, st') \<and>
     s3_get (xs_objects st') ''b'' (artifact_key sample_job) =
       Inr (xl_marshal_manifest sample_export_lib m @ [10] @ bytes_of table @ [10]) \<and>
     csv_parse table = Some (csv_header # map (csv_row (xl_fmt_time sample_export_lib)) sample_chain) \<and> mf_row_count m = 2"
proof -
  have rows: "List.filter (matches_fields zero_filter) (mem_log sample_store) = sample_chain"
    by (simp add: sample_store_log filter_id_conv matches_fields_def zero_filter_def)
  have len: "length sample_chain = 2"
    by (simp add: sample_chain_def)
  show ?thesis
    using csv_export_round_trip [OF sample_export_facts(1,2) _ sample_export_facts(3-6), of "\<lambda>k. False",
        where bucket = "''b''" and fresh = "''a1''" and now = "Time 9"
        and signer = "Some (\<lambda>root. Inr (root, ''k''))" and retention = 0]
    by (simp only: rows len) (simp, blast)
qed

text \<open>
  Every signed export makes later integrity sweeps report a mismatch: the anchor that
  \<open>RunJob\<close> stores names no last event, and \<open>Sweep\<close> looks the event of each anchor up by that empty id.
  A sweep over any window that contains the time of the export counts at least one mismatched anchor,
  although no row was touched.
\<close>

theorem export_anchor_alarms_sweep:
  fixes lib :: export_lib and fresh :: string and now :: time and bucket :: string and retention :: int
  assumes "mem_inv s" and "\<forall>e \<in> set (mem_log s). \<not> is_zero (ev_ts e) \<and> ev_id e \<noteq> ''''" and "\<forall>k. \<not> cancelled k"
    and "job_format j = ''CSV''" and "parse_query (xl_parse_json lib) (xl_parse_time lib) (job_query j) = Inr f"
    and "\<forall>root. \<exists>sig key_id. sign root = Inr (sig, key_id)"
    and "run_job (mem_export_deps lib fresh now s bucket (Some sign) retention) cancelled (Some j) st = Some (res, st')"
    and "in_window lo hi now"
    and "sweep cancelled (mem_list s) (mem_get s) (Some (mem_list_anchors (xs_anchors st'))) lo hi signer later = Some (Inr r)"
  shows "0 < rp_anchor_mismatches r"
proof -
  let ?dp = "mem_export_deps lib fresh now s bucket (Some sign) retention"
  let ?rows = "List.filter (matches_fields f) (mem_log s)"
  have ts: "\<forall>e \<in> set (mem_log s). \<not> is_zero (ev_ts e)" and noname: "'''' \<notin> ev_id ` set (mem_log s)"
    using assms(2) by auto
  have lib: "xd_lib ?dp = lib"
    by (simp add: mem_export_deps_def)
  have "finish_job ?dp j ?rows st = (res, st')"
    using assms(7) mem_export.job_pages [OF assms(1) ts assms(3,5)] assms(5) by (simp add: run_job_def lib)
  moreover obtain body where "serialize_events ?dp (job_format j) ?rows = Inr body"
    by (simp add: assms(4) serialize_events_def serialize_csv_def)
  ultimately have anchs: "xs_anchors st' =
      xs_anchors (snd (sign_root ?dp (export_root ?rows) (int (length ?rows)) st))"
    by (intro finish_job_anchors)
  obtain sig key_id where sign: "sign (export_root ?rows) = Inr (sig, key_id)"
    using assms(6) by blast
  obtain a where a: "xs_anchors st' = xs_anchors st @ [a]" "an_last_event_id a = ''''" "an_anchored_at a = now"
    using mem_sign_root [of sign ?rows sig key_id lib fresh now s bucket retention "int (length ?rows)" st, OF sign] anchs by auto
  show ?thesis
    by (rule sweep_counts_unnamed_anchors [OF assms(1) noname assms(9), of a]) (use a assms(8) in simp_all)
qed

theorem export_anchor_alarms_sweep_witness:
  "\<exists>res st' r. run_job sample_export_deps (\<lambda>k. False) (Some sample_job) sample_export_state = Some (res, st') \<and>
     sweep (\<lambda>k. False) (mem_list sample_store) (mem_get sample_store) (Some (mem_list_anchors (xs_anchors st')))
       zero_time zero_time None (Time 10) = Some (Inr r) \<and> 0 < rp_anchor_mismatches r"
proof -
  obtain res st' where run: "run_job sample_export_deps (\<lambda>k. False) (Some sample_job) sample_export_state = Some (res, st')"
    using mem_export.run_job_returns [OF sample_export_facts(1,2), of "\<lambda>k. False" sample_export_state sample_job sample_job]
      sample_export_facts(3) by fastforce
  obtain r where r: "sweep (\<lambda>k. False) (mem_list sample_store) (mem_get sample_store)
      (Some (mem_list_anchors (xs_anchors st'))) zero_time zero_time None (Time 10) = Some (Inr r)"
    using mem.sweep_returns [OF sample_export_facts(1,2), of "\<lambda>k. False"] by fastforce
  have named: "\<forall>e \<in> set (mem_log sample_store). \<not> is_zero (ev_ts e) \<and> ev_id e \<noteq> ''''"
    using sample_export_facts(2) by (simp add: sample_store_log sample_chain_def)
  have "0 < rp_anchor_mismatches r"
    by (rule export_anchor_alarms_sweep [OF sample_export_facts(1) named _ sample_export_facts(4,5) _ run _ r])
      (simp_all add: in_window_def is_zero_def)
  with run r show ?thesis
    by blast
qed

end
