(* ===== verification/Postgres.thy ===== *)
theory Postgres
  imports Export
begin

text \<open>
  \<open>internal/store/postgres\<close>: the stores over PostgreSQL. The code's part of each operation is modelled as
  written: the conditions and numbered arguments of a query, the statements of a transaction in their
  order, the rows-affected tests and the error of every call. The tables are lists of rows, and the SQL
  statements act on them with the meaning SQL gives them. What the server and the driver do to a value
  on its way into a column (the syntax of a UUID, the range of an \<open>int\<close>, the precision of a \<open>timestamptz\<close>, the encoding of text,
  the normal form of \<open>jsonb\<close>) is the parameter \<open>pg_codec\<close>; whether a statement fails is the parameter
  \<open>faults\<close>. \<open>InsertChained\<close> is one transition here; the theory \<open>Replicas\<close> takes it apart.
\<close>

section \<open>The database\<close>

record pg_codec =
  cd_uuid :: "string \<Rightarrow> string result"
  cd_time :: "time \<Rightarrow> time result"
  cd_text :: "string \<Rightarrow> string result"
  cd_json :: "bytes \<Rightarrow> bytes result"
  cd_int4 :: "int \<Rightarrow> int result"

datatype statement =
    BeginTx | SetIsolation | AdvisoryLock | HeadHash | InsertEvent | CommitTx
  | SelectEvent | ListEvents | SelectHead | UpdateHold | UpdateAnchored
  | InsertAnchor | ListAnchors | SelectAnchor | InsertJob | SelectJob | UpdateJob | ListJobs
  | InsertDead | ListDead

type_synonym faults = "statement \<Rightarrow> go_error option"

definition no_faults :: faults where
  "no_faults stmt = None"

record pg_db =
  pg_events :: "event list"
  pg_anchors :: "anchor list"
  pg_jobs :: "export_job list"
  pg_dead :: "dead_letter list"

definition empty_db :: pg_db where
  "empty_db = \<lparr>pg_events = [], pg_anchors = [], pg_jobs = [], pg_dead = []\<rparr>"

text \<open>Sequencing of calls that may fail, and the outcome of one statement.\<close>

definition and_then :: "'a result \<Rightarrow> ('a \<Rightarrow> 'b result) \<Rightarrow> 'b result" where
  "and_then r f = (case r of Inl err \<Rightarrow> Inl err | Inr x \<Rightarrow> f x)"

lemma and_then_simps [simp]: "and_then (Inl err) f = Inl err" "and_then (Inr x) f = f x"
  by (simp_all add: and_then_def)

lemma and_then_Inr: "and_then r f = Inr y \<longleftrightarrow> (\<exists>x. r = Inr x \<and> f x = Inr y)"
  by (cases r) simp_all

definition run_statement :: "faults \<Rightarrow> statement \<Rightarrow> 'a result \<Rightarrow> 'a result" where
  "run_statement faults stmt r = (case faults stmt of Some err \<Rightarrow> Inl err | None \<Rightarrow> r)"

lemma run_statement_no_faults [simp]: "run_statement no_faults stmt r = r"
  by (simp add: run_statement_def no_faults_def)

text \<open>The row that a list of column values becomes.\<close>

definition encode_row :: "pg_codec \<Rightarrow> event \<Rightarrow> event result" where
  "encode_row cd e =
     and_then (cd_uuid cd (ev_id e)) (\<lambda>i.
     and_then (cd_time cd (ev_ts e)) (\<lambda>ts.
     and_then (cd_text cd (ev_source_service e)) (\<lambda>service.
     and_then (cd_text cd (ev_actor_id e)) (\<lambda>actor.
     and_then (cd_text cd (ev_action e)) (\<lambda>action.
     and_then (cd_text cd (ev_target_type e)) (\<lambda>target_type.
     and_then (cd_text cd (ev_target_id e)) (\<lambda>target_id.
     and_then (cd_text cd (ev_payload_ref e)) (\<lambda>payload_ref.
       Inr (e\<lparr>ev_id := i, ev_ts := ts, ev_source_service := service, ev_actor_id := actor, ev_action := action,
              ev_target_type := target_type, ev_target_id := target_id, ev_payload_ref := payload_ref\<rparr>)))))))))"

section \<open>Queries with numbered arguments\<close>

datatype sql_value = VTime time | VText string

datatype sql_op = OpGe | OpLt | OpLe | OpEq

text \<open>\<open>Cmp c op n\<close> is \<open>AND c op $n\<close>; \<open>RowAfter m n\<close> is \<open>AND (ts, id) > ($m, $n)\<close>.\<close>

datatype sql_cond = Cmp string sql_op nat | RowAfter nat nat

record sql_query =
  sq_conds :: "sql_cond list"
  sq_args :: "sql_value list"
  sq_n :: nat

definition start_query :: sql_query where
  "start_query = \<lparr>sq_conds = [], sq_args = [], sq_n = 1\<rparr>"

definition add_cond :: "bool \<Rightarrow> string \<Rightarrow> sql_op \<Rightarrow> sql_value \<Rightarrow> sql_query \<Rightarrow> sql_query" where
  "add_cond present col op v q =
     (if present then
        \<lparr>sq_conds = sq_conds q @ [Cmp col op (sq_n q)], sq_args = sq_args q @ [v], sq_n = sq_n q + 1\<rparr>
      else q)"

definition add_cursor :: "cursor \<Rightarrow> sql_query \<Rightarrow> sql_query" where
  "add_cursor c q =
     (if \<not> is_zero (cur_ts c) \<or> cur_id c \<noteq> '''' then
        q\<lparr>sq_conds := sq_conds q @ [RowAfter (sq_n q) (sq_n q + 1)],
          sq_args := sq_args q @ [VTime (cur_ts c), VText (cur_id c)]\<rparr>
      else q)"

definition events_query :: "filter \<Rightarrow> sql_query" where
  "events_query f =
     add_cursor (f_cursor f)
       (add_cond (f_target_id f \<noteq> '''') ''target_id'' OpEq (VText (f_target_id f))
       (add_cond (f_target_type f \<noteq> '''') ''target_type'' OpEq (VText (f_target_type f))
       (add_cond (f_action f \<noteq> '''') ''action'' OpEq (VText (f_action f))
       (add_cond (f_actor f \<noteq> '''') ''actor_id'' OpEq (VText (f_actor f))
       (add_cond (f_service f \<noteq> '''') ''source_service'' OpEq (VText (f_service f))
       (add_cond (\<not> is_zero (f_to f)) ''ts'' OpLt (VTime (f_to f))
       (add_cond (\<not> is_zero (f_from f)) ''ts'' OpGe (VTime (f_from f)) start_query)))))))"

definition anchors_query :: "time \<Rightarrow> time \<Rightarrow> sql_query" where
  "anchors_query from to =
     add_cond (\<not> is_zero to) ''anchored_at'' OpLe (VTime to)
       (add_cond (\<not> is_zero from) ''anchored_at'' OpGe (VTime from) start_query)"

text \<open>The values of the columns a condition can name.\<close>

definition event_column :: "event \<Rightarrow> string \<Rightarrow> sql_value" where
  "event_column e c =
     (if c = ''ts'' then VTime (ev_ts e) else if c = ''id'' then VText (ev_id e)
      else if c = ''source_service'' then VText (ev_source_service e)
      else if c = ''actor_id'' then VText (ev_actor_id e) else if c = ''action'' then VText (ev_action e)
      else if c = ''target_type'' then VText (ev_target_type e) else VText (ev_target_id e))"

definition anchor_column :: "anchor \<Rightarrow> string \<Rightarrow> sql_value" where
  "anchor_column a c = VTime (an_anchored_at a)"

fun sql_compare :: "sql_op \<Rightarrow> sql_value \<Rightarrow> sql_value \<Rightarrow> bool" where
  "sql_compare OpGe (VTime a) (VTime b) = (b \<le> a)"
| "sql_compare OpLt (VTime a) (VTime b) = (a < b)"
| "sql_compare OpLe (VTime a) (VTime b) = (a \<le> b)"
| "sql_compare OpEq (VText a) (VText b) = (a = b)"
| "sql_compare _ _ _ = False"

fun sql_row_after :: "sql_value \<Rightarrow> sql_value \<Rightarrow> sql_value \<Rightarrow> sql_value \<Rightarrow> bool" where
  "sql_row_after (VTime t) (VText i) (VTime t') (VText i') = (t > t' \<or> t = t' \<and> i > i')"
| "sql_row_after _ _ _ _ = False"

fun cond_holds :: "('r \<Rightarrow> string \<Rightarrow> sql_value) \<Rightarrow> sql_value list \<Rightarrow> 'r \<Rightarrow> sql_cond \<Rightarrow> bool" where
  "cond_holds col args r (Cmp c op n) = sql_compare op (col r c) (args ! (n - 1))"
| "cond_holds col args r (RowAfter m n) =
     sql_row_after (col r ''ts'') (col r ''id'') (args ! (m - 1)) (args ! (n - 1))"

text \<open>
  Binding the arguments: each is converted to the type of the column it is compared with, and their
  number has to be the number of placeholders.
\<close>

fun cond_params :: "sql_cond \<Rightarrow> (string \<times> nat) list" where
  "cond_params (Cmp c op n) = [(c, n)]"
| "cond_params (RowAfter m n) = [(''ts'', m), (''id'', n)]"

definition bind_value :: "pg_codec \<Rightarrow> string \<Rightarrow> sql_value \<Rightarrow> sql_value result" where
  "bind_value cd col v =
     (case v of
        VTime t \<Rightarrow> and_then (cd_time cd t) (\<lambda>t'. Inr (VTime t'))
      | VText s \<Rightarrow> and_then (if col = ''id'' then cd_uuid cd s else cd_text cd s) (\<lambda>s'. Inr (VText s')))"

fun bind_all :: "pg_codec \<Rightarrow> string list \<Rightarrow> sql_value list \<Rightarrow> sql_value list result" where
  "bind_all cd [] [] = Inr []"
| "bind_all cd (c # cs) (v # vs) =
     and_then (bind_value cd c v) (\<lambda>w. and_then (bind_all cd cs vs) (\<lambda>ws. Inr (w # ws)))"
| "bind_all cd _ _ = Inl (ErrMsg ''wrong number of arguments'')"

definition select_rows ::
  "pg_codec \<Rightarrow> ('r \<Rightarrow> string \<Rightarrow> sql_value) \<Rightarrow> sql_query \<Rightarrow> 'r list \<Rightarrow> 'r list result" where
  "select_rows cd col q rows =
     (let params = concat (map cond_params (sq_conds q)) in
      if map snd params \<noteq> [1..<Suc (length (sq_args q))] then Inl (ErrMsg ''wrong number of arguments'')
      else and_then (bind_all cd (map fst params) (sq_args q))
             (\<lambda>args. Inr [r \<leftarrow> rows. list_all (cond_holds col args r) (sq_conds q)]))"

section \<open>EventStore\<close>

text \<open>\<open>INSERT ... ON CONFLICT (id) DO NOTHING\<close>: the number of rows affected and the new table.\<close>

definition insert_event_row ::
  "pg_codec \<Rightarrow> faults \<Rightarrow> event list \<Rightarrow> event \<Rightarrow> (int \<times> event list) result" where
  "insert_event_row cd faults table e =
     run_statement faults InsertEvent
       (and_then (encode_row cd e) (\<lambda>r.
          if ev_id r \<in> ev_id ` set table then Inr (0, table) else Inr (1, table @ [r])))"

definition pg_insert :: "pg_codec \<Rightarrow> faults \<Rightarrow> pg_db \<Rightarrow> event \<Rightarrow> bool result \<times> pg_db" where
  "pg_insert cd faults db e =
     (case insert_event_row cd faults (pg_events db) e of
        Inl err \<Rightarrow> (Inl err, db)
      | Inr (n, table) \<Rightarrow> (Inr (n > 0), db\<lparr>pg_events := table\<rparr>))"

text \<open>\<open>SELECT this_hash ... ORDER BY ts DESC, id DESC LIMIT 1\<close>; no row gives the genesis hash.\<close>

definition head_hash :: "faults \<Rightarrow> event list \<Rightarrow> bytes result" where
  "head_hash faults table =
     run_statement faults HeadHash
       (case rev (sort_key ev_key table) of [] \<Rightarrow> Inr (replicate 32 0) | r # rs \<Rightarrow> Inr (ev_this_hash r))"

text \<open>
  \<open>InsertChained\<close>. The deferred rollback undoes the transaction on every early return. If the commit
  itself fails the server may or may not have applied it: \<open>applied\<close>.
\<close>

definition pg_insert_chained ::
  "pg_codec \<Rightarrow> faults \<Rightarrow> bool \<Rightarrow> pg_db \<Rightarrow> event \<Rightarrow> (bytes \<Rightarrow> bytes) \<Rightarrow> bool result \<times> event \<times> pg_db" where
  "pg_insert_chained cd faults applied db e hash_fn =
     (case run_statement faults BeginTx (Inr ()) of
        Inl err \<Rightarrow> (Inl (ErrWrap ''postgres: insert chained: begin'' err), e, db)
      | Inr _ \<Rightarrow>
     case run_statement faults SetIsolation (Inr ()) of
        Inl err \<Rightarrow> (Inl (ErrWrap ''postgres: insert chained: set serializable'' err), e, db)
      | Inr _ \<Rightarrow>
     case run_statement faults AdvisoryLock (Inr ()) of
        Inl err \<Rightarrow> (Inl (ErrWrap ''postgres: insert chained: advisory lock'' err), e, db)
      | Inr _ \<Rightarrow>
     case head_hash faults (pg_events db) of
        Inl err \<Rightarrow> (Inl (ErrWrap ''postgres: insert chained: chain head'' err), e, db)
      | Inr prev_hash \<Rightarrow>
          (let e' = e\<lparr>ev_prev_hash := prev_hash, ev_this_hash := hash_fn prev_hash\<rparr> in
           case insert_event_row cd faults (pg_events db) e' of
             Inl err \<Rightarrow> (Inl (ErrWrap ''postgres: insert chained: insert'' err), e', db)
           | Inr (n, table) \<Rightarrow>
               (case run_statement faults CommitTx (Inr ()) of
                  Inl err \<Rightarrow> (Inl (ErrWrap ''postgres: insert chained: commit'' err), e',
                              if applied then db\<lparr>pg_events := table\<rparr> else db)
                | Inr _ \<Rightarrow> (Inr (n > 0), e', db\<lparr>pg_events := table\<rparr>))))"

text \<open>The hash a new row is linked to: that of the newest row by \<open>(ts, id)\<close>, in whatever order they were inserted.\<close>

abbreviation tip_of :: "event list \<Rightarrow> bytes" where
  "tip_of rows \<equiv> chain_tip (sort_key ev_key rows)"

text \<open>
  The statements of the transaction read its snapshot, which is the table as it was after the first \<open>m\<close>
  inserts were committed; the row is added to the table as it is at the commit. The server refuses the commit
  if the id has been taken in between, and if another head has been committed that the new row, had it come
  later, would have been linked to. A row that is older than a stored one may be admitted with an old head,
  since it may have come first. Theory Replicas derives this from SERIALIZABLE isolation
  (\<open>commit_is_snapshot_insert\<close>).
\<close>

definition admits_snapshot :: "event list \<Rightarrow> nat \<Rightarrow> event \<Rightarrow> bool" where
  "admits_snapshot table m r \<longleftrightarrow> ev_id r \<notin> ev_id ` set table \<and>
     (tip_of (take m table) = tip_of table \<or> list_ex (\<lambda>x. ev_key r < ev_key x) table)"

definition pg_insert_snapshot ::
  "pg_codec \<Rightarrow> faults \<Rightarrow> bool \<Rightarrow> nat \<Rightarrow> pg_db \<Rightarrow> event \<Rightarrow> (bytes \<Rightarrow> bytes) \<Rightarrow> bool result \<times> event \<times> pg_db" where
  "pg_insert_snapshot cd faults applied m db e hash_fn =
     (let snap = take m (pg_events db) in
      case pg_insert_chained cd faults applied (db\<lparr>pg_events := snap\<rparr>) e hash_fn of
        (res, e', db') \<Rightarrow>
          (let rows = drop (length snap) (pg_events db') in
           if list_all (admits_snapshot (pg_events db) m) rows
           then (res, e', db\<lparr>pg_events := pg_events db @ rows\<rparr>)
           else (Inl (ErrWrap ''postgres: insert chained: commit'' (ErrMsg ''could not serialize access'')), e', db)))"

definition pg_get :: "pg_codec \<Rightarrow> faults \<Rightarrow> pg_db \<Rightarrow> string \<Rightarrow> event result" where
  "pg_get cd faults db i =
     run_statement faults SelectEvent
       (and_then (cd_uuid cd i) (\<lambda>i'.
          case find (\<lambda>e. ev_id e = i') (pg_events db) of None \<Rightarrow> Inl (ErrNotFound i) | Some e \<Rightarrow> Inr e))"

text \<open>\<open>List\<close> asks for one row more than the limit to learn whether a page follows.\<close>

definition pg_list :: "pg_codec \<Rightarrow> faults \<Rightarrow> pg_db \<Rightarrow> filter \<Rightarrow> list_result result" where
  "pg_list cd faults db f =
     (let limit = clamp_limit (f_limit f) in
      and_then (run_statement faults ListEvents (select_rows cd event_column (events_query f) (pg_events db))) (\<lambda>rows.
        let out = take (limit + 1) (sort_key ev_key rows) in
        if length out > limit
        then Inr \<lparr>lr_events = take limit out, lr_next = cursor_at (out ! (limit - 1))\<rparr>
        else Inr \<lparr>lr_events = out, lr_next = zero_cursor\<rparr>))"

definition pg_chain_head :: "faults \<Rightarrow> pg_db \<Rightarrow> event option result" where
  "pg_chain_head faults db =
     run_statement faults SelectHead
       (case rev (sort_key ev_key (pg_events db)) of [] \<Rightarrow> Inr None | r # rs \<Rightarrow> Inr (Some r))"

definition pg_set_legal_hold :: "pg_codec \<Rightarrow> faults \<Rightarrow> pg_db \<Rightarrow> string \<Rightarrow> bool \<Rightarrow> go_error option \<times> pg_db" where
  "pg_set_legal_hold cd faults db i hold =
     (case run_statement faults UpdateHold (cd_uuid cd i) of
        Inl err \<Rightarrow> (Some err, db)
      | Inr i' \<Rightarrow>
          if length [e \<leftarrow> pg_events db. ev_id e = i'] = 0 then (Some (ErrNotFound i), db)
          else (None, db\<lparr>pg_events := map (set_hold i' hold) (pg_events db)\<rparr>))"

definition pg_mark_anchored :: "pg_codec \<Rightarrow> faults \<Rightarrow> pg_db \<Rightarrow> time \<Rightarrow> string \<Rightarrow> int result \<times> pg_db" where
  "pg_mark_anchored cd faults db to_ts to_id =
     (case run_statement faults UpdateAnchored
             (and_then (cd_time cd to_ts) (\<lambda>ts. and_then (cd_uuid cd to_id) (\<lambda>i. Inr (ts, i)))) of
        Inl err \<Rightarrow> (Inl err, db)
      | Inr (ts, i) \<Rightarrow>
          (Inr (int (length [e \<leftarrow> pg_events db. covered_by ts i e \<and> \<not> ev_anchored e])),
           db\<lparr>pg_events := map (\<lambda>e. if covered_by ts i e \<and> \<not> ev_anchored e then e\<lparr>ev_anchored := True\<rparr> else e)
                (pg_events db)\<rparr>))"

section \<open>AnchorStore\<close>

text \<open>\<open>id\<close> is a fresh UUID; the anchor's time is inserted as given, so the column's default is never used.\<close>

definition pg_insert_anchor ::
  "pg_codec \<Rightarrow> faults \<Rightarrow> string \<Rightarrow> pg_db \<Rightarrow> anchor \<Rightarrow> string result \<times> pg_db" where
  "pg_insert_anchor cd faults fresh db a =
     (case run_statement faults InsertAnchor
        (and_then (cd_time cd (an_anchored_at a)) (\<lambda>anchored_at.
         and_then (cd_uuid cd (an_last_event_id a)) (\<lambda>last_id.
         and_then (cd_time cd (an_last_event_ts a)) (\<lambda>last_ts.
         and_then (cd_text cd (an_kms_key_id a)) (\<lambda>key_id.
         and_then (cd_text cd (an_notary_url a)) (\<lambda>url.
           Inr (a\<lparr>an_id := fresh, an_anchored_at := anchored_at, an_last_event_id := last_id,
                  an_last_event_ts := last_ts, an_kms_key_id := key_id, an_notary_url := url\<rparr>)))))))
      of Inl err \<Rightarrow> (Inl err, db)
       | Inr r \<Rightarrow> (Inr (an_id r), db\<lparr>pg_anchors := pg_anchors db @ [r]\<rparr>))"

definition pg_list_anchors :: "pg_codec \<Rightarrow> faults \<Rightarrow> pg_db \<Rightarrow> time \<Rightarrow> time \<Rightarrow> anchor list result" where
  "pg_list_anchors cd faults db from to =
     and_then (run_statement faults ListAnchors (select_rows cd anchor_column (anchors_query from to) (pg_anchors db)))
       (\<lambda>rows. Inr (sort_key an_anchored_at rows))"

definition pg_get_anchor :: "pg_codec \<Rightarrow> faults \<Rightarrow> pg_db \<Rightarrow> string \<Rightarrow> anchor result" where
  "pg_get_anchor cd faults db i =
     run_statement faults SelectAnchor
       (and_then (cd_uuid cd i) (\<lambda>i'.
          case find (\<lambda>a. an_id a = i') (pg_anchors db) of None \<Rightarrow> Inl (ErrNotFound i) | Some a \<Rightarrow> Inr a))"

section \<open>ExportJobStore\<close>

text \<open>
  A NULL \<open>chain_root\<close>, \<open>anchor_id\<close> or \<open>completed_at\<close> is read as the empty value of the field, as the pointer
  scans of the code do; a new row has all three.
\<close>

definition pg_create_job :: "pg_codec \<Rightarrow> faults \<Rightarrow> time \<Rightarrow> pg_db \<Rightarrow> export_job \<Rightarrow> go_error option \<times> pg_db" where
  "pg_create_job cd faults now db j =
     (case run_statement faults InsertJob
        (and_then (cd_uuid cd (job_id j)) (\<lambda>i.
         and_then (cd_json cd (job_query j)) (\<lambda>query.
         and_then (cd_text cd (job_format j)) (\<lambda>format.
         and_then (cd_int4 cd (job_retention_days j)) (\<lambda>days.
         and_then (cd_text cd (job_status j)) (\<lambda>status.
         and_then (if is_zero (job_created_at j) then Inr now else cd_time cd (job_created_at j)) (\<lambda>created_at.
           Inr \<lparr>job_id = i, job_query = query, job_format = format, job_retention_days = days,
                job_status = status, job_row_count = 0, job_payload_ref = '''', job_chain_root = [],
                job_anchor_id = '''', job_created_at = created_at, job_completed_at = zero_time\<rparr>)))))))
      of Inl err \<Rightarrow> (Some err, db)
       | Inr r \<Rightarrow> (None, if job_id r \<in> job_id ` set (pg_jobs db) then db else db\<lparr>pg_jobs := pg_jobs db @ [r]\<rparr>))"

definition pg_get_job :: "pg_codec \<Rightarrow> faults \<Rightarrow> pg_db \<Rightarrow> string \<Rightarrow> export_job result" where
  "pg_get_job cd faults db i =
     run_statement faults SelectJob
       (and_then (cd_uuid cd i) (\<lambda>i'.
          case find (\<lambda>j. job_id j = i') (pg_jobs db) of None \<Rightarrow> Inl (ErrNotFound i) | Some j \<Rightarrow> Inr j))"

text \<open>
  \<open>UpdateJob\<close>. The Go values are never nil, so \<open>COALESCE($7, completed_at)\<close> is always the argument, and
  \<open>anchor_id\<close> has to be the text of a UUID.
\<close>

definition pg_update_job ::
  "pg_codec \<Rightarrow> faults \<Rightarrow> pg_db \<Rightarrow> string \<Rightarrow> string \<Rightarrow> int \<Rightarrow> string \<Rightarrow> bytes \<Rightarrow> string \<Rightarrow> time \<Rightarrow>
   go_error option \<times> pg_db" where
  "pg_update_job cd faults db i status row_count payload_ref chain_root anchor_id completed_at =
     (case run_statement faults UpdateJob
        (and_then (cd_uuid cd i) (\<lambda>i'.
         and_then (cd_text cd status) (\<lambda>status'.
         and_then (cd_text cd payload_ref) (\<lambda>ref'.
         and_then (cd_uuid cd anchor_id) (\<lambda>anchor'.
         and_then (cd_time cd completed_at) (\<lambda>completed'.
           Inr (i', \<lambda>j. j\<lparr>job_status := status', job_row_count := row_count, job_payload_ref := ref',
             job_chain_root := chain_root, job_anchor_id := anchor', job_completed_at := completed'\<rparr>)))))))
      of Inl err \<Rightarrow> (Some err, db)
       | Inr (i', change) \<Rightarrow>
           if length [j \<leftarrow> pg_jobs db. job_id j = i'] = 0 then (Some (ErrNotFound i), db)
           else (None, db\<lparr>pg_jobs := map (\<lambda>j. if job_id j = i' then change j else j) (pg_jobs db)\<rparr>))"

text \<open>\<open>LIMIT\<close> with the default of 100; equal creation times come in the order of the table.\<close>

definition pg_limit :: "int \<Rightarrow> nat" where
  "pg_limit limit = nat (if limit \<le> 0 then 100 else limit)"

definition pg_list_jobs :: "faults \<Rightarrow> pg_db \<Rightarrow> int \<Rightarrow> export_job list result" where
  "pg_list_jobs faults db limit =
     run_statement faults ListJobs
       (Inr (take (pg_limit limit) (rev (sort_key job_created_at (rev (pg_jobs db))))))"

section \<open>DeadLetterStore\<close>

text \<open>The record's id and rejection time come from the store and the column default.\<close>

definition pg_append_dead_letter ::
  "pg_codec \<Rightarrow> faults \<Rightarrow> string \<Rightarrow> time \<Rightarrow> pg_db \<Rightarrow> dead_letter \<Rightarrow> go_error option \<times> pg_db" where
  "pg_append_dead_letter cd faults fresh now db dl =
     (case run_statement faults InsertDead
        (and_then (cd_text cd (dl_topic dl)) (\<lambda>topic.
         and_then (cd_int4 cd (dl_partition dl)) (\<lambda>partition_no.
         and_then (cd_text cd (dl_key dl)) (\<lambda>key.
         and_then (cd_text cd (dl_reason dl)) (\<lambda>reason.
           Inr (dl\<lparr>dl_id := fresh, dl_topic := topic, dl_partition := partition_no, dl_key := key, dl_reason := reason, dl_rejected_at := now\<rparr>))))))
      of Inl err \<Rightarrow> (Some err, db)
       | Inr r \<Rightarrow> (None, db\<lparr>pg_dead := pg_dead db @ [r]\<rparr>))"

definition pg_list_dead_letters :: "faults \<Rightarrow> pg_db \<Rightarrow> int \<Rightarrow> dead_letter list result" where
  "pg_list_dead_letters faults db limit =
     run_statement faults ListDead
       (Inr (take (pg_limit limit) (rev (sort_key dl_rejected_at (rev (pg_dead db))))))"

section \<open>Queries mean what the filter says\<close>

text \<open>
  A codec is exact on a query if it keeps every argument. Then the placeholders line up with the
  arguments, and the rows selected are those that pass the filter.
\<close>

definition exact_text :: "pg_codec \<Rightarrow> string \<Rightarrow> bool" where
  "exact_text cd s \<longleftrightarrow> cd_text cd s = Inr s"

definition exact_uuid :: "pg_codec \<Rightarrow> string \<Rightarrow> bool" where
  "exact_uuid cd s \<longleftrightarrow> cd_uuid cd s = Inr s"

definition exact_time :: "pg_codec \<Rightarrow> time \<Rightarrow> bool" where
  "exact_time cd t \<longleftrightarrow> cd_time cd t = Inr t"

lemmas exact_defs = exact_text_def exact_uuid_def exact_time_def

definition exact_filter :: "pg_codec \<Rightarrow> filter \<Rightarrow> bool" where
  "exact_filter cd f \<longleftrightarrow>
     (is_zero (f_from f) \<or> exact_time cd (f_from f)) \<and> (is_zero (f_to f) \<or> exact_time cd (f_to f)) \<and>
     (\<forall>s \<in> {f_service f, f_actor f, f_action f, f_target_type f, f_target_id f}. s = '''' \<or> exact_text cd s) \<and>
     (is_zero (cur_ts (f_cursor f)) \<and> cur_id (f_cursor f) = '''' \<or>
      exact_time cd (cur_ts (f_cursor f)) \<and> exact_uuid cd (cur_id (f_cursor f)))"

text \<open>What a query under construction selects, and that its numbering is right so far.\<close>

definition query_ok :: "pg_codec \<Rightarrow> ('r \<Rightarrow> string \<Rightarrow> sql_value) \<Rightarrow> sql_query \<Rightarrow> ('r \<Rightarrow> bool) \<Rightarrow> bool" where
  "query_ok cd col q P \<longleftrightarrow>
     sq_n q = Suc (length (sq_args q)) \<and>
     map snd (concat (map cond_params (sq_conds q))) = [1..<Suc (length (sq_args q))] \<and>
     bind_all cd (map fst (concat (map cond_params (sq_conds q)))) (sq_args q) = Inr (sq_args q) \<and>
     (\<forall>r more. list_all (cond_holds col (sq_args q @ more) r) (sq_conds q) = P r)"

lemma query_ok_start: "query_ok cd col start_query (\<lambda>r. True)"
  by (simp add: query_ok_def start_query_def)

lemma bind_all_append:
  "bind_all cd cs vs = Inr ws \<Longrightarrow>
   bind_all cd (cs @ cs') (vs @ vs') = and_then (bind_all cd cs' vs') (\<lambda>ws'. Inr (ws @ ws'))"
  by (induction cd cs vs arbitrary: ws rule: bind_all.induct)
    (auto simp: and_then_def split: sum.splits)

lemma query_ok_add:
  assumes ok: "query_ok cd col q P" and exact: "present \<Longrightarrow> bind_value cd c v = Inr v"
  shows "query_ok cd col (add_cond present c op v q) (\<lambda>r. P r \<and> (present \<longrightarrow> sql_compare op (col r c) v))"
proof (cases present)
  case True
  with ok exact show ?thesis
    by (auto simp: query_ok_def add_cond_def bind_all_append nth_append)
next
  case False
  with ok show ?thesis
    by (simp add: add_cond_def)
qed

lemma event_column_simps [simp]:
  "event_column e ''ts'' = VTime (ev_ts e)" "event_column e ''id'' = VText (ev_id e)"
  "event_column e ''source_service'' = VText (ev_source_service e)" "event_column e ''actor_id'' = VText (ev_actor_id e)"
  "event_column e ''action'' = VText (ev_action e)" "event_column e ''target_type'' = VText (ev_target_type e)"
  "event_column e ''target_id'' = VText (ev_target_id e)"
  by (simp_all add: event_column_def)

lemma query_ok_bound:
  assumes "query_ok cd col q P"
  shows "list_all (cond_holds col (sq_args q @ extra) r) (sq_conds q) = P r"
  using assms by (simp add: query_ok_def)

lemma query_ok_cong: "query_ok cd col q P \<Longrightarrow> (\<And>r. P r = Q r) \<Longrightarrow> query_ok cd col q Q"
  by (simp add: query_ok_def)

lemma select_rows_ok:
  assumes "query_ok cd col q P"
  shows "select_rows cd col q rows = Inr (List.filter P rows)"
  using assms query_ok_bound [OF assms, of "[]"] by (simp add: query_ok_def select_rows_def Let_def)

lemma select_rows_cursor:
  assumes ok: "query_ok cd event_column q P"
    and exact: "is_zero (cur_ts c) \<and> cur_id c = '''' \<or> exact_time cd (cur_ts c) \<and> exact_uuid cd (cur_id c)"
  shows "select_rows cd event_column (add_cursor c q) rows = Inr (List.filter (\<lambda>e. P e \<and> after_cursor c e) rows)"
proof (cases "is_zero (cur_ts c) \<and> cur_id c = ''''")
  case True
  then show ?thesis
    using select_rows_ok [OF ok] by (simp add: add_cursor_def after_cursor_def)
next
  case False
  let ?n = "Suc (length (sq_args q))" and ?vs = "[VTime (cur_ts c), VText (cur_id c)]"
  have q': "add_cursor c q = q\<lparr>sq_conds := sq_conds q @ [RowAfter ?n (Suc ?n)], sq_args := sq_args q @ ?vs\<rparr>"
    using ok False by (auto simp: add_cursor_def query_ok_def)
  have "bind_all cd [''ts'', ''id''] ?vs = Inr ?vs"
    using exact False by (auto simp: bind_value_def exact_defs)
  then have bind: "bind_all cd (map fst (concat (map cond_params (sq_conds q))) @ [''ts'', ''id'']) (sq_args q @ ?vs) =
      Inr (sq_args q @ ?vs)"
    using ok by (simp add: query_ok_def bind_all_append)
  have "list_all (cond_holds event_column (sq_args q @ ?vs) e) (sq_conds q @ [RowAfter ?n (Suc ?n)]) =
      (P e \<and> after_cursor c e)" for e
    using query_ok_bound [OF ok, of ?vs e] False by (auto simp: nth_append after_cursor_def)
  with ok bind show ?thesis
    unfolding q' by (simp add: select_rows_def Let_def query_ok_def)
qed

lemma matches_fields_conj:
  "matches_fields f e \<longleftrightarrow> (\<not> is_zero (f_from f) \<longrightarrow> f_from f \<le> ev_ts e) \<and> (\<not> is_zero (f_to f) \<longrightarrow> ev_ts e < f_to f) \<and>
     (f_service f \<noteq> '''' \<longrightarrow> ev_source_service e = f_service f) \<and> (f_actor f \<noteq> '''' \<longrightarrow> ev_actor_id e = f_actor f) \<and>
     (f_action f \<noteq> '''' \<longrightarrow> ev_action e = f_action f) \<and>
     (f_target_type f \<noteq> '''' \<longrightarrow> ev_target_type e = f_target_type f) \<and>
     (f_target_id f \<noteq> '''' \<longrightarrow> ev_target_id e = f_target_id f)"
proof -
  have guard: "(if a then False else b) = (\<not> a \<and> b)" for a b
    by simp
  show ?thesis
    unfolding matches_fields_def guard not_less [symmetric] by blast
qed

lemma events_query_selects:
  assumes exact: "exact_filter cd f"
  shows "select_rows cd event_column (events_query f) rows = Inr (List.filter (passes_filter f) rows)"
proof -
  have texts: "s \<noteq> '''' \<Longrightarrow> c \<noteq> ''id'' \<Longrightarrow> bind_value cd c (VText s) = Inr (VText s)"
    if "s \<in> {f_service f, f_actor f, f_action f, f_target_type f, f_target_id f}" for s c
  proof -
    have "s = '''' \<or> exact_text cd s"
      using exact that unfolding exact_filter_def by blast
    then show "s \<noteq> '''' \<Longrightarrow> c \<noteq> ''id'' \<Longrightarrow> bind_value cd c (VText s) = Inr (VText s)"
      by (simp add: exact_text_def bind_value_def)
  qed
  have times: "\<not> is_zero t \<Longrightarrow> bind_value cd c (VTime t) = Inr (VTime t)" if "t \<in> {f_from f, f_to f}" for t c
  proof -
    have "is_zero t \<or> exact_time cd t"
      using exact that unfolding exact_filter_def by blast
    then show "\<not> is_zero t \<Longrightarrow> bind_value cd c (VTime t) = Inr (VTime t)"
      by (simp add: exact_time_def bind_value_def)
  qed
  have fields: "query_ok cd event_column
     (add_cond (f_target_id f \<noteq> '''') ''target_id'' OpEq (VText (f_target_id f))
     (add_cond (f_target_type f \<noteq> '''') ''target_type'' OpEq (VText (f_target_type f))
     (add_cond (f_action f \<noteq> '''') ''action'' OpEq (VText (f_action f))
     (add_cond (f_actor f \<noteq> '''') ''actor_id'' OpEq (VText (f_actor f))
     (add_cond (f_service f \<noteq> '''') ''source_service'' OpEq (VText (f_service f))
     (add_cond (\<not> is_zero (f_to f)) ''ts'' OpLt (VTime (f_to f))
     (add_cond (\<not> is_zero (f_from f)) ''ts'' OpGe (VTime (f_from f)) start_query))))))) (matches_fields f)"
    by (rule query_ok_cong, (rule query_ok_add)+, rule query_ok_start)
      (simp_all add: texts times, unfold matches_fields_conj, blast)
  have "is_zero (cur_ts (f_cursor f)) \<and> cur_id (f_cursor f) = '''' \<or>
      exact_time cd (cur_ts (f_cursor f)) \<and> exact_uuid cd (cur_id (f_cursor f))"
    using exact by (simp add: exact_filter_def)
  from select_rows_cursor [OF fields this] show ?thesis
    unfolding events_query_def by (simp add: passes_filter_def [abs_def])
qed

section \<open>The event store refines the same log as the in-memory one\<close>

definition pg_log :: "pg_db \<Rightarrow> event list" where
  "pg_log db = sort_key ev_key (pg_events db)"

definition pg_inv :: "pg_db \<Rightarrow> bool" where
  "pg_inv db \<longleftrightarrow> distinct (map ev_id (pg_events db))"

lemma ascending_unique:
  assumes "ascending k xs" and "ascending k ys" and "set xs = set ys"
  shows "xs = ys"
  using assms(3) ascending_distinct [OF assms(1)] ascending_distinct [OF assms(2)]
    ascending_imp_sorted [OF assms(1)] ascending_imp_sorted [OF assms(2)]
  by (intro map_sorted_distinct_set_unique [of k]) (auto simp: distinct_map)

lemma ascending_sort:
  assumes "distinct (map ev_id es)"
  shows "ascending ev_key (sort_key ev_key es)"
proof -
  have "inj_on ev_key (set es)"
    using assms by (auto simp: distinct_map inj_on_def ev_key_def)
  then have "distinct (map ev_key (sort_key ev_key es))"
    using assms by (simp add: distinct_map)
  then show ?thesis
    by (simp add: strict_sorted_iff sorted_wrt_map [symmetric] del: sorted_wrt_map)
qed

lemma set_pg_log [simp]: "set (pg_log db) = set (pg_events db)"
  by (simp add: pg_log_def)

lemma pg_log_ascending: "pg_inv db \<Longrightarrow> ascending ev_key (pg_log db)"
  by (simp add: pg_inv_def pg_log_def ascending_sort)

lemma pg_log_append:
  assumes inv: "pg_inv db" and fresh: "ev_id r \<notin> ev_id ` set (pg_events db)"
  defines "db' \<equiv> db\<lparr>pg_events := pg_events db @ [r]\<rparr>"
  shows "pg_inv db' \<and> pg_log db' = log_insert r (pg_log db)"
proof
  show inv': "pg_inv db'"
    using inv fresh by (auto simp: pg_inv_def db'_def)
  have key: "ev_key r \<notin> ev_key ` set (pg_log db)"
    using fresh by (auto simp: ev_key_def)
  show "pg_log db' = log_insert r (pg_log db)"
  proof (rule ascending_unique [OF pg_log_ascending [OF inv']])
    show "ascending ev_key (log_insert r (pg_log db))"
      unfolding log_insert_def by (rule ascending_insert [OF pg_log_ascending [OF inv] key])
    show "set (pg_log db') = set (log_insert r (pg_log db))"
      by (simp add: set_log_insert [OF key]) (simp add: db'_def)
  qed
qed

lemma pg_log_map:
  assumes inv: "pg_inv db" and key: "\<And>e. ev_key (g e) = ev_key e"
  defines "db' \<equiv> db\<lparr>pg_events := map g (pg_events db)\<rparr>"
  shows "pg_inv db' \<and> pg_log db' = map g (pg_log db)"
proof
  have "ev_id (g e) = ev_id e" for e
    using key [of e] by (simp add: ev_key_def)
  then show inv': "pg_inv db'"
    using inv by (simp add: pg_inv_def db'_def o_def)
  show "pg_log db' = map g (pg_log db)"
  proof (rule ascending_unique [OF pg_log_ascending [OF inv']])
    show "ascending ev_key (map g (pg_log db))"
      using pg_log_ascending [OF inv] by (simp add: ascending_map_key key)
  qed (simp add: db'_def)
qed

lemma run_statement_Inr: "run_statement faults stmt r = Inr x \<longleftrightarrow> faults stmt = None \<and> r = Inr x"
  by (simp add: run_statement_def split: option.split)

lemma find_appended: "k x \<notin> k ` set xs \<Longrightarrow> find (\<lambda>y. k y = k x) (xs @ [x]) = Some x"
  by (induction xs) auto

text \<open>A job that was created under a free id can be read back, open and with its converted fields.\<close>

lemma pg_created_job:
  assumes "pg_create_job cd faults now db j = (None, db')" and "cd_uuid cd (job_id j) = Inr i"
    and "cd_uuid cd i = Inr i" and "i \<notin> job_id ` set (pg_jobs db)" and "faults' SelectJob = None"
  shows "\<exists>j'. pg_get_job cd faults' db' i = Inr j' \<and> job_id j' = i \<and> job_row_count j' = 0 \<and>
    cd_text cd (job_status j) = Inr (job_status j') \<and> cd_int4 cd (job_retention_days j) = Inr (job_retention_days j')"
proof -
  define r where "r = last (pg_jobs db')"
  have r: "pg_jobs db' = pg_jobs db @ [r] \<and> job_id r = i \<and> job_row_count r = 0 \<and>
      cd_text cd (job_status j) = Inr (job_status r) \<and> cd_int4 cd (job_retention_days j) = Inr (job_retention_days r)"
    using assms(1,2,4) by (auto simp: pg_create_job_def and_then_Inr run_statement_Inr r_def split: sum.splits if_splits)
  then have "find (\<lambda>x. job_id x = i) (pg_jobs db') = Some r"
    using assms(4) find_appended [of job_id r "pg_jobs db"] by simp
  with r assms(3,5) show ?thesis
    by (auto simp: pg_get_job_def run_statement_def and_then_def)
qed

lemma find_same_ids:
  assumes "distinct (map ev_id xs)" and "distinct (map ev_id ys)" and "set xs = set ys"
  shows "find (\<lambda>e. ev_id e = i) xs = find (\<lambda>e. ev_id e = i) ys"
proof (cases "i \<in> ev_id ` set xs")
  case True
  then obtain e where "e \<in> set xs" "ev_id e = i" by auto
  with assms show ?thesis
    using find_distinct_key [of ev_id xs e i] find_distinct_key [of ev_id ys e i] by simp
next
  case False
  with assms(3) show ?thesis
    by (simp add: find_key_None)
qed

text \<open>Calls whose arguments the codec keeps, answered by a server that does not fail.\<close>

definition exact_event :: "pg_codec \<Rightarrow> event \<Rightarrow> bool" where
  "exact_event cd e \<longleftrightarrow> exact_uuid cd (ev_id e) \<and> exact_time cd (ev_ts e) \<and>
     (\<forall>s \<in> {ev_source_service e, ev_actor_id e, ev_action e, ev_target_type e, ev_target_id e, ev_payload_ref e}.
        exact_text cd s)"

lemma encode_exact: "exact_event cd e \<Longrightarrow> encode_row cd e = Inr e"
  by (simp add: exact_event_def exact_defs encode_row_def)

lemma exact_link [simp]: "exact_event cd (link_event h p e) = exact_event cd e"
  by (simp add: exact_event_def link_event_def)

lemma head_hash_tip: "head_hash no_faults (pg_events db) = Inr (chain_tip (pg_log db))"
  by (cases "pg_log db" rule: rev_cases) (simp_all add: head_hash_def chain_tip_def pg_log_def)

lemma pg_insert_chained_exact:
  assumes inv: "pg_inv db" and exact: "exact_event cd e"
  shows "ev_id e \<in> ev_id ` set (pg_log db) \<Longrightarrow>
      \<exists>e'. pg_insert_chained cd no_faults applied db e hash_fn = (Inr False, e', db)"
    and "ev_id e \<notin> ev_id ` set (pg_log db) \<Longrightarrow>
      \<exists>db'. pg_insert_chained cd no_faults applied db e hash_fn =
          (Inr True, link_event hash_fn (chain_tip (pg_log db)) e, db') \<and>
        pg_inv db' \<and> pg_log db' = log_insert (link_event hash_fn (chain_tip (pg_log db)) e) (pg_log db)"
proof -
  let ?r = "link_event hash_fn (chain_tip (pg_log db)) e"
  have enc: "encode_row cd ?r = Inr ?r"
    using exact by (simp add: encode_exact)
  have run: "pg_insert_chained cd no_faults applied db e hash_fn =
      (if ev_id e \<in> ev_id ` set (pg_events db) then (Inr False, ?r, db)
       else (Inr True, ?r, db\<lparr>pg_events := pg_events db @ [?r]\<rparr>))"
    using enc by (simp add: pg_insert_chained_def head_hash_tip Let_def insert_event_row_def flip: link_event_def)
  show "ev_id e \<in> ev_id ` set (pg_log db) \<Longrightarrow> \<exists>e'. pg_insert_chained cd no_faults applied db e hash_fn = (Inr False, e', db)"
    using run by simp
  show "ev_id e \<notin> ev_id ` set (pg_log db) \<Longrightarrow>
      \<exists>db'. pg_insert_chained cd no_faults applied db e hash_fn = (Inr True, ?r, db') \<and>
        pg_inv db' \<and> pg_log db' = log_insert ?r (pg_log db)"
    using run pg_log_append [OF inv, of ?r] by simp
qed

lemma pg_list_exact:
  fixes db :: pg_db
  assumes "exact_filter cd f"
  defines "rows \<equiv> List.filter (passes_filter f) (pg_log db)" and "limit \<equiv> clamp_limit (f_limit f)"
  shows "pg_list cd no_faults db f = Inr \<lparr>lr_events = take limit rows,
    lr_next = (if limit < length rows then cursor_at (last (take limit rows)) else zero_cursor)\<rparr>"
proof -
  have rows: "sort_key ev_key (List.filter (passes_filter f) (pg_events db)) = rows"
    by (simp add: rows_def pg_log_def filter_sort)
  then have len: "length (List.filter (passes_filter f) (pg_events db)) = length rows"
    by (metis length_sort)
  have "0 < limit"
    by (simp add: limit_def clamp_limit_range)
  have "take (limit + 1) rows ! (limit - 1) = last (take limit rows)" if "limit < length rows"
  proof -
    have "take limit rows \<noteq> []"
      using that \<open>0 < limit\<close> by auto
    then show ?thesis
      using that \<open>0 < limit\<close> by (simp add: last_conv_nth)
  qed
  moreover have "take limit (take (limit + 1) rows) = take limit rows"
    by simp
  ultimately show ?thesis
    by (auto simp: pg_list_def events_query_selects [OF assms(1)] rows len Let_def simp flip: limit_def)
qed

text \<open>
  A database whose keys the columns return as they are passed in: sweeps, exports and the operator command
  can page through it, and find every row by its id.
\<close>

definition pg_readable :: "pg_codec \<Rightarrow> pg_db \<Rightarrow> bool" where
  "pg_readable cd db \<longleftrightarrow> pg_inv db \<and> (\<forall>r \<in> set (pg_events db). exact_uuid cd (ev_id r) \<and> exact_time cd (ev_ts r))"

lemma pg_list_lawful:
  assumes "exact_filter cd f"
  shows "\<exists>res. pg_list cd no_faults db f = Inr res \<and> lawful_page (pg_log db) f res"
proof -
  let ?rows = "List.filter (passes_filter f) (pg_log db)" and ?limit = "clamp_limit (f_limit f)"
  have "0 < ?limit"
    by (simp add: clamp_limit_range)
  then have "lawful_page (pg_log db) f \<lparr>lr_events = take ?limit ?rows,
      lr_next = (if ?limit < length ?rows then cursor_at (last (take ?limit ?rows)) else zero_cursor)\<rparr>"
    by (auto simp: lawful_page_def Let_def)
  with pg_list_exact [OF assms, of db] show ?thesis
    by blast
qed

interpretation pg: event_pager "pg_readable cd" pg_log "pg_get cd no_faults" "pg_list cd no_faults" "exact_filter cd"
  for cd
proof
  fix db f e
  assume ok: "pg_readable cd db"
  then have inv: "pg_inv db"
    by (simp add: pg_readable_def)
  show "ascending ev_key (pg_log db)"
    by (rule pg_log_ascending [OF inv])
  show "distinct (map ev_id (pg_log db))"
    using inv by (simp add: pg_log_def pg_inv_def distinct_map)
  show "\<exists>res. pg_list cd no_faults db f = Inr res \<and> lawful_page (pg_log db) f res" if "exact_filter cd f"
    using that by (rule pg_list_lawful)
  show "pg_get cd no_faults db (ev_id e) = Inr e" if "e \<in> set (pg_log db)"
    using that ok inv find_distinct_key [of ev_id "pg_events db" e]
    by (simp add: pg_get_def pg_readable_def exact_uuid_def pg_inv_def)
  show "exact_filter cd (f\<lparr>f_cursor := cursor_at e\<rparr>)" if "exact_filter cd f" and "e \<in> set (pg_log db)"
    using that ok by (simp add: exact_filter_def cursor_at_def pg_readable_def)
qed

text \<open>One call of a store and its answer.\<close>

datatype store_call =
    CallInsert event "bytes \<Rightarrow> bytes" | CallGet string | CallList filter | CallHead
  | CallHold string bool | CallMark time string

datatype store_reply =
    ReplyInserted bool | ReplyEvent event | ReplyPage list_result | ReplyHead "event option"
  | ReplyDone | ReplyCount int | ReplyError go_error

definition reply_of :: "('a \<Rightarrow> store_reply) \<Rightarrow> 'a result \<Rightarrow> store_reply" where
  "reply_of f r = (case r of Inl err \<Rightarrow> ReplyError err | Inr x \<Rightarrow> f x)"

lemma reply_of_simps [simp]: "reply_of f (Inr x) = f x" "reply_of f (Inl err) = ReplyError err"
  by (simp_all add: reply_of_def)

fun mem_call :: "mem_store \<Rightarrow> store_call \<Rightarrow> store_reply \<times> mem_store" where
  "mem_call s (CallInsert e hash_fn) =
     (let r = mem_insert_chained s e hash_fn in (reply_of ReplyInserted (fst r), snd (snd r)))"
| "mem_call s (CallGet i) = (reply_of ReplyEvent (mem_get s i), s)"
| "mem_call s (CallList f) = (reply_of ReplyPage (mem_list s f), s)"
| "mem_call s CallHead = (reply_of ReplyHead (mem_chain_head s), s)"
| "mem_call s (CallHold i hold) =
     (let r = mem_set_legal_hold s i hold in (case fst r of None \<Rightarrow> ReplyDone | Some err \<Rightarrow> ReplyError err, snd r))"
| "mem_call s (CallMark t i) = (let r = mem_mark_anchored s t i in (reply_of ReplyCount (fst r), snd r))"

fun pg_call :: "pg_codec \<Rightarrow> pg_db \<Rightarrow> store_call \<Rightarrow> store_reply \<times> pg_db" where
  "pg_call cd db (CallInsert e hash_fn) =
     (let r = pg_insert_chained cd no_faults False db e hash_fn in (reply_of ReplyInserted (fst r), snd (snd r)))"
| "pg_call cd db (CallGet i) = (reply_of ReplyEvent (pg_get cd no_faults db i), db)"
| "pg_call cd db (CallList f) = (reply_of ReplyPage (pg_list cd no_faults db f), db)"
| "pg_call cd db CallHead = (reply_of ReplyHead (pg_chain_head no_faults db), db)"
| "pg_call cd db (CallHold i hold) =
     (let r = pg_set_legal_hold cd no_faults db i hold in
      (case fst r of None \<Rightarrow> ReplyDone | Some err \<Rightarrow> ReplyError err, snd r))"
| "pg_call cd db (CallMark t i) = (let r = pg_mark_anchored cd no_faults db t i in (reply_of ReplyCount (fst r), snd r))"

fun exact_call :: "pg_codec \<Rightarrow> store_call \<Rightarrow> bool" where
  "exact_call cd (CallInsert e hash_fn) = exact_event cd e"
| "exact_call cd (CallGet i) = exact_uuid cd i"
| "exact_call cd (CallList f) = exact_filter cd f"
| "exact_call cd CallHead = True"
| "exact_call cd (CallHold i hold) = exact_uuid cd i"
| "exact_call cd (CallMark t i) = (exact_time cd t \<and> exact_uuid cd i)"

text \<open>
  The answer of the in-memory store and that of PostgreSQL to one call. They are equal, except for the next
  cursor of an exactly full last page: PostgreSQL has looked one row ahead and gives none, the in-memory
  store gives its last row.
\<close>

fun same_reply :: "store_call \<Rightarrow> store_reply \<Rightarrow> store_reply \<Rightarrow> bool" where
  "same_reply (CallList f) (ReplyPage m) (ReplyPage p) \<longleftrightarrow> lr_events m = lr_events p \<and>
     (lr_next m = lr_next p \<or>
      length (lr_events p) = clamp_limit (f_limit f) \<and> lr_next p = zero_cursor \<and>
      lr_next m = cursor_at (last (lr_events m)))"
| "same_reply c m p \<longleftrightarrow> m = p"

lemma same_reply_refl [simp]: "same_reply c r r"
  by (cases "(c, r, r)" rule: same_reply.cases) simp_all

definition same_log :: "mem_store \<Rightarrow> pg_db \<Rightarrow> bool" where
  "same_log s db \<longleftrightarrow> mem_inv s \<and> pg_inv db \<and> mem_log s = pg_log db"

lemma same_log_insert:
  assumes sim: "same_log s db" and exact: "exact_event cd e"
  shows "fst (mem_call s (CallInsert e h)) = fst (pg_call cd db (CallInsert e h)) \<and>
    same_log (snd (mem_call s (CallInsert e h))) (snd (pg_call cd db (CallInsert e h)))"
proof -
  have inv: "mem_inv s" "pg_inv db" and log: "mem_log s = pg_log db"
    using sim by (simp_all add: same_log_def)
  show ?thesis
  proof (cases "ev_id e \<in> ev_id ` set (pg_log db)")
    case True
    then show ?thesis
      using mem.insert_duplicate [OF inv(1), of e h] pg_insert_chained_exact(1) [OF inv(2) exact, of False h] log sim by auto
  next
    case False
    then show ?thesis
      using mem.insert_fresh [OF inv(1), of e h] pg_insert_chained_exact(2) [OF inv(2) exact, of False h] log
      by (auto simp: same_log_def)
  qed
qed

lemma same_log_hold:
  assumes sim: "same_log s db" and exact: "exact_uuid cd i"
  shows "fst (mem_call s (CallHold i b)) = fst (pg_call cd db (CallHold i b)) \<and>
    same_log (snd (mem_call s (CallHold i b))) (snd (pg_call cd db (CallHold i b)))"
proof -
  have inv: "mem_inv s" "pg_inv db" and log: "mem_log s = pg_log db"
    using sim by (simp_all add: same_log_def)
  have run: "pg_set_legal_hold cd no_faults db i b =
      (if i \<in> ev_id ` set (pg_log db) then (None, db\<lparr>pg_events := map (set_hold i b) (pg_events db)\<rparr>)
       else (Some (ErrNotFound i), db))"
    using exact by (auto simp: pg_set_legal_hold_def exact_uuid_def filter_empty_conv image_iff)
  show ?thesis
    using mem.hold_missing [OF inv(1), of i b] mem.hold_present [OF inv(1), of i b] run log sim
      pg_log_map [OF inv(2), of "set_hold i b"]
    by (cases "i \<in> ev_id ` set (pg_log db)") (auto simp: same_log_def)
qed

lemma mark_unanchored:
  "(\<lambda>e. if covered_by t i e \<and> \<not> ev_anchored e then e\<lparr>ev_anchored := True\<rparr> else e) = anchor_event t i"
  by (auto simp: anchor_event_def fun_eq_iff)

lemma same_log_mark:
  assumes sim: "same_log s db" and exact: "exact_time cd t" "exact_uuid cd i"
  shows "fst (mem_call s (CallMark t i)) = fst (pg_call cd db (CallMark t i)) \<and>
    same_log (snd (mem_call s (CallMark t i))) (snd (pg_call cd db (CallMark t i)))"
proof -
  have inv: "mem_inv s" "pg_inv db" and log: "mem_log s = pg_log db"
    using sim by (simp_all add: same_log_def)
  have count: "length [e \<leftarrow> pg_events db. P e] = length [e \<leftarrow> pg_log db. P e]" for P
    by (simp add: pg_log_def filter_sort)
  have run: "pg_mark_anchored cd no_faults db t i =
      (Inr (int (length [e \<leftarrow> pg_log db. covered_by t i e \<and> \<not> ev_anchored e])),
       db\<lparr>pg_events := map (anchor_event t i) (pg_events db)\<rparr>)"
    using exact by (simp add: pg_mark_anchored_def exact_defs mark_unanchored count)
  show ?thesis
    using mem.mark_log [OF inv(1), of t i] run log pg_log_map [OF inv(2), of "anchor_event t i"]
    by (auto simp: same_log_def)
qed

lemma same_log_read:
  assumes sim: "same_log s db" and exact: "exact_call cd c" and read: "c = CallHead \<or> c = CallGet i \<or> c = CallList f"
  shows "same_reply c (fst (mem_call s c)) (fst (pg_call cd db c)) \<and> same_log (snd (mem_call s c)) (snd (pg_call cd db c))"
proof -
  have inv: "mem_inv s" "pg_inv db" and log: "mem_log s = pg_log db"
    using sim by (simp_all add: same_log_def)
  have "find (\<lambda>e. ev_id e = i) (pg_log db) = find (\<lambda>e. ev_id e = i) (pg_events db)" for i
    using inv(2) mem_log_distinct [OF inv(1)] by (intro find_same_ids) (auto simp: pg_inv_def log)
  then have get: "mem_get s i = pg_get cd no_faults db i" if "exact_uuid cd i" for i
    using that by (simp add: mem.get_log [OF inv(1)] log pg_get_def exact_uuid_def)
  have head: "mem_chain_head s = pg_chain_head no_faults db"
    using mem.head_log [OF inv(1)] log
    by (cases "pg_log db" rule: rev_cases) (simp_all add: pg_chain_head_def pg_log_def)
  show ?thesis
    using read exact sim head get
    by (auto simp: mem_list_events pg_list_exact log Let_def min_def not_le split: if_splits)
qed

lemma same_log_call:
  assumes "same_log s db" and "exact_call cd c"
  shows "same_reply c (fst (mem_call s c)) (fst (pg_call cd db c)) \<and> same_log (snd (mem_call s c)) (snd (pg_call cd db c))"
  using assms same_log_insert same_log_hold same_log_mark same_log_read by (cases c) (auto simp del: mem_call.simps pg_call.simps same_reply.simps)

text \<open>A sequence of calls and the answers to it.\<close>

fun replies :: "('s \<Rightarrow> store_call \<Rightarrow> store_reply \<times> 's) \<Rightarrow> 's \<Rightarrow> store_call list \<Rightarrow> store_reply list" where
  "replies call s [] = []"
| "replies call s (c # cs) = fst (call s c) # replies call (snd (call s c)) cs"

lemma same_log_replies:
  "same_log s db \<Longrightarrow> \<forall>c \<in> set cs. exact_call cd c \<Longrightarrow>
   list_all2 (\<lambda>c (m, p). same_reply c m p) cs (zip (replies mem_call s cs) (replies (pg_call cd) db cs))"
proof (induction cs arbitrary: s db)
  case (Cons c cs)
  with same_log_call [of s db cd c] show ?case
    by (simp del: mem_call.simps pg_call.simps)
qed simp

lemma same_log_empty: "same_log new_event_store empty_db"
  by (simp add: same_log_def pg_inv_def pg_log_def empty_db_def)

section \<open>Faults\<close>

lemma insert_event_row_cases:
  "insert_event_row cd faults table e = Inr (n, table') \<Longrightarrow>
   \<exists>r. encode_row cd e = Inr r \<and>
     (n = 0 \<and> ev_id r \<in> ev_id ` set table \<and> table' = table \<or>
      n = 1 \<and> ev_id r \<notin> ev_id ` set table \<and> table' = table @ [r])"
  by (auto simp: insert_event_row_def run_statement_Inr and_then_Inr split: if_splits)

lemma head_hash_Inr: "head_hash faults (pg_events db) = Inr h \<Longrightarrow> h = chain_tip (pg_log db)"
  using head_hash_tip [of db] by (simp add: head_hash_def run_statement_def no_faults_def split: option.splits)

lemma encode_row_hashes:
  "encode_row cd e = Inr r \<Longrightarrow> ev_prev_hash r = ev_prev_hash e \<and> ev_this_hash r = ev_this_hash e \<and> cd_uuid cd (ev_id e) = Inr (ev_id r)"
  by (auto simp: encode_row_def and_then_Inr)

text \<open>An insert either adds the linked row or leaves the table, and says which.\<close>

lemma pg_insert_chained_cases:
  assumes run: "pg_insert_chained cd faults applied db e hash_fn = (res, e', db')"
  shows "(case res of
      Inl err \<Rightarrow> db' = db \<or> applied \<and> faults CommitTx \<noteq> None
    | Inr False \<Rightarrow> db' = db
    | Inr True \<Rightarrow> \<exists>r. db' = db\<lparr>pg_events := pg_events db @ [r]\<rparr>) \<and>
    (db' = db \<or> (\<exists>r. encode_row cd (link_event hash_fn (chain_tip (pg_log db)) e) = Inr r \<and>
       ev_id r \<notin> ev_id ` set (pg_events db) \<and> db' = db\<lparr>pg_events := pg_events db @ [r]\<rparr>))"
proof (cases "\<exists>prev_hash n table. faults BeginTx = None \<and> faults SetIsolation = None \<and> faults AdvisoryLock = None \<and>
    head_hash faults (pg_events db) = Inr prev_hash \<and>
    insert_event_row cd faults (pg_events db) (link_event hash_fn prev_hash e) = Inr (n, table)")
  case True
  then obtain prev_hash n table where steps: "faults BeginTx = None" "faults SetIsolation = None" "faults AdvisoryLock = None"
    and head: "head_hash faults (pg_events db) = Inr prev_hash"
    and ins: "insert_event_row cd faults (pg_events db) (link_event hash_fn prev_hash e) = Inr (n, table)"
    by blast
  have tip: "prev_hash = chain_tip (pg_log db)"
    by (rule head_hash_Inr [OF head])
  have res: "(res, db') = (case faults CommitTx of
      Some err \<Rightarrow> (Inl (ErrWrap ''postgres: insert chained: commit'' err), if applied then db\<lparr>pg_events := table\<rparr> else db)
    | None \<Rightarrow> (Inr (n > 0), db\<lparr>pg_events := table\<rparr>))"
    using run steps head ins
    by (auto simp: pg_insert_chained_def run_statement_def Let_def link_event_def split: option.splits)
  have same: "db\<lparr>pg_events := pg_events db\<rparr> = db"
    by simp
  from insert_event_row_cases [OF ins] res same show ?thesis
    by (auto simp: tip split: option.splits if_splits)
next
  case False
  then have "db' = db \<and> (\<exists>err. res = Inl err)"
    using run by (auto simp: pg_insert_chained_def run_statement_def Let_def link_event_def split: option.splits sum.splits)
  then show ?thesis
    by auto
qed

lemma pg_insert_snapshot_cases:
  assumes run: "pg_insert_snapshot cd faults applied m db e hash_fn = (res, e', db')"
  shows "db' = db \<or>
    (\<exists>r. encode_row cd (link_event hash_fn (tip_of (take m (pg_events db))) e) = Inr r \<and>
       admits_snapshot (pg_events db) m r \<and> db' = db\<lparr>pg_events := pg_events db @ [r]\<rparr>)"
proof -
  let ?snap = "take m (pg_events db)"
  obtain res0 db0 where chained: "pg_insert_chained cd faults applied (db\<lparr>pg_events := ?snap\<rparr>) e hash_fn = (res0, e', db0)"
    and db': "db' = (if list_all (admits_snapshot (pg_events db) m) (drop (length ?snap) (pg_events db0))
      then db\<lparr>pg_events := pg_events db @ drop (length ?snap) (pg_events db0)\<rparr> else db)"
    using run by (auto simp: pg_insert_snapshot_def Let_def split: prod.splits if_splits)
  from pg_insert_chained_cases [OF chained] db' show ?thesis
    by (auto simp: pg_log_def simp del: length_take split: if_splits)
qed

text \<open>With a current snapshot it is the insert of a single server.\<close>

lemma pg_insert_snapshot_current:
  assumes "length (pg_events db) \<le> m"
  shows "pg_insert_snapshot cd faults applied m db e hash_fn = pg_insert_chained cd faults applied db e hash_fn"
proof -
  obtain res e' db' where run: "pg_insert_chained cd faults applied db e hash_fn = (res, e', db')"
    by (metis prod_cases3)
  have "db' = db \<or> (\<exists>r. ev_id r \<notin> ev_id ` set (pg_events db) \<and> db' = db\<lparr>pg_events := pg_events db @ [r]\<rparr>)"
    using pg_insert_chained_cases [OF run] by blast
  then show ?thesis
    using assms run by (auto simp: pg_insert_snapshot_def admits_snapshot_def)
qed

lemma pg_insert_chained_True:
  assumes run: "pg_insert_chained cd faults applied db e hash_fn = (Inr True, e', db')"
  shows "e' = link_event hash_fn (chain_tip (pg_log db)) e \<and>
    (\<exists>r. encode_row cd e' = Inr r \<and> ev_id r \<notin> ev_id ` set (pg_events db) \<and>
       db' = db\<lparr>pg_events := pg_events db @ [r]\<rparr>)"
proof -
  obtain prev_hash n table where head: "head_hash faults (pg_events db) = Inr prev_hash"
    and ins: "insert_event_row cd faults (pg_events db) (link_event hash_fn prev_hash e) = Inr (n, table)"
    and e': "e' = link_event hash_fn prev_hash e" and n: "0 < n" and db': "db' = db\<lparr>pg_events := table\<rparr>"
    using run by (auto simp: pg_insert_chained_def run_statement_def Let_def link_event_def split: option.splits sum.splits)
  with head_hash_Inr [OF head] insert_event_row_cases [OF ins] show ?thesis
    by auto
qed


section \<open>Samples\<close>

text \<open>The precision of a \<open>timestamptz\<close>: microseconds.\<close>

definition micros :: "time \<Rightarrow> time" where
  "micros t = Time (nanos t div 1000 * 1000)"

definition sample_codec :: pg_codec where
  "sample_codec = \<lparr>cd_uuid = (\<lambda>s. if s = '''' then Inl (ErrMsg ''invalid input syntax for type uuid'') else Inr s),
     cd_time = (\<lambda>t. Inr (micros t)), cd_text = Inr, cd_json = Inr,
     cd_int4 = (\<lambda>n. if - 2147483648 \<le> n \<and> n \<le> 2147483647 then Inr n else Inl (ErrMsg ''integer out of range''))\<rparr>"

text \<open>The same without rounding.\<close>

definition nano_codec :: pg_codec where
  "nano_codec = sample_codec\<lparr>cd_time := Inr\<rparr>"

lemma encode_row_keeps:
  "encode_row cd e = Inr r \<Longrightarrow> cd_uuid cd (ev_id e) = Inr (ev_id r) \<and> ev_this_hash r = ev_this_hash e"
  by (auto simp: encode_row_def and_then_Inr)

lemma micros_idem [simp]: "micros (micros t) = micros t"
  by (simp add: micros_def)

section \<open>Properties\<close>

text \<open>
  Property C34. The in-memory store is a faithful stand-in for PostgreSQL: for every sequence of inserts,
  reads, listings, chain-head reads, legal holds and anchorings whose values the column types keep as
  they are, a PostgreSQL store that starts empty and suffers no fault gives the same answers as the
  in-memory store, with one exception: after a last page that is exactly full the in-memory store names the
  last row as the next cursor, where PostgreSQL, which has looked one row ahead, gives none. In particular the
  numbered conditions that \<open>List\<close> builds select exactly the rows of the filter.
\<close>

theorem in_memory_store_agrees_with_postgres:
  assumes "\<forall>c \<in> set calls. exact_call cd c"
  shows "list_all2 (\<lambda>c (m, p). same_reply c m p) calls
    (zip (replies mem_call new_event_store calls) (replies (pg_call cd) empty_db calls))"
  using same_log_replies [OF same_log_empty assms] .

theorem in_memory_store_agrees_with_postgres_witness:
  "let calls = [CallInsert (sample_event ''a'' 2000) (\<lambda>p. p), CallMark (Time 3000) ''z'', CallList (zero_filter\<lparr>f_service := ''orch''\<rparr>)] in
   list_all2 (\<lambda>c (m, p). same_reply c m p) calls
     (zip (replies mem_call new_event_store calls) (replies (pg_call sample_codec) empty_db calls))"
  unfolding Let_def
  by (rule in_memory_store_agrees_with_postgres)
    (simp add: exact_event_def exact_filter_def exact_defs sample_codec_def sample_event_def micros_def
      zero_filter_def zero_cursor_def)

text \<open>
  Property C36. \<open>InsertChained\<close> on PostgreSQL is atomic under every combination of failing statements: an
  error leaves the table as it was, except that a failed commit may have been applied; a duplicate
  leaves it too; success adds exactly one row, whose id was free and which is linked to the newest row
  of the table at that moment by the caller's hash function.
\<close>

theorem insert_chained_is_atomic:
  assumes "pg_insert_chained cd faults applied db e hash_fn = (res, e', db')"
  defines "tip \<equiv> chain_tip (pg_log db)"
  shows "(case res of
      Inl err \<Rightarrow> db' = db \<or> applied \<and> faults CommitTx \<noteq> None
    | Inr False \<Rightarrow> db' = db
    | Inr True \<Rightarrow> db' \<noteq> db) \<and>
    (db' = db \<or> (\<exists>r. db' = db\<lparr>pg_events := pg_events db @ [r]\<rparr> \<and> cd_uuid cd (ev_id e) = Inr (ev_id r) \<and>
       ev_id r \<notin> ev_id ` set (pg_events db) \<and> ev_prev_hash r = tip \<and> ev_this_hash r = hash_fn tip))"
proof -
  have grown: "db\<lparr>pg_events := pg_events db @ [r]\<rparr> \<noteq> db" for r
    by (metis append_self_conv list.distinct(1) pg_db.select_convs(1) pg_db.surjective pg_db.update_convs(1))
  have res: "case res of Inl err \<Rightarrow> db' = db \<or> applied \<and> faults CommitTx \<noteq> None
      | Inr False \<Rightarrow> db' = db | Inr True \<Rightarrow> db' \<noteq> db"
    using pg_insert_chained_cases [OF assms(1)] grown by (cases res) (auto split: bool.splits)
  have row: "ev_prev_hash r = tip \<and> ev_this_hash r = hash_fn tip \<and> cd_uuid cd (ev_id e) = Inr (ev_id r)"
    if "encode_row cd (link_event hash_fn tip e) = Inr r" for r
    using encode_row_hashes [OF that] by simp
  show ?thesis
    using res row pg_insert_chained_cases [OF assms(1)] by (fold tip_def) blast
qed

theorem insert_chained_is_atomic_witness:
  "\<exists>res e' db'. pg_insert_chained sample_codec (\<lambda>stmt. if stmt = CommitTx then Some (ErrMsg ''connection lost'') else None)
      False empty_db (sample_event ''a'' 2000) (\<lambda>p. p) = (Inl res, e', db') \<and> db' = empty_db"
proof -
  let ?faults = "\<lambda>stmt. if stmt = CommitTx then Some (ErrMsg ''connection lost'') else None"
  obtain res e' db' where run: "pg_insert_chained sample_codec ?faults False empty_db (sample_event ''a'' 2000) (\<lambda>p. p) = (res, e', db')"
    by (metis prod_cases3)
  then have "\<exists>err. res = Inl err"
    by (auto simp: pg_insert_chained_def run_statement_def head_hash_def insert_event_row_def empty_db_def
        sample_codec_def encode_row_def Let_def)
  with insert_chained_is_atomic [OF run] run show ?thesis
    by auto
qed

text \<open>
  Property C37. On PostgreSQL an event verifies after its insertion exactly if the column types keep what is
  hashed: \<open>InsertChained\<close> hashes the values it was given, but a \<open>timestamptz\<close> column keeps microseconds and
  a UUID column the lower-case form. The row that is read back under the event's id carries the hash of
  the given values; if the conversion changed nothing it verifies, and if it changed a hashed field
  \<open>VerifyEvent\<close> reports the row as broken whatever its predecessor (unless SHA-256 collides on the two
  encodings).
\<close>

theorem stored_row_verifies_iff_exact:
  assumes "pg_insert_chained cd faults applied db e (chain_hash_fn e) = (Inr True, e', db')"
  shows "\<exists>r. encode_row cd e' = Inr r \<and> pg_get cd no_faults db' (ev_id e) = Inr r \<and>
    (same_content e' r \<longrightarrow> vr_status (verify_event r None) = StatusOK) \<and>
    (\<not> same_content e' r \<and> encodable e' \<and> encodable r \<longrightarrow>
       vr_status (verify_event r prev) = StatusBroken \<or> collision (event_bytes e') (event_bytes r))"
proof -
  obtain r where e': "e' = link_event (chain_hash_fn e) (chain_tip (pg_log db)) e" and enc: "encode_row cd e' = Inr r"
    and fresh: "ev_id r \<notin> ev_id ` set (pg_events db)" and db': "db' = db\<lparr>pg_events := pg_events db @ [r]\<rparr>"
    using pg_insert_chained_True [OF assms] by blast
  have kept: "cd_uuid cd (ev_id e') = Inr (ev_id r)" "ev_this_hash r = ev_this_hash e'"
    using encode_row_keeps [OF enc] by simp_all
  have "hash_ok e'"
    by (simp add: e')
  with kept(2) have hash: "ev_this_hash r = event_hash e'"
    by (simp add: hash_ok_def)
  have "find (\<lambda>x. ev_id x = ev_id r) (pg_events db') = Some r"
    using find_appended [OF fresh] by (simp add: db')
  with kept(1) have get: "pg_get cd no_faults db' (ev_id e) = Inr r"
    by (simp add: pg_get_def e')
  have "hash_ok r" if "same_content e' r"
    using event_bytes_same [OF that] hash by (simp add: hash_ok_def event_hash_bytes)
  moreover have "\<not> hash_ok r \<or> collision (event_bytes e') (event_bytes r)"
    if "\<not> same_content e' r" "encodable e'" "encodable r"
    using event_hash_binding [of e' r] that hash by (auto simp: hash_ok_def)
  ultimately show ?thesis
    using enc get by (auto simp: verify_event_status)
qed

text \<open>A codec that, as PostgreSQL does, keeps microseconds and writes a UUID in lower case.\<close>

definition lower_codec :: pg_codec where
  "lower_codec = sample_codec\<lparr>cd_uuid := (\<lambda>s. Inr (map (\<lambda>c. if c = CHR ''A'' then CHR ''a'' else c) s))\<rparr>"

lemma insert_into_empty:
  assumes "encode_row cd (link_event h (replicate 32 0) e) = Inr r"
  shows "pg_insert_chained cd no_faults False empty_db e h =
    (Inr True, link_event h (replicate 32 0) e, empty_db\<lparr>pg_events := [r]\<rparr>)"
  using assms by (simp add: pg_insert_chained_def head_hash_def insert_event_row_def empty_db_def Let_def link_event_def)

theorem stored_row_verifies_iff_exact_witness:
  "(\<exists>e' db' r. pg_insert_chained lower_codec no_faults False empty_db (sample_event ''a'' 2001)
      (chain_hash_fn (sample_event ''a'' 2001)) = (Inr True, e', db') \<and>
     pg_get lower_codec no_faults db' ''a'' = Inr r \<and> ev_ts r = Time 2000 \<and>
     (vr_status (verify_event r None) = StatusBroken \<or> collision (event_bytes e') (event_bytes r))) \<and>
   (\<exists>e' db' r. pg_insert_chained lower_codec no_faults False empty_db (sample_event ''A'' 2000)
      (chain_hash_fn (sample_event ''A'' 2000)) = (Inr True, e', db') \<and>
     pg_get lower_codec no_faults db' ''A'' = Inr r \<and> ev_id r = ''a'' \<and>
     (vr_status (verify_event r None) = StatusBroken \<or> collision (event_bytes e') (event_bytes r)))"
proof
  let ?e = "sample_event ''a'' 2001"
  let ?l = "link_event (chain_hash_fn ?e) (replicate 32 0) ?e"
  have enc: "encode_row lower_codec ?l = Inr (?l\<lparr>ev_ts := Time 2000\<rparr>)"
    by (simp add: encode_row_def lower_codec_def sample_codec_def micros_def link_event_def sample_event_def)
  have ok: "encodable ?l" "encodable (?l\<lparr>ev_ts := Time 2000\<rparr>)" "\<not> same_content ?l (?l\<lparr>ev_ts := Time 2000\<rparr>)"
    by (simp_all add: encodable_def fits_def in_nano_range_def link_event_def sample_event_def same_content_def)
  show "\<exists>e' db' r. pg_insert_chained lower_codec no_faults False empty_db ?e (chain_hash_fn ?e) = (Inr True, e', db') \<and>
     pg_get lower_codec no_faults db' ''a'' = Inr r \<and> ev_ts r = Time 2000 \<and>
     (vr_status (verify_event r None) = StatusBroken \<or> collision (event_bytes e') (event_bytes r))"
    using stored_row_verifies_iff_exact [OF insert_into_empty [OF enc], of None] insert_into_empty [OF enc] enc ok
    by auto
next
  let ?e = "sample_event ''A'' 2000"
  let ?l = "link_event (chain_hash_fn ?e) (replicate 32 0) ?e"
  have enc: "encode_row lower_codec ?l = Inr (?l\<lparr>ev_id := ''a''\<rparr>)"
    by (simp add: encode_row_def lower_codec_def sample_codec_def micros_def link_event_def sample_event_def)
  have ok: "encodable ?l" "encodable (?l\<lparr>ev_id := ''a''\<rparr>)" "\<not> same_content ?l (?l\<lparr>ev_id := ''a''\<rparr>)"
    by (simp_all add: encodable_def fits_def in_nano_range_def link_event_def sample_event_def same_content_def)
  show "\<exists>e' db' r. pg_insert_chained lower_codec no_faults False empty_db ?e (chain_hash_fn ?e) = (Inr True, e', db') \<and>
     pg_get lower_codec no_faults db' ''A'' = Inr r \<and> ev_id r = ''a'' \<and>
     (vr_status (verify_event r None) = StatusBroken \<or> collision (event_bytes e') (event_bytes r))"
    using stored_row_verifies_iff_exact [OF insert_into_empty [OF enc], of None] insert_into_empty [OF enc] enc ok
    by auto
qed

section \<open>Export jobs over PostgreSQL\<close>

lemma fail_job_pg:
  assumes "cd_uuid cd '''' = Inl err" and "xd_update_job dp = pg_update_job cd faults"
  shows "fail_job dp i st = st"
  using assms by (auto simp: fail_job_def pg_update_job_def run_statement_def and_then_def split: option.splits sum.splits)

lemma sign_root_pg:
  assumes "cd_uuid cd '''' = Inl err" and "xd_insert_anchor dp = pg_insert_anchor cd faults fresh"
  shows "sign_root dp root n st = ('''', st)"
proof -
  have refused: "\<exists>err'. pg_insert_anchor cd faults fresh db a = (Inl err', db)" if "an_last_event_id a = ''''" for db a
    using assms(1) that by (auto simp: pg_insert_anchor_def run_statement_def and_then_def split: option.splits sum.splits)
  show ?thesis
  proof (cases "\<exists>sign sig key_id. xd_signer dp = Some sign \<and> length root = 32 \<and> sign root = Inr (sig, key_id)")
    case True
    then obtain sign sig key_id where
      sign: "xd_signer dp = Some sign" "length root = 32" "sign root = Inr (sig, key_id)"
      by blast
    obtain err' where "pg_insert_anchor cd faults fresh (xs_anchors st)
        \<lparr>an_id = '''', an_anchored_at = zero_time, an_root_hash = root, an_last_event_id = '''',
         an_last_event_ts = zero_time, an_signature = sig, an_kms_key_id = key_id,
         an_notary_url = '''', an_event_count = n\<rparr> = (Inl err', xs_anchors st)"
      using refused by fastforce
    with sign show ?thesis
      by (simp add: sign_root_def assms(2))
  next
    case False
    then show ?thesis
      by (auto simp: sign_root_def split: option.splits sum.splits)
  qed
qed

lemma update_job_pg:
  assumes "cd_uuid cd '''' = Inl err"
  shows "\<exists>err'. pg_update_job cd faults db i status n ref root '''' t = (Some err', db)"
  using assms by (auto simp: pg_update_job_def run_statement_def and_then_def split: option.splits sum.splits)

text \<open>
  On PostgreSQL no export job is ever closed: \<open>RunJob\<close> inserts its anchor without a last
  event, whose empty id the UUID column refuses, and then passes the empty anchor id to \<open>UpdateJob\<close>,
  which the UUID column refuses too. Whatever the query, the format, the signer and the object store,
  the job table and the anchor table stay as they were, and \<open>RunJob\<close> returns an error, even after the
  artifact was written.
\<close>

theorem postgres_export_never_closes:
  assumes "cd_uuid cd '''' = Inl err"
    and "xd_update_job dp = pg_update_job cd faults" and "xd_insert_anchor dp = pg_insert_anchor cd faults fresh"
    and "run_job dp cancelled job st = Some (res, st')"
  shows "xs_jobs st' = xs_jobs st \<and> xs_anchors st' = xs_anchors st \<and> res \<noteq> None"
proof -
  have fail: "fail_job dp i st = st" for i st
    by (rule fail_job_pg [OF assms(1,2)])
  have sign: "sign_root dp root n st = ('''', st)" for root n st
    by (rule sign_root_pg [OF assms(1,3)])
  have finish: "xs_jobs t' = xs_jobs t \<and> xs_anchors t' = xs_anchors t \<and> r \<noteq> None"
    if "finish_job dp j all t = (r, t')" for j all t r t'
  proof -
    obtain err' where "pg_update_job cd faults (xs_jobs t) (job_id j) ''COMPLETE'' (int (length all)) (artifact_key j)
        (export_root all) '''' (xd_now dp) = (Some err', xs_jobs t)"
      using update_job_pg [OF assms(1)] by blast
    with that show ?thesis
      by (auto simp: finish_job_def sign fail Let_def assms(2) split: sum.splits prod.splits)
  qed
  show ?thesis
    using assms(4) finish by (auto simp: run_job_def fail split: option.splits sum.splits page_error.splits)
qed

text \<open>The wiring of \<open>app.Build\<close> when a database is configured; the three stores share it.\<close>

definition pg_export_deps ::
  "pg_codec \<Rightarrow> faults \<Rightarrow> export_lib \<Rightarrow> string \<Rightarrow> time \<Rightarrow> pg_db \<Rightarrow> string \<Rightarrow>
   (bytes \<Rightarrow> (bytes \<times> string) result) option \<Rightarrow> int \<Rightarrow> (pg_db, pg_db, fake_s3) export_deps" where
  "pg_export_deps cd faults lib fresh now db bucket signer retention =
     \<lparr>xd_list = pg_list cd faults db, xd_insert_anchor = pg_insert_anchor cd faults fresh,
      xd_update_job = pg_update_job cd faults, xd_put = export_put_adapter now, xd_payload_bucket = bucket,
      xd_signer = signer, xd_default_retention_days = retention, xd_lib = lib, xd_now = now\<rparr>"

theorem postgres_export_never_closes_witness:
  "\<exists>res st'. run_job (pg_export_deps sample_codec no_faults sample_export_lib ''a1'' (Time 9) empty_db ''b''
         (Some (\<lambda>root. Inr (root, ''k''))) 0) (\<lambda>k. False) (Some sample_job)
       \<lparr>xs_anchors = empty_db, xs_jobs = empty_db\<lparr>pg_jobs := [sample_job]\<rparr>, xs_objects = []\<rparr> = Some (Some res, st') \<and>
     xs_jobs st' = empty_db\<lparr>pg_jobs := [sample_job]\<rparr>"
proof -
  let ?dp = "pg_export_deps sample_codec no_faults sample_export_lib ''a1'' (Time 9) empty_db ''b''
    (Some (\<lambda>root. Inr (root, ''k''))) 0"
  let ?st = "\<lparr>xs_anchors = empty_db, xs_jobs = empty_db\<lparr>pg_jobs := [sample_job]\<rparr>, xs_objects = []\<rparr>"
  have cd: "cd_uuid sample_codec '''' = Inl (ErrMsg ''invalid input syntax for type uuid'')"
    by (simp add: sample_codec_def)
  have dp: "xd_update_job ?dp = pg_update_job sample_codec no_faults"
    "xd_insert_anchor ?dp = pg_insert_anchor sample_codec no_faults ''a1''"
    by (simp_all add: pg_export_deps_def)
  have "exact_filter sample_codec (zero_filter\<lparr>f_limit := 10000\<rparr>)"
    by (simp add: exact_filter_def zero_filter_def zero_cursor_def)
  then have "collect_pages (\<lambda>k. False) (xd_list ?dp) 0 (zero_filter\<lparr>f_limit := 10000\<rparr>) [] = Some (Inr [])"
    by (simp add: collect_pages.simps pg_export_deps_def pg_list_exact pg_log_def empty_db_def)
  then have "run_job ?dp (\<lambda>k. False) (Some sample_job) ?st = Some (finish_job ?dp sample_job [] ?st)"
    using sample_export_facts(5) by (simp add: run_job_def) (simp add: pg_export_deps_def)
  then obtain res st' where run: "run_job ?dp (\<lambda>k. False) (Some sample_job) ?st = Some (res, st')"
    by (metis prod.collapse)
  from postgres_export_never_closes [OF cd dp run] run show ?thesis
    by auto
qed

end
