(* ===== verification/Forks.thy ===== *)
theory Forks
  imports Postgres "HOL-Library.Multiset"
begin

text \<open>
  The order in which rows are committed and the order of their keys. A row that arrives late (its key is
  smaller than one stored before it) is linked to a row that already has a successor: that is where the chain
  forks. The lemmas are about lists of rows in the order of their commits; the inserts of one server, of
  concurrent transactions (theory Replicas) and of the whole fleet (theories Ledger and Fleet) give such
  lists.
\<close>

section \<open>Late rows\<close>

definition late :: "event list \<Rightarrow> nat \<Rightarrow> bool" where
  "late rows k \<longleftrightarrow> list_ex (\<lambda>x. ev_key (rows ! k) < ev_key x) (take k rows)"

text \<open>Two rows with one hash, or a row with the hash of the empty chain.\<close>

definition hash_clash :: "event list \<Rightarrow> bool" where
  "hash_clash rows \<longleftrightarrow> \<not> distinct (zero_hash # map ev_this_hash rows)"

lemma late_iff: "late rows k \<longleftrightarrow> (\<exists>x \<in> set (take k rows). ev_key (rows ! k) < ev_key x)"
  by (simp add: late_def list_ex_iff)

lemma clash_free:
  assumes "\<not> hash_clash rows" and "x \<in> set rows"
  shows "ev_this_hash x \<noteq> zero_hash" and "y \<in> set rows \<Longrightarrow> ev_this_hash y = ev_this_hash x \<Longrightarrow> y = x"
  using assms by (force simp: hash_clash_def distinct_map dest: inj_onD)+

lemmas tip_of_Nil [simp] = chain_tip_zero

lemma newest_row:
  assumes "rows \<noteq> []"
  obtains x where "x \<in> set rows" "tip_of rows = ev_this_hash x" "\<And>y. y \<in> set rows \<Longrightarrow> ev_key y \<le> ev_key x"
proof -
  let ?l = "sort_key ev_key rows"
  have l: "?l \<noteq> []"
    using assms by (metis set_empty set_sort)
  have "ev_key y \<le> ev_key (last ?l)" if "y \<in> set rows" for y
  proof -
    have "y \<in> set ?l"
      using that by simp
    then obtain i where i: "i < length ?l" "y = ?l ! i"
      unfolding in_set_conv_nth by blast
    have "sorted (map ev_key ?l)"
      by simp
    then show ?thesis
      using i l sorted_nth_mono [of "map ev_key ?l" i "length ?l - 1"] by (simp add: last_conv_nth)
  qed
  moreover have "last ?l \<in> set rows"
    using l by (metis last_in_set set_sort)
  ultimately show thesis
    using that [of "last ?l"] l by (simp add: chain_tip_def)
qed

lemma newest_above:
  assumes "y \<in> set rows"
  obtains x where "x \<in> set rows" "tip_of rows = ev_this_hash x" "ev_key y \<le> ev_key x"
proof -
  have "rows \<noteq> []"
    using assms by auto
  then show thesis
    using newest_row that assms by blast
qed

text \<open>Of rows with distinct ids, no two have the same key.\<close>

lemma same_key:
  assumes "distinct (map ev_id rows)" and "x \<in> set rows" "y \<in> set rows" and "ev_key x = ev_key y"
  shows "x = y"
  using assms by (auto simp: ev_key_def distinct_map dest: inj_onD)

section \<open>Rows linked to earlier ones\<close>

text \<open>Each row is linked to the newest of the rows that some prefix of the list holds.\<close>

definition linked_back :: "event list \<Rightarrow> bool" where
  "linked_back rows \<longleftrightarrow> (\<forall>k < length rows. \<exists>m \<le> k. ev_prev_hash (rows ! k) = tip_of (take m rows))"

text \<open>Each row is linked to the newest of all rows before it.\<close>

definition linked_serially :: "event list \<Rightarrow> bool" where
  "linked_serially rows \<longleftrightarrow> (\<forall>k < length rows. ev_prev_hash (rows ! k) = tip_of (take k rows))"

text \<open>Each row is linked to an earlier one, and to the newest one unless it is late.\<close>

definition linked_unless_late :: "event list \<Rightarrow> bool" where
  "linked_unless_late rows \<longleftrightarrow> linked_back rows \<and>
     (\<forall>k < length rows. late rows k \<or> ev_prev_hash (rows ! k) = tip_of (take k rows))"

lemma linked_back_prev:
  assumes "linked_back rows" and "k < length rows" and "\<not> hash_clash rows"
    and "x \<in> set rows" and "ev_prev_hash (rows ! k) = ev_this_hash x"
  shows "x \<in> set (take k rows)"
proof -
  obtain m where m: "m \<le> k" "ev_prev_hash (rows ! k) = tip_of (take m rows)"
    using assms(1,2) by (auto simp: linked_back_def)
  have "take m rows \<noteq> []"
  proof
    assume "take m rows = []"
    with m(2) assms(5) clash_free(1) [OF assms(3,4)] show False
      by simp
  qed
  then obtain y where y: "y \<in> set (take m rows)" "tip_of (take m rows) = ev_this_hash y"
    using newest_row by blast
  then have "y = x"
    using clash_free(2) [OF assms(3,4) in_set_takeD [OF y(1)]] m(2) assms(5) by simp
  with y(1) show ?thesis
    using set_take_subset_set_take [OF m(1), of rows] by auto
qed

text \<open>
  If the rows are also linked in some serial order, a row that is not late is linked to the newest row before it.
\<close>

lemma serial_order_links:
  assumes ids: "distinct (map ev_id rows)" and prior: "linked_back rows" and clash: "\<not> hash_clash rows"
    and perm: "mset q = mset rows" and serial: "linked_serially q"
    and k: "k < length rows" and new: "\<not> late rows k"
  shows "ev_prev_hash (rows ! k) = tip_of (take k rows)"
proof (cases "take k rows = []")
  case True
  then have "k = 0"
    using k by auto
  with prior k show ?thesis
    by (auto simp: linked_back_def)
next
  case False
  let ?r = "rows ! k" and ?p = "set (take k rows)"
  have sets: "set q = set rows" and "distinct rows"
    using mset_eq_setD [OF perm] ids by (simp_all add: distinct_map)
  obtain y where y: "y \<in> ?p" "tip_of (take k rows) = ev_this_hash y" "\<And>z. z \<in> ?p \<Longrightarrow> ev_key z \<le> ev_key y"
    using newest_row [OF False] by blast
  obtain i where i: "i < k" "y = rows ! i"
    using y(1) by (auto simp: in_set_conv_nth)
  have in_rows: "?r \<in> set rows" "y \<in> set rows" "i < length rows"
    using k i by auto
  have "ev_key y \<le> ev_key ?r"
    using new y(1) by (auto simp: late_iff not_less)
  moreover have "y \<noteq> ?r"
    using i k \<open>distinct rows\<close> by (simp add: nth_eq_iff_index_eq)
  ultimately have less: "ev_key y < ev_key ?r"
    using same_key [OF ids in_rows(2,1)] by fastforce
  obtain a b where a: "a < length q" "q ! a = ?r" and b: "b < length q" "q ! b = y"
    using in_rows sets by (metis in_set_conv_nth)
  consider "b < a" | "a < b"
    using a b \<open>y \<noteq> ?r\<close> by (metis linorder_neqE_nat)
  then show ?thesis
  proof cases
    case 1
    have "y \<in> set (take a q)"
      using 1 a(1) b by (auto simp: in_set_conv_nth intro!: exI [of _ b])
    then obtain x where x: "x \<in> set (take a q)" "tip_of (take a q) = ev_this_hash x" "ev_key y \<le> ev_key x"
      by (rule newest_above)
    have prev: "ev_prev_hash ?r = ev_this_hash x"
      using serial a x(2) by (auto simp: linked_serially_def)
    have "x \<in> set rows"
      using x(1) sets in_set_takeD by fastforce
    with prev have "x \<in> ?p"
      by (intro linked_back_prev [OF prior k clash])
    with x(3) y(3) have "x = y"
      using same_key [OF ids \<open>x \<in> set rows\<close> in_rows(2)] by fastforce
    with prev y(2) show ?thesis
      by simp
  next
    case 2
    have "?r \<in> set (take b q)"
      using 2 a b(1) by (auto simp: in_set_conv_nth intro!: exI [of _ a])
    then obtain x where x: "x \<in> set (take b q)" "tip_of (take b q) = ev_this_hash x" "ev_key ?r \<le> ev_key x"
      by (rule newest_above)
    have prev: "ev_prev_hash (rows ! i) = ev_this_hash x"
      using serial b x(2) i(2) by (auto simp: linked_serially_def)
    have "x \<in> set rows"
      using x(1) sets in_set_takeD by fastforce
    then have "x \<in> set (take i rows)"
      by (rule linked_back_prev [OF prior in_rows(3) clash _ prev])
    then have "x \<in> ?p"
      using i(1) set_take_subset_set_take [of i k rows] by auto
    with y(3) less x(3) show ?thesis
      by fastforce
  qed
qed

text \<open>Two rows with the same predecessor: one of them is late.\<close>

lemma fork_is_late:
  assumes ids: "distinct (map ev_id rows)" and linked: "linked_unless_late rows" and clash: "\<not> hash_clash rows"
    and jk: "j < k" "k < length rows" and same: "ev_prev_hash (rows ! j) = ev_prev_hash (rows ! k)"
  shows "late rows j \<or> late rows k"
proof (rule ccontr)
  assume none: "\<not> (late rows j \<or> late rows k)"
  have "j < length rows"
    using jk by simp
  moreover have "late rows i \<or> ev_prev_hash (rows ! i) = tip_of (take i rows)" if "i < length rows" for i
    using linked that by (simp add: linked_unless_late_def)
  ultimately have prev: "ev_prev_hash (rows ! j) = tip_of (take j rows)"
    "ev_prev_hash (rows ! k) = tip_of (take k rows)"
    using none jk(2) by auto
  have "rows ! j \<in> set (take k rows)"
    using jk by (auto simp: in_set_conv_nth intro!: exI [of _ j])
  then obtain x where x: "x \<in> set (take k rows)" "tip_of (take k rows) = ev_this_hash x" "ev_key (rows ! j) \<le> ev_key x"
    by (rule newest_above)
  have "x \<in> set rows"
    using x(1) by (rule in_set_takeD)
  then have before: "x \<in> set (take j rows)"
    using linked_back_prev [of rows j x] linked clash jk prev same x(2) by (simp add: linked_unless_late_def)
  then have "ev_key x \<le> ev_key (rows ! j)"
    using none by (auto simp: late_iff not_less)
  with x(3) have "x = rows ! j"
    using same_key [OF ids \<open>x \<in> set rows\<close>] jk by simp
  moreover have "distinct rows"
    using ids by (simp add: distinct_map)
  ultimately show False
    using before jk by (auto simp: in_set_conv_nth nth_eq_iff_index_eq)
qed

end
