(* ===== verification/Replicas.thy ===== *)
theory Replicas
  imports Forks Systems
begin

text \<open>
  Several replicas of the service inserting into one database: the statements of \<open>InsertChained\<close>
  (\<open>internal/store/postgres\<close>) of different replicas interleave, and the transaction of each goes through
  the phases of the code. What the server decides is the parameter \<open>server_rules\<close>: which statements fix
  the snapshot of a transaction, and which transactions it admits at their commit. The granting of the
  advisory lock to one transaction at a time, and its release at the end, is what \<open>pg_advisory_xact_lock\<close>
  promises. Any transaction may fail at any statement; a commit may be refused, or applied and its answer
  lost. Of SERIALIZABLE isolation only the documented guarantee is used: what the committed transactions
  did is what they would have done one at a time, in some order.
\<close>

section \<open>Transactions\<close>

datatype phase = Idle | Begun | Waiting | Locked | HeadRead bytes | Inserted int "event list"

record txn =
  tx_phase :: phase
  tx_event :: event
  tx_snapshot :: "event list option"

text \<open>
  The table, the holder of the lock and the transactions; what was committed, with what the insert of each
  transaction reported; what \<open>InsertChained\<close> returned to its callers.
\<close>

record cluster =
  cl_table :: "event list"
  cl_holder :: "nat option"
  cl_txn :: "nat \<Rightarrow> txn"
  cl_committed :: "(event \<times> bool) list"
  cl_answers :: "(event \<times> bool result) list"

text \<open>
  \<open>sr_freezes stmt\<close>: the first such statement of a transaction fixes what the later ones see;
  \<open>sr_admits c i\<close>: the transaction of replica \<open>i\<close> may commit in the state \<open>c\<close>.
\<close>

record server_rules =
  sr_freezes :: "statement \<Rightarrow> bool"
  sr_admits :: "cluster \<Rightarrow> nat \<Rightarrow> bool"

definition idle :: "event \<Rightarrow> txn" where
  "idle e = \<lparr>tx_phase = Idle, tx_event = e, tx_snapshot = None\<rparr>"

definition start_cluster :: "event \<Rightarrow> cluster" where
  "start_cluster e =
     \<lparr>cl_table = [], cl_holder = None, cl_txn = (\<lambda>i. idle e), cl_committed = [], cl_answers = []\<rparr>"

definition set_txn :: "nat \<Rightarrow> txn \<Rightarrow> cluster \<Rightarrow> cluster" where
  "set_txn i t c = c\<lparr>cl_txn := (cl_txn c)(i := t)\<rparr>"

definition freeze :: "server_rules \<Rightarrow> statement \<Rightarrow> event list \<Rightarrow> txn \<Rightarrow> txn" where
  "freeze rules stmt table t =
     (if tx_snapshot t = None \<and> sr_freezes rules stmt then t\<lparr>tx_snapshot := Some table\<rparr> else t)"

text \<open>What a transaction sees.\<close>

definition seen :: "event list \<Rightarrow> txn \<Rightarrow> event list" where
  "seen table t = (case tx_snapshot t of None \<Rightarrow> table | Some snap \<Rightarrow> snap)"

definition release :: "nat \<Rightarrow> nat option \<Rightarrow> nat option" where
  "release i holder = (if holder = Some i then None else holder)"

text \<open>The commit, and the return of \<open>InsertChained\<close> with its deferred rollback.\<close>

definition commit_txn :: "nat \<Rightarrow> int \<Rightarrow> event list \<Rightarrow> cluster \<Rightarrow> cluster" where
  "commit_txn i n rows c =
     c\<lparr>cl_table := cl_table c @ rows, cl_committed := cl_committed c @ [(tx_event (cl_txn c i), n > 0)]\<rparr>"

definition end_txn :: "nat \<Rightarrow> bool result \<Rightarrow> cluster \<Rightarrow> cluster" where
  "end_txn i r c =
     set_txn i (idle (tx_event (cl_txn c i)))
       (c\<lparr>cl_holder := release i (cl_holder c), cl_answers := cl_answers c @ [(tx_event (cl_txn c i), r)]\<rparr>)"

inductive cluster_step :: "pg_codec \<Rightarrow> server_rules \<Rightarrow> cluster \<Rightarrow> cluster \<Rightarrow> bool"
  for cd :: pg_codec and rules :: server_rules where
  step_begin: "tx_phase (cl_txn c i) = Idle \<Longrightarrow>
     cluster_step cd rules c (set_txn i ((idle e)\<lparr>tx_phase := Begun\<rparr>) c)"
| step_ask: "tx_phase (cl_txn c i) = Begun \<Longrightarrow>
     cluster_step cd rules c (set_txn i ((freeze rules AdvisoryLock (cl_table c) (cl_txn c i))\<lparr>tx_phase := Waiting\<rparr>) c)"
| step_grant: "tx_phase (cl_txn c i) = Waiting \<Longrightarrow> cl_holder c = None \<Longrightarrow>
     cluster_step cd rules c (set_txn i ((cl_txn c i)\<lparr>tx_phase := Locked\<rparr>) c\<lparr>cl_holder := Some i\<rparr>)"
| step_head: "tx_phase (cl_txn c i) = Locked \<Longrightarrow> t = freeze rules HeadHash (cl_table c) (cl_txn c i) \<Longrightarrow>
     head_hash no_faults (seen (cl_table c) t) = Inr prev \<Longrightarrow>
     cluster_step cd rules c (set_txn i (t\<lparr>tx_phase := HeadRead prev\<rparr>) c)"
| step_insert: "tx_phase (cl_txn c i) = HeadRead prev \<Longrightarrow> t = freeze rules InsertEvent (cl_table c) (cl_txn c i) \<Longrightarrow>
     insert_event_row cd no_faults (seen (cl_table c) t) (link_event (chain_hash_fn (tx_event t)) prev (tx_event t)) =
       Inr (n, table) \<Longrightarrow>
     cluster_step cd rules c (set_txn i (t\<lparr>tx_phase := Inserted n (drop (length (seen (cl_table c) t)) table)\<rparr>) c)"
| step_commit: "tx_phase (cl_txn c i) = Inserted n rows \<Longrightarrow> sr_admits rules c i \<Longrightarrow>
     cluster_step cd rules c (end_txn i (Inr (n > 0)) (commit_txn i n rows c))"
| step_commit_lost: "tx_phase (cl_txn c i) = Inserted n rows \<Longrightarrow> sr_admits rules c i \<Longrightarrow>
     cluster_step cd rules c (end_txn i (Inl err) (commit_txn i n rows c))"
| step_fail: "tx_phase (cl_txn c i) \<noteq> Idle \<Longrightarrow> cluster_step cd rules c (end_txn i (Inl err) c)"

inductive_cases cluster_stepE: "cluster_step cd rules c c'"

section \<open>What the server has to promise\<close>

text \<open>The same inserts one after the other.\<close>

fun insert_all :: "pg_codec \<Rightarrow> event list \<Rightarrow> pg_db \<Rightarrow> bool result list \<times> pg_db" where
  "insert_all cd [] db = ([], db)"
| "insert_all cd (e # es) db =
     (case pg_insert_chained cd no_faults False db e (chain_hash_fn e) of
        (r, e', db1) \<Rightarrow> (case insert_all cd es db1 of (rs, db2) \<Rightarrow> (r # rs, db2)))"

text \<open>
  Some serial order of the committed transactions has their answers and leaves the rows of the table. The
  order need not be that of the commits.
\<close>

definition serial :: "pg_codec \<Rightarrow> (event \<times> bool) list \<Rightarrow> event list \<Rightarrow> bool" where
  "serial cd history table \<longleftrightarrow>
     (\<exists>order db. mset order = mset history \<and>
        insert_all cd (map fst order) empty_db = (map (\<lambda>x. Inr (snd x)) order, db) \<and>
        mset (pg_events db) = mset table)"

definition serializable :: "pg_codec \<Rightarrow> server_rules \<Rightarrow> bool" where
  "serializable cd rules \<longleftrightarrow>
     (\<forall>e0 c. (cluster_step cd rules)\<^sup>*\<^sup>* (start_cluster e0) c \<longrightarrow> serial cd (cl_committed c) (cl_table c))"

lemma insert_all_snoc:
  assumes "insert_all cd es db = (rs, db1)" and "pg_insert_chained cd no_faults False db1 e (chain_hash_fn e) = (r, e', db2)"
  shows "insert_all cd (es @ [e]) db = (rs @ [r], db2)"
  using assms by (induction es arbitrary: db rs) (auto split: prod.splits)

text \<open>Rows inserted one after the other: the ids are distinct and each is linked to the newest before it.\<close>

lemma linked_serially_snoc:
  "linked_serially rows \<Longrightarrow> ev_prev_hash r = tip_of rows \<Longrightarrow> linked_serially (rows @ [r])"
  by (auto simp: linked_serially_def nth_append less_Suc_eq)

lemma linked_back_snoc:
  assumes "linked_back rows" and "m \<le> length rows" and "ev_prev_hash r = tip_of (take m rows)"
  shows "linked_back (rows @ [r])"
  unfolding linked_back_def
proof (intro allI impI)
  fix k assume "k < length (rows @ [r])"
  then consider "k < length rows" | "k = length rows"
    by fastforce
  then show "\<exists>m \<le> k. ev_prev_hash ((rows @ [r]) ! k) = tip_of (take m (rows @ [r]))"
  proof cases
    case 1
    then obtain j where "j \<le> k" "ev_prev_hash (rows ! k) = tip_of (take j rows)"
      using assms(1) by (auto simp: linked_back_def)
    with 1 show ?thesis
      by (auto simp: nth_append intro!: exI [of _ j])
  next
    case 2
    with assms(2,3) show ?thesis
      by (auto simp: nth_append intro!: exI [of _ m])
  qed
qed

text \<open>One insert, and a sequence of them: each that does not fail leaves its id in the table.\<close>

definition keeps_chain :: "pg_db \<Rightarrow> pg_db \<Rightarrow> bool" where
  "keeps_chain db db' \<longleftrightarrow> pg_inv db' \<and> linked_serially (pg_events db') \<and>
     ev_id ` set (pg_events db) \<subseteq> ev_id ` set (pg_events db')"

lemma insert_one:
  assumes run: "pg_insert_chained cd no_faults False db e h = (r, e', db')"
    and inv: "pg_inv db" and linked: "linked_serially (pg_events db)"
  shows "keeps_chain db db'"
    and "r = Inr b \<Longrightarrow> \<exists>i. cd_uuid cd (ev_id e) = Inr i \<and> i \<in> ev_id ` set (pg_events db')"
proof -
  show "keeps_chain db db'"
  proof (cases "db' = db")
    case False
    then obtain row where "encode_row cd (link_event h (tip_of (pg_events db)) e) = Inr row"
      "ev_id row \<notin> ev_id ` set (pg_events db)" "db' = db\<lparr>pg_events := pg_events db @ [row]\<rparr>"
      using pg_insert_chained_cases [OF run] by (auto simp: pg_log_def)
    then show ?thesis
      using inv linked encode_row_hashes [of cd "link_event h (tip_of (pg_events db)) e" row]
      by (auto simp: keeps_chain_def pg_inv_def intro: linked_serially_snoc)
  qed (use inv linked in \<open>simp add: keeps_chain_def\<close>)
  show "\<exists>i. cd_uuid cd (ev_id e) = Inr i \<and> i \<in> ev_id ` set (pg_events db')" if "r = Inr b"
  proof -
    note r = that
    obtain prev n table where ins: "insert_event_row cd no_faults (pg_events db) (link_event h prev e) = Inr (n, table)"
      and db': "pg_events db' = table"
      using run r by (auto simp: pg_insert_chained_def Let_def link_event_def split: sum.splits)
    obtain row where row: "encode_row cd (link_event h prev e) = Inr row" and "ev_id row \<in> ev_id ` set table"
      using insert_event_row_cases [OF ins] by auto
    with encode_row_hashes [OF row] db' show ?thesis
      by simp
  qed
qed

lemma insert_all_run:
  assumes "insert_all cd es db = (rs, db')" and "pg_inv db" and "linked_serially (pg_events db)"
  shows "keeps_chain db db' \<and> (\<forall>e b. (e, Inr b) \<in> set (zip es rs) \<longrightarrow>
    (\<exists>i. cd_uuid cd (ev_id e) = Inr i \<and> i \<in> ev_id ` set (pg_events db')))"
  using assms
proof (induction es arbitrary: db rs)
  case (Cons e es)
  obtain r e' db1 rs' where one: "pg_insert_chained cd no_faults False db e (chain_hash_fn e) = (r, e', db1)"
    and all: "insert_all cd es db1 = (rs', db')" and rs: "rs = r # rs'"
    using Cons.prems(1) by (auto split: prod.splits)
  note step = insert_one [OF one Cons.prems(2,3)]
  have rest: "keeps_chain db1 db'" "\<And>e b. (e, Inr b) \<in> set (zip es rs') \<Longrightarrow>
      \<exists>i. cd_uuid cd (ev_id e) = Inr i \<and> i \<in> ev_id ` set (pg_events db')"
    using Cons.IH [OF all] step(1) by (auto simp: keeps_chain_def)
  have "\<exists>i. cd_uuid cd (ev_id x) = Inr i \<and> i \<in> ev_id ` set (pg_events db')" if "(x, Inr b) \<in> set (zip (e # es) rs)" for x b
  proof -
    have "ev_id ` set (pg_events db1) \<subseteq> ev_id ` set (pg_events db')"
      using rest(1) by (simp add: keeps_chain_def)
    from subsetD [OF this] that rest(2) [of x b] step(2) [of b] show ?thesis
      unfolding rs by auto
  qed
  moreover have "keeps_chain db db'"
    using step(1) rest(1) by (auto simp: keeps_chain_def)
  ultimately show ?case
    by blast
qed (simp add: keeps_chain_def)

lemma serial_rows:
  assumes "serial cd history table"
  obtains q where "mset q = mset table" "linked_serially q" "distinct (map ev_id table)"
    "\<And>e b. (e, b) \<in> set history \<Longrightarrow> \<exists>i. cd_uuid cd (ev_id e) = Inr i \<and> i \<in> ev_id ` set table"
proof -
  obtain order db where order: "mset order = mset history"
    and run: "insert_all cd (map fst order) empty_db = (map (\<lambda>x. Inr (snd x)) order, db)"
    and table: "mset (pg_events db) = mset table"
    using assms by (auto simp: serial_def)
  have "pg_inv empty_db" "linked_serially (pg_events empty_db)"
    by (simp_all add: pg_inv_def empty_db_def linked_serially_def)
  note all = insert_all_run [OF run this]
  have "set (pg_events db) = set table"
    using mset_eq_setD [OF table] .
  moreover have "(e, Inr b) \<in> set (zip (map fst order) (map (\<lambda>x. Inr (snd x)) order))" if "(e, b) \<in> set history" for e b
  proof -
    have "(e, b) \<in> set order"
      using that mset_eq_setD [OF order] by simp
    then show ?thesis
      by (force simp: zip_map_map zip_same_conv_map)
  qed
  ultimately have "\<exists>i. cd_uuid cd (ev_id e) = Inr i \<and> i \<in> ev_id ` set table" if "(e, b) \<in> set history" for e b
    using all that by metis
  moreover have "distinct (map ev_id table)"
  proof -
    have "mset (map ev_id (pg_events db)) = mset (map ev_id table)"
      using table by simp
    from mset_eq_imp_distinct_iff [OF this] show ?thesis
      using all by (simp add: keeps_chain_def pg_inv_def)
  qed
  ultimately show thesis
    using that [of "pg_events db"] table all by (simp add: keeps_chain_def)
qed

section \<open>The invariant\<close>

text \<open>
  What a transaction of replica \<open>i\<close> has done so far. Past the lock it is the holder; what it read and
  what it is about to add follow from what it sees.
\<close>

fun txn_ok :: "pg_codec \<Rightarrow> event list \<Rightarrow> nat option \<Rightarrow> nat \<Rightarrow> txn \<Rightarrow> phase \<Rightarrow> bool" where
  "txn_ok cd table holder i t Locked \<longleftrightarrow> holder = Some i"
| "txn_ok cd table holder i t (HeadRead prev) \<longleftrightarrow> holder = Some i \<and> head_hash no_faults (seen table t) = Inr prev"
| "txn_ok cd table holder i t (Inserted n rows) \<longleftrightarrow> holder = Some i \<and>
     (\<exists>prev table'. head_hash no_faults (seen table t) = Inr prev \<and>
        insert_event_row cd no_faults (seen table t) (link_event (chain_hash_fn (tx_event t)) prev (tx_event t)) =
          Inr (n, table') \<and> rows = drop (length (seen table t)) table')"
| "txn_ok cd table holder i t _ \<longleftrightarrow> holder \<noteq> Some i"

text \<open>The row is what the column types make of an event that was committed as new.\<close>

definition row_committed :: "pg_codec \<Rightarrow> (event \<times> bool) list \<Rightarrow> event \<Rightarrow> bool" where
  "row_committed cd history r \<longleftrightarrow>
     (\<exists>e. (e, True) \<in> set history \<and> encode_row cd (link_event (chain_hash_fn e) (ev_prev_hash r) e) = Inr r)"

definition cluster_ok :: "pg_codec \<Rightarrow> cluster \<Rightarrow> bool" where
  "cluster_ok cd c \<longleftrightarrow>
     (\<forall>i. txn_ok cd (cl_table c) (cl_holder c) i (cl_txn c i) (tx_phase (cl_txn c i))) \<and>
     (\<forall>i. prefix (seen (cl_table c) (cl_txn c i)) (cl_table c)) \<and>
     linked_back (cl_table c) \<and> (\<forall>r \<in> set (cl_table c). row_committed cd (cl_committed c) r) \<and>
     (\<forall>e b. (e, Inr b) \<in> set (cl_answers c) \<longrightarrow> (e, b) \<in> set (cl_committed c))"

lemma cluster_okD:
  assumes "cluster_ok cd c"
  shows "txn_ok cd (cl_table c) (cl_holder c) i (cl_txn c i) (tx_phase (cl_txn c i))"
    and "prefix (seen (cl_table c) (cl_txn c i)) (cl_table c)" and "linked_back (cl_table c)"
    and "r \<in> set (cl_table c) \<Longrightarrow> row_committed cd (cl_committed c) r"
    and "(e, Inr b) \<in> set (cl_answers c) \<Longrightarrow> (e, b) \<in> set (cl_committed c)"
  using assms by (auto simp: cluster_ok_def)

lemma freeze_fields [simp]:
  "tx_phase (freeze rules stmt table t) = tx_phase t" "tx_event (freeze rules stmt table t) = tx_event t"
  "seen table (freeze rules stmt table t) = seen table t"
  by (simp_all add: freeze_def seen_def)

lemma seen_phase [simp]: "seen table (t\<lparr>tx_phase := p\<rparr>) = seen table t"
  by (simp add: seen_def)

lemma seen_idle [simp]: "seen table (idle e) = table"
  by (simp add: seen_def idle_def)

lemma txn_ok_phase [simp]: "txn_ok cd table holder i (t\<lparr>tx_phase := q\<rparr>) p = txn_ok cd table holder i t p"
  by (cases p) simp_all

lemma set_txn_fields [simp]:
  "cl_table (set_txn i t c) = cl_table c" "cl_holder (set_txn i t c) = cl_holder c"
  "cl_committed (set_txn i t c) = cl_committed c" "cl_answers (set_txn i t c) = cl_answers c"
  "cl_txn (set_txn i t c) = (cl_txn c)(i := t)"
  by (simp_all add: set_txn_def)

lemma end_txn_fields [simp]:
  "cl_table (end_txn i r c) = cl_table c" "cl_holder (end_txn i r c) = release i (cl_holder c)"
  "cl_committed (end_txn i r c) = cl_committed c" "cl_answers (end_txn i r c) = cl_answers c @ [(tx_event (cl_txn c i), r)]"
  "cl_txn (end_txn i r c) = (cl_txn c)(i := idle (tx_event (cl_txn c i)))"
  by (simp_all add: end_txn_def)

lemma commit_txn_fields [simp]:
  "cl_table (commit_txn i n rows c) = cl_table c @ rows" "cl_holder (commit_txn i n rows c) = cl_holder c"
  "cl_committed (commit_txn i n rows c) = cl_committed c @ [(tx_event (cl_txn c i), n > 0)]"
  "cl_answers (commit_txn i n rows c) = cl_answers c" "cl_txn (commit_txn i n rows c) = cl_txn c"
  by (simp_all add: commit_txn_def)

text \<open>A transaction that does not hold the lock is not affected by the others.\<close>

lemma txn_ok_other:
  "txn_ok cd table holder j t p \<Longrightarrow> holder \<noteq> Some j \<Longrightarrow> holder' \<noteq> Some j \<Longrightarrow> txn_ok cd table' holder' j t p"
  by (cases p) simp_all

lemma prefix_seen: "prefix (seen table t) table \<Longrightarrow> prefix (seen (table @ rows) t) (table @ rows)"
  by (auto simp: seen_def prefix_def split: option.splits)

lemma cluster_start: "cluster_ok cd (start_cluster e)"
  by (simp add: cluster_ok_def start_cluster_def idle_def seen_def linked_back_def)

lemma row_committed_mono: "row_committed cd history r \<Longrightarrow> row_committed cd (history @ later) r"
  by (auto simp: row_committed_def)

text \<open>What the commit of a transaction adds.\<close>

lemma committed_rows:
  assumes ok: "cluster_ok cd c" and phase: "tx_phase (cl_txn c i) = Inserted n rows"
  shows "n = 0 \<and> rows = [] \<or> (\<exists>r. n = 1 \<and> rows = [r] \<and>
    encode_row cd (link_event (chain_hash_fn (tx_event (cl_txn c i))) (ev_prev_hash r) (tx_event (cl_txn c i))) = Inr r \<and>
    ev_prev_hash r = tip_of (seen (cl_table c) (cl_txn c i)))"
proof -
  let ?t = "cl_txn c i" and ?e = "tx_event (cl_txn c i)"
  obtain prev table' where head: "head_hash no_faults (seen (cl_table c) ?t) = Inr prev"
    and ins: "insert_event_row cd no_faults (seen (cl_table c) ?t) (link_event (chain_hash_fn ?e) prev ?e) = Inr (n, table')"
    and rows: "rows = drop (length (seen (cl_table c) ?t)) table'"
    using cluster_okD(1) [OF ok, of i] phase by auto
  have "prev = tip_of (seen (cl_table c) ?t)"
    using head_hash_Inr [of no_faults "empty_db\<lparr>pg_events := seen (cl_table c) ?t\<rparr>"] head by (simp add: pg_log_def)
  moreover obtain r where "encode_row cd (link_event (chain_hash_fn ?e) prev ?e) = Inr r"
    "n = 0 \<and> rows = [] \<or> n = 1 \<and> rows = [r]"
    using insert_event_row_cases [OF ins] rows by auto
  moreover have "ev_prev_hash r = prev"
    using encode_row_hashes calculation(2) by fastforce
  ultimately show ?thesis
    by auto
qed

lemma commit_ok:
  assumes ok: "cluster_ok cd c" and phase: "tx_phase (cl_txn c i) = Inserted n rows"
    and answer: "r = Inr (n > 0) \<or> r = Inl err"
  shows "cluster_ok cd (end_txn i r (commit_txn i n rows c))" (is "cluster_ok cd ?c")
proof -
  let ?t = "cl_txn c i" and ?e = "tx_event (cl_txn c i)"
  have holder: "cl_holder c = Some i"
    using cluster_okD(1) [OF ok, of i] phase by simp
  have "txn_ok cd (cl_table ?c) (cl_holder ?c) j (cl_txn ?c j) (tx_phase (cl_txn ?c j))" for j
    using cluster_okD(1) [OF ok, of j] holder by (auto simp: release_def idle_def intro: txn_ok_other)
  moreover have "prefix (seen (cl_table ?c) (cl_txn ?c j)) (cl_table ?c)" for j
    using cluster_okD(2) [OF ok, of j] by (simp add: prefix_seen)
  moreover have "linked_back (cl_table ?c) \<and> (\<forall>r \<in> set (cl_table ?c). row_committed cd (cl_committed ?c) r)"
  proof (cases "rows = []")
    case False
    then obtain row where row: "n = 1" "rows = [row]"
        "encode_row cd (link_event (chain_hash_fn ?e) (ev_prev_hash row) ?e) = Inr row"
        "ev_prev_hash row = tip_of (seen (cl_table c) ?t)"
      using committed_rows [OF ok phase] by auto
    have "seen (cl_table c) ?t = take (length (seen (cl_table c) ?t)) (cl_table c)"
      using cluster_okD(2) [OF ok, of i] by (metis append_eq_conv_conj prefix_def)
    moreover have "length (seen (cl_table c) ?t) \<le> length (cl_table c)"
      using cluster_okD(2) [OF ok, of i] by (rule prefix_length_le)
    ultimately have "linked_back (cl_table c @ [row])"
      using row(4) by (intro linked_back_snoc [OF cluster_okD(3) [OF ok]]) auto
    moreover have "row_committed cd (cl_committed ?c) row"
      using row(1,3) by (auto simp: row_committed_def)
    ultimately show ?thesis
      using cluster_okD(4) [OF ok] by (auto simp: row(2) intro: row_committed_mono)
  qed (use cluster_okD(3,4) [OF ok] in \<open>auto intro: row_committed_mono\<close>)
  moreover have "(e, b) \<in> set (cl_committed ?c)" if "(e, Inr b) \<in> set (cl_answers ?c)" for e b
    using that cluster_okD(5) [OF ok, of e b] answer by auto
  ultimately show ?thesis
    by (auto simp: cluster_ok_def)
qed

lemma cluster_step_ok:
  assumes "cluster_step cd rules c c'" and ok: "cluster_ok cd c"
  shows "cluster_ok cd c'"
  using assms(1)
proof cases
  case (step_begin i e)
  then show ?thesis
    using cluster_okD [OF ok] cluster_okD(1) [OF ok, of i] by (auto simp: cluster_ok_def idle_def seen_def)
next
  case (step_ask i)
  then show ?thesis
    using cluster_okD [OF ok] cluster_okD(1) [OF ok, of i] by (auto simp: cluster_ok_def)
next
  case (step_grant i)
  then show ?thesis
    using cluster_okD [OF ok] by (auto simp: cluster_ok_def intro: txn_ok_other)
next
  case (step_head i t prev)
  then show ?thesis
    using cluster_okD [OF ok] cluster_okD(1,2) [OF ok, of i] by (auto simp: cluster_ok_def)
next
  case (step_insert i prev t n table)
  then show ?thesis
    using cluster_okD [OF ok] cluster_okD(1,2) [OF ok, of i] by (auto simp: cluster_ok_def)
next
  case (step_commit i n rows)
  then show ?thesis
    using commit_ok [OF ok step_commit(2)] by simp
next
  case (step_commit_lost i n rows err)
  then show ?thesis
    using commit_ok [OF ok step_commit_lost(2)] by simp
next
  case (step_fail i err)
  have "txn_ok cd (cl_table c') (cl_holder c') j (cl_txn c' j) (tx_phase (cl_txn c' j))" for j
    using cluster_okD(1) [OF ok, of j]
    by (cases "j = i") (auto simp: step_fail(1) idle_def release_def intro: txn_ok_other)
  then show ?thesis
    using cluster_okD [OF ok] by (auto simp: cluster_ok_def step_fail(1))
qed

interpretation replicating: step_system "\<lambda>c. \<exists>e0. c = start_cluster e0" "cluster_step cd rules" "cluster_ok cd"
  for cd rules
  by unfold_locales (auto intro: cluster_start cluster_step_ok)

lemma cluster_run_ok: "(cluster_step cd rules)\<^sup>*\<^sup>* (start_cluster e0) c \<Longrightarrow> cluster_ok cd c"
  using replicating.reachable_ok [of cd rules "start_cluster e0" c] by blast

text \<open>The rows of a cluster whose server is serializable.\<close>

lemma serial_cluster:
  assumes ok: "cluster_ok cd c" and serial: "serial cd (cl_committed c) (cl_table c)"
  shows "distinct (map ev_id (cl_table c))" and "hash_clash (cl_table c) \<or> linked_unless_late (cl_table c)"
    and "(e, Inr b) \<in> set (cl_answers c) \<Longrightarrow> \<exists>r \<in> set (cl_table c). cd_uuid cd (ev_id e) = Inr (ev_id r)"
proof -
  obtain q where q: "mset q = mset (cl_table c)" "linked_serially q" and ids: "distinct (map ev_id (cl_table c))"
    and acked: "\<And>e b. (e, b) \<in> set (cl_committed c) \<Longrightarrow> \<exists>i. cd_uuid cd (ev_id e) = Inr i \<and> i \<in> ev_id ` set (cl_table c)"
    using serial_rows [OF serial] by blast
  show "distinct (map ev_id (cl_table c))"
    by (rule ids)
  show "hash_clash (cl_table c) \<or> linked_unless_late (cl_table c)"
    using serial_order_links [OF ids cluster_okD(3) [OF ok] _ q] cluster_okD(3) [OF ok] by (auto simp: linked_unless_late_def)
  show "\<exists>r \<in> set (cl_table c). cd_uuid cd (ev_id e) = Inr (ev_id r)" if "(e, Inr b) \<in> set (cl_answers c)"
    using acked [OF cluster_okD(5) [OF ok that]] by auto
qed


text \<open>
  What a serializable server admits is one transition of \<open>pg_insert_snapshot\<close>, with which theory Fleet works:
  the insert as a whole, reading the table as it was at some earlier time.
\<close>

lemma commit_is_snapshot_insert:
  assumes "serializable cd rules" and run: "(cluster_step cd rules)\<^sup>*\<^sup>* (start_cluster e0) c"
    and phase: "tx_phase (cl_txn c i) = Inserted n rows" and admitted: "sr_admits rules c i"
  defines "e \<equiv> tx_event (cl_txn c i)" and "db \<equiv> empty_db\<lparr>pg_events := cl_table c\<rparr>"
  shows "hash_clash (cl_table c @ rows) \<or>
    (\<exists>m e'. pg_insert_snapshot cd no_faults False m db e (chain_hash_fn e) =
       (Inr (n > 0), e', db\<lparr>pg_events := cl_table c @ rows\<rparr>))"
proof (cases "hash_clash (cl_table c @ rows)")
  case False
  let ?snap = "seen (cl_table c) (cl_txn c i)" and ?c = "end_txn i (Inr (n > 0)) (commit_txn i n rows c)"
  have ok: "cluster_ok cd c"
    by (rule cluster_run_ok [OF run])
  have "(cluster_step cd rules)\<^sup>*\<^sup>* (start_cluster e0) ?c"
    using run step_commit [OF phase admitted] by (rule rtranclp.rtrancl_into_rtrancl)
  then have serial: "cluster_ok cd ?c" "serial cd (cl_committed ?c) (cl_table ?c)"
    using assms(1) cluster_run_ok unfolding serializable_def by blast+
  obtain prev table' where head: "head_hash no_faults ?snap = Inr prev"
    and ins: "insert_event_row cd no_faults ?snap (link_event (chain_hash_fn e) prev e) = Inr (n, table')"
    and rows: "rows = drop (length ?snap) table'"
    using cluster_okD(1) [OF ok, of i] phase by (auto simp: e_def)
  have snap: "take (length ?snap) (cl_table c) = ?snap"
    using cluster_okD(2) [OF ok, of i] by (metis append_eq_conv_conj prefix_def)
  have chained: "pg_insert_chained cd no_faults False (db\<lparr>pg_events := ?snap\<rparr>) e (chain_hash_fn e) =
      (Inr (n > 0), link_event (chain_hash_fn e) prev e, db\<lparr>pg_events := table'\<rparr>)"
    using head ins by (simp add: pg_insert_chained_def Let_def db_def flip: link_event_def)
  have "admits_snapshot (cl_table c) (length ?snap) r" if "r \<in> set rows" for r
  proof -
    have r: "rows = [r]" "ev_prev_hash r = tip_of ?snap"
      using committed_rows [OF ok phase] that by auto
    have "late (cl_table c @ [r]) (length (cl_table c)) \<or> ev_prev_hash r = tip_of (cl_table c)"
      using serial_cluster(2) [OF serial] False r(1) by (auto simp: linked_unless_late_def nth_append)
    moreover have "ev_id r \<notin> ev_id ` set (cl_table c)"
      using serial_cluster(1) [OF serial] r(1) by simp
    ultimately show ?thesis
      using r(2) by (auto simp: admits_snapshot_def snap late_def)
  qed
  then have "list_all (admits_snapshot (cl_table c) (length ?snap)) rows"
    by (simp add: list_all_iff)
  then have "pg_insert_snapshot cd no_faults False (length ?snap) db e (chain_hash_fn e) =
      (Inr (n > 0), link_event (chain_hash_fn e) prev e, db\<lparr>pg_events := cl_table c @ rows\<rparr>)"
    using chained rows by (simp add: pg_insert_snapshot_def db_def snap)
  then show ?thesis
    by blast
qed simp

section \<open>Servers that are serializable\<close>

lemma head_hash_tip_of: "head_hash no_faults rows = Inr (tip_of rows)"
  using head_hash_tip [of "empty_db\<lparr>pg_events := rows\<rparr>"] by (simp add: pg_log_def)

text \<open>
  One way to be serializable: to admit a transaction only if the two things it reads, the newest row and
  whether its id is taken, are still what they were. Then the order of the commits is a serial order.
\<close>

definition head_row :: "event list \<Rightarrow> event option" where
  "head_row table = (case rev (sort_key ev_key table) of [] \<Rightarrow> None | r # rs \<Rightarrow> Some r)"

definition same_reads :: "pg_codec \<Rightarrow> event \<Rightarrow> event list \<Rightarrow> event list \<Rightarrow> bool" where
  "same_reads cd e snap table \<longleftrightarrow> head_row snap = head_row table \<and>
     (\<forall>i. cd_uuid cd (ev_id e) = Inr i \<longrightarrow> (i \<in> ev_id ` set snap \<longleftrightarrow> i \<in> ev_id ` set table))"

definition reads_unchanged :: "pg_codec \<Rightarrow> server_rules \<Rightarrow> bool" where
  "reads_unchanged cd rules \<longleftrightarrow>
     (\<forall>c i. sr_admits rules c i \<longrightarrow> same_reads cd (tx_event (cl_txn c i)) (seen (cl_table c) (cl_txn c i)) (cl_table c))"

lemma head_hash_row: "head_hash no_faults table = Inr (case head_row table of None \<Rightarrow> replicate 32 0 | Some r \<Rightarrow> ev_this_hash r)"
  by (simp add: head_hash_def head_row_def split: list.split)

lemma same_reads_head: "same_reads cd e snap table \<Longrightarrow> head_hash no_faults snap = head_hash no_faults table"
  by (simp add: same_reads_def head_hash_row)

lemma same_reads_insert:
  assumes "same_reads cd e snap table" and "insert_event_row cd no_faults snap (link_event h p e) = Inr (n, snap')"
  shows "insert_event_row cd no_faults table (link_event h p e) = Inr (n, table @ drop (length snap) snap')"
proof -
  obtain r where r: "encode_row cd (link_event h p e) = Inr r"
    and n: "n = 0 \<and> ev_id r \<in> ev_id ` set snap \<and> snap' = snap \<or> n = 1 \<and> ev_id r \<notin> ev_id ` set snap \<and> snap' = snap @ [r]"
    using insert_event_row_cases [OF assms(2)] by blast
  have "cd_uuid cd (ev_id e) = Inr (ev_id r)"
    using encode_row_hashes [OF r] by simp
  with assms(1) have "ev_id r \<in> ev_id ` set snap \<longleftrightarrow> ev_id r \<in> ev_id ` set table"
    by (simp add: same_reads_def)
  with r n show ?thesis
    by (auto simp: insert_event_row_def)
qed

definition in_commit_order :: "pg_codec \<Rightarrow> cluster \<Rightarrow> bool" where
  "in_commit_order cd c \<longleftrightarrow>
     (\<exists>db. insert_all cd (map fst (cl_committed c)) empty_db = (map (\<lambda>x. Inr (snd x)) (cl_committed c), db) \<and>
        pg_events db = cl_table c)"

lemma commit_in_order:
  assumes ok: "cluster_ok cd c" and phase: "tx_phase (cl_txn c i) = Inserted n rows"
    and reads: "same_reads cd (tx_event (cl_txn c i)) (seen (cl_table c) (cl_txn c i)) (cl_table c)"
    and order: "in_commit_order cd c"
  shows "in_commit_order cd (end_txn i r (commit_txn i n rows c))"
proof -
  let ?t = "cl_txn c i" and ?e = "tx_event (cl_txn c i)"
  obtain db where db: "insert_all cd (map fst (cl_committed c)) empty_db = (map (\<lambda>x. Inr (snd x)) (cl_committed c), db)"
    "pg_events db = cl_table c"
    using order by (auto simp: in_commit_order_def)
  obtain prev table' where head: "head_hash no_faults (seen (cl_table c) ?t) = Inr prev"
    and ins: "insert_event_row cd no_faults (seen (cl_table c) ?t) (link_event (chain_hash_fn ?e) prev ?e) = Inr (n, table')"
    and rows: "rows = drop (length (seen (cl_table c) ?t)) table'"
    using cluster_okD(1) [OF ok, of i] phase by auto
  have "head_hash no_faults (pg_events db) = Inr prev"
    using same_reads_head [OF reads] head by (simp add: db(2))
  moreover have "insert_event_row cd no_faults (pg_events db) (link_event (chain_hash_fn ?e) prev ?e) =
      Inr (n, cl_table c @ rows)"
    using same_reads_insert [OF reads ins] rows by (simp add: db(2))
  ultimately have "pg_insert_chained cd no_faults False db ?e (chain_hash_fn ?e) =
      (Inr (n > 0), link_event (chain_hash_fn ?e) prev ?e, db\<lparr>pg_events := cl_table c @ rows\<rparr>)"
    by (simp add: pg_insert_chained_def Let_def flip: link_event_def)
  from insert_all_snoc [OF db(1) this] show ?thesis
    by (simp add: in_commit_order_def)
qed

lemma run_in_commit_order:
  assumes "reads_unchanged cd rules" and "(cluster_step cd rules)\<^sup>*\<^sup>* (start_cluster e0) c"
  shows "in_commit_order cd c"
  using assms(2)
proof (induction rule: rtranclp_induct)
  case base
  show ?case
    by (simp add: in_commit_order_def start_cluster_def empty_db_def)
next
  case (step c c')
  note ok = cluster_run_ok [OF step.hyps(1)]
  have reads: "same_reads cd (tx_event (cl_txn c i)) (seen (cl_table c) (cl_txn c i)) (cl_table c)"
    if "sr_admits rules c i" for i
    using assms(1) that by (simp add: reads_unchanged_def)
  from step.hyps(2) show ?case
    by (cases rule: cluster_step.cases)
      (use step.IH commit_in_order [OF ok _ reads step.IH] in \<open>auto simp: in_commit_order_def\<close>)
qed

lemma reads_unchanged_serializable:
  assumes "reads_unchanged cd rules"
  shows "serializable cd rules"
  unfolding serializable_def
proof (intro allI impI)
  fix e0 c assume "(cluster_step cd rules)\<^sup>*\<^sup>* (start_cluster e0) c"
  then obtain db where "insert_all cd (map fst (cl_committed c)) empty_db = (map (\<lambda>x. Inr (snd x)) (cl_committed c), db)"
    "pg_events db = cl_table c"
    using run_in_commit_order [OF assms] by (auto simp: in_commit_order_def)
  then show "serial cd (cl_committed c) (cl_table c)"
    unfolding serial_def by (intro exI [of _ "cl_committed c"] exI [of _ db]) simp
qed

text \<open>
  A serializable server may do more: a row that is older than the newest one may be committed after a newer
  row with the same predecessor, since it may have come between the two. The chain forks there.
\<close>

lemma late_fork_is_serial:
  fixes m a b :: event
  assumes exact: "exact_event cd m" "exact_event cd a" "exact_event cd b"
    and keys: "ev_key b < ev_key m" "ev_key m < ev_key a" and ids: "distinct [ev_id m, ev_id a, ev_id b]"
  defines "M \<equiv> link_event (chain_hash_fn m) zero_hash m"
  defines "A \<equiv> link_event (chain_hash_fn a) (ev_this_hash M) a" and "B \<equiv> link_event (chain_hash_fn b) (ev_this_hash M) b"
  shows "serial cd [(m, True), (a, True), (b, True)] [M, A, B]"
proof -
  have insert: "pg_insert_chained cd no_faults False db e (chain_hash_fn e) =
      (Inr True, link_event (chain_hash_fn e) (tip_of (pg_events db)) e,
       db\<lparr>pg_events := pg_events db @ [link_event (chain_hash_fn e) (tip_of (pg_events db)) e]\<rparr>)"
    if "exact_event cd e" "ev_id e \<notin> ev_id ` set (pg_events db)" for db e
    using that by (simp add: pg_insert_chained_def head_hash_tip_of insert_event_row_def encode_exact Let_def
        flip: link_event_def)
  have "\<not> ev_key M \<le> ev_key B" "ev_key B \<le> ev_key M"
    using keys by (simp_all add: M_def B_def)
  then have tips: "tip_of [M] = ev_this_hash M" "tip_of [M, B] = ev_this_hash M"
    by (simp_all add: chain_tip_def)
  have "ev_id M = ev_id m" "ev_id B = ev_id b"
    by (simp_all add: M_def B_def)
  with ids have fresh: "ev_id m \<notin> ev_id ` set (pg_events empty_db)"
    "ev_id b \<notin> ev_id ` set (pg_events (empty_db\<lparr>pg_events := [M]\<rparr>))"
    "ev_id a \<notin> ev_id ` set (pg_events (empty_db\<lparr>pg_events := [M, B]\<rparr>))"
    by (auto simp: empty_db_def)
  have db: "pg_events empty_db = []" "pg_events (empty_db\<lparr>pg_events := x\<rparr>) = x"
    "empty_db\<lparr>pg_events := x, pg_events := y\<rparr> = empty_db\<lparr>pg_events := y\<rparr>" for x y
    by (simp_all add: empty_db_def)
  have rows: "link_event (chain_hash_fn m) (tip_of (pg_events empty_db)) m = M"
    "link_event (chain_hash_fn b) (tip_of (pg_events (empty_db\<lparr>pg_events := [M]\<rparr>))) b = B"
    "link_event (chain_hash_fn a) (tip_of (pg_events (empty_db\<lparr>pg_events := [M, B]\<rparr>))) a = A"
    by (simp_all only: db tips flip: A_def B_def) (simp add: M_def)
  have run: "insert_all cd [m, b, a] empty_db = ([Inr True, Inr True, Inr True], empty_db\<lparr>pg_events := [M, B, A]\<rparr>)"
    using insert [OF exact(1) fresh(1)] insert [OF exact(3) fresh(2)] insert [OF exact(2) fresh(3)]
    unfolding rows by (simp add: db)
  show ?thesis
    unfolding serial_def
    by (intro exI [of _ "[(m, True), (b, True), (a, True)]"] exI [of _ "empty_db\<lparr>pg_events := [M, B, A]\<rparr>"])
      (use run in simp)
qed

definition strict_rules :: server_rules where
  "strict_rules = \<lparr>sr_freezes = (\<lambda>stmt. stmt \<in> {AdvisoryLock, HeadHash, InsertEvent}),
     sr_admits = (\<lambda>c i. seen (cl_table c) (cl_txn c i) = cl_table c)\<rparr>"

lemma strict_serializable: "serializable cd strict_rules"
  by (rule reads_unchanged_serializable) (simp add: reads_unchanged_def strict_rules_def same_reads_def)

section \<open>What the holder of the lock sees\<close>

text \<open>Without a snapshot before the lock, what a transaction sees is the table.\<close>

definition current_snapshots :: "cluster \<Rightarrow> bool" where
  "current_snapshots c \<longleftrightarrow>
     (\<forall>i snap. tx_snapshot (cl_txn c i) = Some snap \<longrightarrow> cl_holder c = Some i \<and> snap = cl_table c)"

lemma freeze_snapshot:
  "tx_snapshot (freeze rules stmt table t) = Some snap \<Longrightarrow>
   tx_snapshot t = Some snap \<or> tx_snapshot t = None \<and> sr_freezes rules stmt \<and> snap = table"
  by (auto simp: freeze_def split: if_splits)

lemma current_step:
  assumes free: "\<not> sr_freezes rules AdvisoryLock" and "cluster_step cd rules c c'" and ok: "cluster_ok cd c"
    and "current_snapshots c"
  shows "current_snapshots c'"
proof -
  note holder = cluster_okD(1) [OF ok]
  have snap: "cl_holder c = Some j \<and> s = cl_table c" if "tx_snapshot (cl_txn c j) = Some s" for j s
    using that \<open>current_snapshots c\<close> by (simp add: current_snapshots_def)
  have other: "tx_snapshot (cl_txn c j) = None" if "cl_holder c = Some i" "j \<noteq> i" for i j
    using snap [of j] that by (cases "tx_snapshot (cl_txn c j)") auto
  from assms(2) show ?thesis
  proof cases
    case (step_begin i e)
    then show ?thesis
      using snap by (auto simp: current_snapshots_def idle_def)
  next
    case (step_ask i)
    then show ?thesis
      using snap free by (auto simp: current_snapshots_def dest!: freeze_snapshot split: if_splits)
  next
    case (step_grant i)
    then show ?thesis
      using snap by (fastforce simp: current_snapshots_def split: if_splits)
  next
    case (step_head i t prev)
    then show ?thesis
      using snap holder [of i] by (auto simp: current_snapshots_def dest!: freeze_snapshot split: if_splits)
  next
    case (step_insert i prev t n table)
    then show ?thesis
      using snap holder [of i] by (auto simp: current_snapshots_def dest!: freeze_snapshot split: if_splits)
  next
    case (step_commit i n rows)
    then show ?thesis
      using other holder [of i] by (auto simp: current_snapshots_def idle_def split: if_splits)
  next
    case (step_commit_lost i n rows err)
    then show ?thesis
      using other holder [of i] by (auto simp: current_snapshots_def idle_def split: if_splits)
  next
    case (step_fail i err)
    then show ?thesis
      using snap by (auto simp: current_snapshots_def idle_def release_def split: if_splits) (metis not_Some_eq)
  qed
qed

lemma current_run:
  assumes "(cluster_step cd rules)\<^sup>*\<^sup>* (start_cluster e0) c" and "\<not> sr_freezes rules AdvisoryLock"
  shows "current_snapshots c"
  using assms(1)
proof (induction rule: rtranclp_induct)
  case base
  show ?case
    by (simp add: current_snapshots_def start_cluster_def idle_def)
next
  case (step c c')
  then show ?case
    using current_step [OF assms(2)] cluster_run_ok by blast
qed


section \<open>Two replicas at once\<close>

text \<open>The server does not refuse a transaction that saw the table as it is.\<close>

definition admits_current :: "server_rules \<Rightarrow> bool" where
  "admits_current rules \<longleftrightarrow> (\<forall>c i. seen (cl_table c) (cl_txn c i) = cl_table c \<longrightarrow> sr_admits rules c i)"

text \<open>
  Both ask for the lock; the first inserts and commits, then the second is granted it and inserts its row.
\<close>

lemma contended_run:
  fixes c0 :: cluster
  assumes idle: "tx_phase (cl_txn c0 0) = Idle" "tx_phase (cl_txn c0 1) = Idle" "cl_holder c0 = None"
    and exact: "exact_event cd a" "exact_event cd b"
    and fresh: "ev_id a \<notin> ev_id ` set (cl_table c0)" "ev_id b \<notin> ev_id ` set (cl_table c0)"
    and free: "sr_freezes rules AdvisoryLock" and live: "admits_current rules"
  defines "link \<equiv> \<lambda>e. link_event (chain_hash_fn e) (tip_of (cl_table c0)) e"
  shows "\<exists>c. (cluster_step cd rules)\<^sup>*\<^sup>* c0 c \<and> cl_holder c = Some 1 \<and> cl_table c = cl_table c0 @ [link a] \<and>
    tx_phase (cl_txn c 1) = Inserted 1 [link b] \<and> tx_event (cl_txn c 1) = b \<and>
    cl_answers c = cl_answers c0 @ [(a, Inr True)]"
proof -
  let ?T = "cl_table c0" and ?tip = "tip_of (cl_table c0)"
  let ?t = "\<lambda>e p. \<lparr>tx_phase = p, tx_event = e, tx_snapshot = Some ?T\<rparr>"
  let ?c1 = "set_txn 0 ((Replicas.idle a)\<lparr>tx_phase := Begun\<rparr>) c0"
  let ?c2 = "set_txn 1 ((Replicas.idle b)\<lparr>tx_phase := Begun\<rparr>) ?c1"
  let ?c3 = "set_txn 0 (?t a Waiting) ?c2"
  let ?c4 = "set_txn 1 (?t b Waiting) ?c3"
  let ?c5 = "set_txn 0 (?t a Locked) ?c4\<lparr>cl_holder := Some 0\<rparr>"
  let ?c6 = "set_txn 0 (?t a (HeadRead ?tip)) ?c5"
  let ?c7 = "set_txn 0 (?t a (Inserted 1 [link a])) ?c6"
  let ?c8 = "end_txn 0 (Inr True) (commit_txn 0 1 [link a] ?c7)"
  let ?c9 = "set_txn 1 (?t b Locked) ?c8\<lparr>cl_holder := Some 1\<rparr>"
  let ?c10 = "set_txn 1 (?t b (HeadRead ?tip)) ?c9"
  let ?c11 = "set_txn 1 (?t b (Inserted 1 [link b])) ?c10"
  note start = Replicas.idle_def
  have rows: "insert_event_row cd no_faults ?T (link a) = Inr (1, ?T @ [link a])"
    "insert_event_row cd no_faults ?T (link b) = Inr (1, ?T @ [link b])"
    using exact fresh by (simp_all add: insert_event_row_def encode_exact link_def)
  have "cluster_step cd rules c0 ?c1"
    by (rule step_begin) (rule idle)
  moreover have "cluster_step cd rules ?c1 ?c2"
    using idle(2) by (intro step_begin) simp
  moreover have "cluster_step cd rules ?c2 ?c3"
    using step_ask [of ?c2 0 cd rules] free by (simp add: start freeze_def)
  moreover have "cluster_step cd rules ?c3 ?c4"
    using step_ask [of ?c3 1 cd rules] free by (simp add: start freeze_def)
  moreover have "cluster_step cd rules ?c4 ?c5"
    using step_grant [of ?c4 0 cd rules] by (simp add: idle)
  moreover have "cluster_step cd rules ?c5 ?c6"
    using step_head [of ?c5 0 _ rules ?tip cd] by (simp add: freeze_def seen_def head_hash_tip_of)
  moreover have "cluster_step cd rules ?c6 ?c7"
    using step_insert [of ?c6 0 ?tip _ rules cd 1 "?T @ [link a]"] rows(1) by (simp add: freeze_def seen_def link_def)
  moreover have "cluster_step cd rules ?c7 ?c8"
    using step_commit [of ?c7 0 1 "[link a]" rules cd] live by (simp add: admits_current_def seen_def)
  moreover have "cluster_step cd rules ?c8 ?c9"
    using step_grant [of ?c8 1 cd rules] by (simp add: release_def)
  moreover have "cluster_step cd rules ?c9 ?c10"
    using step_head [of ?c9 1 _ rules ?tip cd] by (simp add: freeze_def seen_def head_hash_tip_of)
  moreover have "cluster_step cd rules ?c10 ?c11"
    using step_insert [of ?c10 1 ?tip _ rules cd 1 "?T @ [link b]"] rows(2) by (simp add: freeze_def seen_def link_def)
  ultimately have "(cluster_step cd rules)\<^sup>*\<^sup>* c0 ?c11"
    by (meson converse_rtranclp_into_rtranclp rtranclp.rtrancl_refl)
  then show ?thesis
    by (intro exI [of _ ?c11]) simp
qed


section \<open>Properties\<close>

text \<open>
  Property C16. Concurrent replicas keep the chain: however the statements, failures, lock waits and lost
  commits of their \<open>InsertChained\<close> transactions interleave, every insert that was acknowledged is in the table,
  the ids are distinct, each row is what the column types make of a committed event linked to the newest row
  of some earlier state of the table, and it is linked to the newest of all rows committed before it, unless
  it is late (its \<open>(ts, id)\<close> is smaller than that of a row committed before it) or two hashes clash. The
  server is trusted to grant the lock to one transaction at a time and to be serializable: what the committed
  transactions answered and left is what they would have in some order, not necessarily that of the commits.
\<close>

theorem concurrent_inserts_keep_the_chain:
  assumes "serializable cd rules" and "(cluster_step cd rules)\<^sup>*\<^sup>* (start_cluster e0) c"
  defines "rows \<equiv> cl_table c"
  shows "distinct (map ev_id rows) \<and>
    (\<forall>e b. (e, Inr b) \<in> set (cl_answers c) \<longrightarrow> (\<exists>r \<in> set rows. cd_uuid cd (ev_id e) = Inr (ev_id r))) \<and>
    (\<forall>k < length rows.
       (\<exists>e. (e, True) \<in> set (cl_committed c) \<and>
          encode_row cd (link_event (chain_hash_fn e) (ev_prev_hash (rows ! k)) e) = Inr (rows ! k)) \<and>
       (\<exists>m \<le> k. ev_prev_hash (rows ! k) = tip_of (take m rows)) \<and>
       (ev_prev_hash (rows ! k) = tip_of (take k rows) \<or> late rows k \<or> hash_clash rows))"
proof -
  have ok: "cluster_ok cd c"
    by (rule cluster_run_ok [OF assms(2)])
  have serial: "serial cd (cl_committed c) rows"
    using assms(1,2) unfolding serializable_def rows_def by blast
  note facts = serial_cluster [OF ok serial [unfolded rows_def], folded rows_def]
  have "row_committed cd (cl_committed c) (rows ! k) \<and> (\<exists>m \<le> k. ev_prev_hash (rows ! k) = tip_of (take m rows)) \<and>
      (ev_prev_hash (rows ! k) = tip_of (take k rows) \<or> late rows k \<or> hash_clash rows)" if "k < length rows" for k
    using that facts(2) cluster_okD(3) [OF ok] cluster_okD(4) [OF ok, of "rows ! k"]
    by (auto simp: linked_back_def linked_unless_late_def rows_def)
  with facts(1,3) show ?thesis
    unfolding row_committed_def by blast
qed

theorem concurrent_inserts_keep_the_chain_witness:
  "\<exists>c. (cluster_step sample_codec strict_rules)\<^sup>*\<^sup>* (start_cluster (sample_event ''a'' 2000)) c \<and>
     cl_answers c = [(sample_event ''a'' 2000, Inr True)] \<and> length (cl_table c) = 1 \<and>
     ev_prev_hash (cl_table c ! 0) = zero_hash \<and> (\<exists>r \<in> set (cl_table c). ev_id r = ''a'')"
proof -
  let ?a = "sample_event ''a'' 2000" and ?b = "sample_event ''b'' 3000"
  have exact: "exact_event sample_codec ?a" "exact_event sample_codec ?b"
    by (simp_all add: exact_event_def exact_defs sample_codec_def sample_event_def micros_def)
  have rules: "sr_freezes strict_rules AdvisoryLock" "admits_current strict_rules"
    by (simp_all add: strict_rules_def admits_current_def)
  obtain c where c: "(cluster_step sample_codec strict_rules)\<^sup>*\<^sup>* (start_cluster ?a) c"
    "cl_answers c = [(?a, Inr True)]" "length (cl_table c) = 1"
    using contended_run [of "start_cluster ?a", OF _ _ _ exact _ _ rules] by (auto simp: start_cluster_def idle_def)
  have codec: "cd_uuid sample_codec (ev_id ?a) = Inr ''a''"
    by (simp add: sample_codec_def sample_event_def)
  from concurrent_inserts_keep_the_chain [OF strict_serializable c(1)] c(2,3)
  have "\<exists>r \<in> set (cl_table c). cd_uuid sample_codec (ev_id ?a) = Inr (ev_id r)"
    "\<exists>m \<le> 0. ev_prev_hash (cl_table c ! 0) = tip_of (take m (cl_table c))"
    by auto
  then have "\<exists>r \<in> set (cl_table c). ev_id r = ''a''" "ev_prev_hash (cl_table c ! 0) = zero_hash"
    using codec by auto
  with c show ?thesis
    by blast
qed

text \<open>
  Property C35. The advisory lock does not give the waiting replica a current view. If taking the lock does
  not fix the snapshot, the holder always sees the table as it is. But the code takes it with a \<open>SELECT\<close>
  inside a SERIALIZABLE transaction, and a server that fixes the snapshot there lets a second replica wait,
  be granted the lock after the first has committed, and still insert a row linked to the same predecessor as
  the row just committed. A serializable server admits that commit only if one of the two rows is older by
  \<open>(ts, id)\<close> than a row before it, or two hashes clash; so between events that arrive in order the contended
  message fails instead of being serialised. The run starts in any reachable state in which the two replicas
  are idle and the lock is free, with two events of new ids whose values the column types keep; the server
  admits a transaction that saw the table as it is.
\<close>

theorem lock_is_taken_after_the_snapshot:
  fixes c0 :: cluster
  assumes "serializable cd rules" and "admits_current rules"
    and "(cluster_step cd rules)\<^sup>*\<^sup>* (start_cluster e0) c0"
    and "tx_phase (cl_txn c0 0) = Idle" and "tx_phase (cl_txn c0 1) = Idle" and "cl_holder c0 = None"
    and "exact_event cd a" and "exact_event cd b"
    and "ev_id a \<notin> ev_id ` set (cl_table c0)" and "ev_id b \<notin> ev_id ` set (cl_table c0)"
  shows "if sr_freezes rules AdvisoryLock
    then \<exists>c A B. (cluster_step cd rules)\<^sup>*\<^sup>* c0 c \<and> cl_holder c = Some 1 \<and> cl_table c = cl_table c0 @ [A] \<and>
      tx_phase (cl_txn c 1) = Inserted 1 [B] \<and> ev_id A = ev_id a \<and> ev_id B = ev_id b \<and>
      ev_prev_hash B = ev_prev_hash A \<and>
      (sr_admits rules c 1 \<longrightarrow> hash_clash (cl_table c @ [B]) \<or>
         (\<exists>r \<in> set (cl_table c0). ev_key a < ev_key r) \<or> (\<exists>r \<in> set (cl_table c). ev_key b < ev_key r))
    else \<forall>c i. (cluster_step cd rules)\<^sup>*\<^sup>* (start_cluster e0) c \<longrightarrow> cl_holder c = Some i \<longrightarrow>
      seen (cl_table c) (cl_txn c i) = cl_table c"
proof (cases "sr_freezes rules AdvisoryLock")
  case True
  let ?link = "\<lambda>e. link_event (chain_hash_fn e) (tip_of (cl_table c0)) e"
  obtain c where c: "(cluster_step cd rules)\<^sup>*\<^sup>* c0 c" "cl_holder c = Some 1" "cl_table c = cl_table c0 @ [?link a]"
    "tx_phase (cl_txn c 1) = Inserted 1 [?link b]"
    using contended_run [OF assms(4-10) True assms(2)] by blast
  have forks: "hash_clash (cl_table c @ [?link b]) \<or> (\<exists>r \<in> set (cl_table c0). ev_key a < ev_key r) \<or>
      (\<exists>r \<in> set (cl_table c). ev_key b < ev_key r)" if "sr_admits rules c 1"
  proof -
    let ?c = "end_txn 1 (Inr True) (commit_txn 1 1 [?link b] c)" and ?n = "length (cl_table c0)"
    have "cluster_step cd rules c ?c"
      using step_commit [OF c(4) that] by simp
    with assms(3) c(1) have run: "(cluster_step cd rules)\<^sup>*\<^sup>* (start_cluster e0) ?c"
      by (meson rtranclp.rtrancl_into_rtrancl rtranclp_trans)
    then have "serial cd (cl_committed ?c) (cl_table ?c)"
      using assms(1) unfolding serializable_def by blast
    note facts = serial_cluster [OF cluster_run_ok [OF run] this]
    have "late (cl_table ?c) ?n \<or> late (cl_table ?c) (Suc ?n)" if "\<not> hash_clash (cl_table ?c)"
      using facts(2) that by (intro fork_is_late [OF facts(1) _ that]) (simp_all add: c(3) nth_append)
    then show ?thesis
      by (auto simp: c(3) late_iff nth_append)
  qed
  show ?thesis
    using True c forks by (auto intro!: exI [of _ c])
next
  case False
  have "seen (cl_table c) (cl_txn c i) = cl_table c" if "(cluster_step cd rules)\<^sup>*\<^sup>* (start_cluster e0) c" for c i
    using current_run [OF that False] by (auto simp: current_snapshots_def seen_def split: option.split)
  with False show ?thesis by simp
qed

theorem lock_is_taken_after_the_snapshot_witness:
  "\<exists>c A B. (cluster_step sample_codec strict_rules)\<^sup>*\<^sup>* (start_cluster (sample_event ''a'' 2000)) c \<and>
     cl_table c = [A] \<and> tx_phase (cl_txn c 1) = Inserted 1 [B] \<and> ev_id A = ''a'' \<and> ev_id B = ''b'' \<and>
     ev_prev_hash B = ev_prev_hash A"
proof -
  let ?a = "sample_event ''a'' 2000" and ?b = "sample_event ''b'' 3000"
  have exact: "exact_event sample_codec ?a" "exact_event sample_codec ?b"
    by (simp_all add: exact_event_def exact_defs sample_codec_def sample_event_def micros_def)
  have rules: "sr_freezes strict_rules AdvisoryLock" "admits_current strict_rules"
    by (simp_all add: strict_rules_def admits_current_def)
  have start: "tx_phase (cl_txn (start_cluster ?a) i) = Idle" "cl_holder (start_cluster ?a) = None"
    "cl_table (start_cluster ?a) = []" for i
    by (simp_all add: start_cluster_def idle_def)
  show ?thesis
    using lock_is_taken_after_the_snapshot [OF strict_serializable rules(2) rtranclp.rtrancl_refl start(1,1,2) exact] rules(1)
    by (simp add: start(3)) (metis (no_types, lifting) event.select_convs(1) sample_event_def)
qed

end
