(* ===== verification/Adapters.thy ===== *)
theory Adapters
  imports Consumer
begin

text \<open>
  The code around external services: \<open>internal/kms\<close> (the in-memory RSA signer), \<open>kmsadapter\<close>, \<open>s3adapter\<close>
  and \<open>kafkaadapter\<close>. The RSA and X.509 functions, the AWS clients and the kafka-go reader are parameters:
  an SDK call is a function from the request the adapter builds to the reply it interprets.
\<close>

section \<open>The in-memory signer\<close>

record 'k rsa_lib =
  rl_generate :: "'k result"
  rl_sign :: "'k \<Rightarrow> bytes \<Rightarrow> bytes result"
  rl_verify :: "'k \<Rightarrow> bytes \<Rightarrow> bytes \<Rightarrow> bool"
  rl_pem_decode :: "bytes \<Rightarrow> bytes option"
  rl_parse_pkcs1 :: "bytes \<Rightarrow> 'k result"
  rl_parse_pkcs8 :: "bytes \<Rightarrow> 'k option result"
  rl_marshal_public :: "'k \<Rightarrow> bytes result"
  rl_pem_encode :: "bytes \<Rightarrow> bytes"

record 'k kms_fake =
  kf_key :: "'k option"
  kf_id :: string

definition new_kms_fake :: "string \<Rightarrow> 'k kms_fake" where
  "new_kms_fake key_id = \<lparr>kf_key = None, kf_id = key_id\<rparr>"

definition ensure_key :: "'k rsa_lib \<Rightarrow> 'k kms_fake \<Rightarrow> go_error option \<times> 'k kms_fake" where
  "ensure_key lib f =
     (case kf_key f of
        Some k \<Rightarrow> (None, f)
      | None \<Rightarrow>
          (case rl_generate lib of
             Inl err \<Rightarrow> (Some (ErrWrap ''kms: generate key'' err), f)
           | Inr k \<Rightarrow> (None, f\<lparr>kf_key := Some k\<rparr>)))"

text \<open>After a successful \<open>ensure_key\<close> the key is there; a nil key would panic.\<close>

definition fake_sign :: "'k rsa_lib \<Rightarrow> 'k kms_fake \<Rightarrow> bytes \<Rightarrow> (bytes \<times> string) result \<times> 'k kms_fake" where
  "fake_sign lib f digest =
     (case ensure_key lib f of
        (Some err, f') \<Rightarrow> (Inl err, f')
      | (None, f') \<Rightarrow>
          (case rl_sign lib (the (kf_key f')) digest of
             Inl err \<Rightarrow> (Inl (ErrWrap ''kms: sign'' err), f')
           | Inr sig \<Rightarrow> (Inr (sig, kf_id f'), f')))"

definition fake_verify :: "'k rsa_lib \<Rightarrow> 'k kms_fake \<Rightarrow> bytes \<Rightarrow> bytes \<Rightarrow> bool result \<times> 'k kms_fake" where
  "fake_verify lib f digest sig =
     (case ensure_key lib f of
        (Some err, f') \<Rightarrow> (Inl err, f')
      | (None, f') \<Rightarrow> (Inr (rl_verify lib (the (kf_key f')) digest sig), f'))"

definition load_private_key :: "'k rsa_lib \<Rightarrow> 'k kms_fake \<Rightarrow> bytes \<Rightarrow> go_error option \<times> 'k kms_fake" where
  "load_private_key lib f pem_key =
     (case rl_pem_decode lib pem_key of
        None \<Rightarrow> (Some (ErrMsg ''kms: no PEM block''), f)
      | Some block \<Rightarrow>
          (case rl_parse_pkcs1 lib block of
             Inr k \<Rightarrow> (None, f\<lparr>kf_key := Some k\<rparr>)
           | Inl err \<Rightarrow>
               (case rl_parse_pkcs8 lib block of
                  Inr (Some k) \<Rightarrow> (None, f\<lparr>kf_key := Some k\<rparr>)
                | Inr None \<Rightarrow> (Some (ErrMsg ''kms: PKCS8 key is not RSA''), f)
                | Inl err2 \<Rightarrow> (Some (ErrWrap ''kms: parse key'' err), f))))"

definition public_key_pem :: "'k rsa_lib \<Rightarrow> 'k kms_fake \<Rightarrow> bytes result \<times> 'k kms_fake" where
  "public_key_pem lib f =
     (case ensure_key lib f of
        (Some err, f') \<Rightarrow> (Inl err, f')
      | (None, f') \<Rightarrow>
          (case rl_marshal_public lib (the (kf_key f')) of
             Inl err \<Rightarrow> (Inl err, f')
           | Inr der \<Rightarrow> (Inr (rl_pem_encode lib der), f')))"

definition digest_sha256 :: "bytes \<Rightarrow> bytes" where
  "digest_sha256 d = sha256 d"

text \<open>A key, once there, is kept by every operation but an explicit load.\<close>

lemma ensure_key_keeps:
  "ensure_key lib f = (r, f') \<Longrightarrow> kf_id f' = kf_id f \<and> (r = None \<longrightarrow> kf_key f' \<noteq> None) \<and>
     (kf_key f \<noteq> None \<longrightarrow> f' = f \<and> r = None)"
  by (auto simp: ensure_key_def split: option.splits sum.splits)

lemma fake_sign_Inr:
  assumes "fake_sign lib f digest = (Inr (sig, key_id), f')"
  shows "\<exists>k. kf_key f' = Some k \<and> rl_sign lib k digest = Inr sig \<and> key_id = kf_id f"
proof -
  obtain r f1 where ens: "ensure_key lib f = (r, f1)"
    by (cases "ensure_key lib f")
  with assms ensure_key_keeps [OF ens] show ?thesis
    by (auto simp: fake_sign_def split: option.splits sum.splits)
qed

text \<open>A signature verifies, now and after any number of further signatures and checks.\<close>

lemma fake_verify_signed:
  assumes "fake_sign lib f digest = (Inr (sig, key_id), f')"
    and "\<And>k d s. rl_sign lib k d = Inr s \<Longrightarrow> rl_verify lib k d s"
  shows "fake_verify lib f' digest sig = (Inr True, f')"
proof -
  obtain k where "kf_key f' = Some k" "rl_sign lib k digest = Inr sig"
    using fake_sign_Inr [OF assms(1)] by blast
  with assms(2) show ?thesis
    by (simp add: fake_verify_def ensure_key_def)
qed

lemma fake_sign_again:
  assumes "fake_sign lib f digest = (Inr r, f')"
  shows "snd (fake_sign lib f' d) = f' \<and> snd (fake_verify lib f' d s) = f'"
  using assms fake_sign_Inr [of lib f digest "fst r" "snd r" f']
  by (auto simp: fake_sign_def fake_verify_def ensure_key_def split: sum.splits)

section \<open>\<open>kmsadapter\<close>\<close>

text \<open>
  The KMS service of one region: \<open>Sign\<close> replies with a signature or none, \<open>Verify\<close> with the key it used
  and the verdict. Message type and algorithm are constants of every request.
\<close>

record kms_service =
  ks_sign :: "string \<Rightarrow> bytes \<Rightarrow> bytes option result"
  ks_verify :: "string \<Rightarrow> bytes \<Rightarrow> bytes \<Rightarrow> (string option \<times> bool) result"

definition kms_sign :: "kms_service \<Rightarrow> string \<Rightarrow> bytes \<Rightarrow> (bytes \<times> string) result" where
  "kms_sign svc key_id digest =
     (if length digest \<noteq> 32 then
        Inl (ErrMsg (''kmsadapter: digest must be 32 bytes, got '' @ int_text (int (length digest))))
      else case ks_sign svc key_id digest of
             Inl err \<Rightarrow> Inl (ErrWrap ''kmsadapter: sign'' err)
           | Inr None \<Rightarrow> Inl (ErrMsg ''kmsadapter: empty signature'')
           | Inr (Some sig) \<Rightarrow> Inr (sig, key_id))"

definition kms_verify :: "kms_service \<Rightarrow> string \<Rightarrow> bytes \<Rightarrow> bytes \<Rightarrow> bool result" where
  "kms_verify svc key_id digest sig =
     (case ks_verify svc key_id digest sig of
        Inl err \<Rightarrow> Inl (ErrWrap ''kmsadapter: verify'' err)
      | Inr (used, valid) \<Rightarrow> Inr (used = Some key_id \<and> valid))"

lemma kms_sign_Inr: "kms_sign svc k d = Inr (sig, k') \<Longrightarrow> k' = k \<and> length d = 32 \<and> ks_sign svc k d = Inr (Some sig)"
  by (auto simp: kms_sign_def split: if_splits sum.splits option.splits)

section \<open>\<open>s3adapter\<close>\<close>

record put_input =
  pi_bucket :: string
  pi_key :: string
  pi_body :: bytes
  pi_storage_class :: string
  pi_content_type :: "string option"
  pi_retain_until :: "time option"
  pi_compliance :: bool
  pi_legal_hold :: bool

datatype aws_error = NoSuchKey | OtherError go_error

record 's s3_service =
  ss_put :: "'s \<Rightarrow> put_input \<Rightarrow> go_error option \<times> 's"
  ss_get :: "'s \<Rightarrow> string \<Rightarrow> string \<Rightarrow> aws_error + bytes result"
  ss_presign :: "'s \<Rightarrow> string \<Rightarrow> string \<Rightarrow> int \<Rightarrow> string result"
  ss_head :: "'s \<Rightarrow> string \<Rightarrow> string \<Rightarrow> aws_error + string \<times> int option"
  ss_delete :: "'s \<Rightarrow> string \<Rightarrow> string \<Rightarrow> go_error option \<times> 's"

definition put_request :: "time \<Rightarrow> string \<Rightarrow> put_options \<Rightarrow> bytes \<Rightarrow> put_input" where
  "put_request now bucket opts buf =
     \<lparr>pi_bucket = bucket, pi_key = po_key opts, pi_body = buf,
      pi_storage_class = (if po_storage_class opts = '''' then ''STANDARD'' else po_storage_class opts),
      pi_content_type = (if po_content_type opts \<noteq> '''' then Some (po_content_type opts) else None),
      pi_retain_until = (if po_retention_days opts > 0
                         then Some (add_duration now (days_duration (po_retention_days opts))) else None),
      pi_compliance = (po_retention_days opts > 0), pi_legal_hold = po_legal_hold opts\<rparr>"

definition s3_error :: "string \<Rightarrow> string \<Rightarrow> string \<Rightarrow> go_error \<Rightarrow> go_error" where
  "s3_error op bucket key err = ErrWrap (''s3adapter: '' @ op @ '' '' @ bucket @ ''/'' @ key) err"

definition s3_client_put ::
  "'s s3_service \<Rightarrow> time \<Rightarrow> 's \<Rightarrow> string \<Rightarrow> put_options \<Rightarrow> bytes result \<Rightarrow> string result \<times> 's" where
  "s3_client_put svc now s bucket opts body =
     (case body of
        Inl err \<Rightarrow> (Inl err, s)
      | Inr buf \<Rightarrow>
          (case ss_put svc s (put_request now bucket opts buf) of
             (Some err, s') \<Rightarrow> (Inl (s3_error ''put'' bucket (po_key opts) err), s')
           | (None, s') \<Rightarrow> (Inr (po_key opts), s')))"

definition s3_client_get :: "'s s3_service \<Rightarrow> 's \<Rightarrow> string \<Rightarrow> string \<Rightarrow> bytes result" where
  "s3_client_get svc s bucket key =
     (case ss_get svc s bucket key of
        Inl NoSuchKey \<Rightarrow> Inl (ErrObjectNotFound key)
      | Inl (OtherError err) \<Rightarrow> Inl (s3_error ''get'' bucket key err)
      | Inr body \<Rightarrow> body)"

definition s3_client_presign :: "'s s3_service \<Rightarrow> 's \<Rightarrow> string \<Rightarrow> string \<Rightarrow> int \<Rightarrow> string result" where
  "s3_client_presign svc s bucket key ttl =
     (case ss_presign svc s bucket key ttl of
        Inl err \<Rightarrow> Inl (ErrWrap ''s3adapter: presign'' err)
      | Inr url \<Rightarrow> Inr url)"

text \<open>The metadata the adapter fills in: class and size; a missing length leaves the size 0.\<close>

definition s3_client_head :: "'s s3_service \<Rightarrow> 's \<Rightarrow> string \<Rightarrow> string \<Rightarrow> object_info result" where
  "s3_client_head svc s bucket key =
     (case ss_head svc s bucket key of
        Inl NoSuchKey \<Rightarrow> Inl (ErrObjectNotFound key)
      | Inl (OtherError err) \<Rightarrow> Inl (s3_error ''head'' bucket key err)
      | Inr (class', len) \<Rightarrow>
          Inr \<lparr>oi_key = key, oi_bucket = bucket, oi_size = (case len of None \<Rightarrow> 0 | Some n \<Rightarrow> n),
               oi_storage_class = class', oi_retention_days = 0, oi_legal_hold = False, oi_created_at = zero_time\<rparr>)"

definition s3_client_delete :: "'s s3_service \<Rightarrow> 's \<Rightarrow> string \<Rightarrow> string \<Rightarrow> go_error option \<times> 's" where
  "s3_client_delete svc s bucket key =
     (case ss_delete svc s bucket key of
        (Some err, s') \<Rightarrow> (Some (s3_error ''delete'' bucket key err), s')
      | (None, s') \<Rightarrow> (None, s'))"

text \<open>The adapter asks S3 for the lock that the in-memory client keeps.\<close>

lemma put_request_retention:
  "is_retained t (stored_object now bucket opts b) \<longleftrightarrow>
     pi_legal_hold (put_request now bucket opts b) \<or>
     (\<exists>u. pi_retain_until (put_request now bucket opts b) = Some u \<and> t < u)"
  by (simp add: is_retained_def put_request_def)

section \<open>\<open>kafkaadapter\<close>\<close>

record reader_config =
  rc_brokers :: "string list"
  rc_topic :: string
  rc_group :: string

definition kafka_new :: "string list \<Rightarrow> string \<Rightarrow> string \<Rightarrow> reader_config result" where
  "kafka_new brokers topic group_id =
     (if length brokers = 0 then Inl (ErrMsg ''kafka: invalid: brokers empty'')
      else if topic = '''' then Inl (ErrMsg ''kafka: invalid: topic empty'')
      else Inr \<lparr>rc_brokers = brokers, rc_topic = topic,
                rc_group = (if group_id = '''' then ''audit-event-log'' else group_id)\<rparr>)"

text \<open>
  What \<open>ReadMessage\<close> gives: a message, the cancellation of the context, or another error. The loop polls
  the context before each read; it may run forever, so not returning is \<open>None\<close>.
\<close>

datatype read_outcome = ReadMessage message | ReadCanceled | ReadFailed go_error

partial_function (option) adapter_run ::
  "('b \<Rightarrow> read_outcome \<times> 'b) \<Rightarrow> (message \<Rightarrow> 'b \<Rightarrow> go_error option \<times> 'b) \<Rightarrow> 's handler \<Rightarrow> (nat \<Rightarrow> bool) \<Rightarrow>
   nat \<Rightarrow> 'b \<Rightarrow> 's \<Rightarrow> (go_error option \<times> 'b \<times> 's) option" where
  "adapter_run read commit handler cancelled k b w =
     (if cancelled k then Some (Some ErrContext, b, w)
      else case read b of
             (ReadCanceled, b') \<Rightarrow> Some (None, b', w)
           | (ReadFailed err, b') \<Rightarrow> Some (Some (ErrWrap ''kafkaadapter: read'' err), b', w)
           | (ReadMessage m, b') \<Rightarrow>
               (case handler m w of
                  (Some err, w') \<Rightarrow> adapter_run read commit handler cancelled (Suc k) b' w'
                | (None, w') \<Rightarrow> adapter_run read commit handler cancelled (Suc k) (snd (commit m b')) w'))"

record 'b kafka_consumer =
  kc_reader :: 'b
  kc_stopped :: bool

definition adapter_stop :: "('b \<Rightarrow> go_error option \<times> 'b) \<Rightarrow> 'b kafka_consumer \<Rightarrow> go_error option \<times> 'b kafka_consumer" where
  "adapter_stop close c =
     (if kc_stopped c then (None, c)
      else (let r = close (kc_reader c) in (fst r, c\<lparr>kc_stopped := True, kc_reader := snd r\<rparr>)))"

lemma adapter_stop_twice: "adapter_stop close (snd (adapter_stop close c)) = (None, snd (adapter_stop close c))"
  by (simp add: adapter_stop_def Let_def)

text \<open>
  A broker that delivers a list of messages until the context is cancelled, recording what was
  committed: over it the adapter does to the service what the in-memory consumer does when it drains
  the same feed.
\<close>

definition list_read :: "message list \<times> int list \<Rightarrow> read_outcome \<times> (message list \<times> int list)" where
  "list_read b = (case fst b of [] \<Rightarrow> (ReadCanceled, b) | m # ms \<Rightarrow> (ReadMessage m, (ms, snd b)))"

definition list_commit :: "message \<Rightarrow> message list \<times> int list \<Rightarrow> go_error option \<times> (message list \<times> int list)" where
  "list_commit m b = (None, (fst b, snd b @ [im_offset m]))"

lemma list_broker_simps [simp]:
  "list_read ([], c) = (ReadCanceled, ([], c))" "list_read (m # ms, c) = (ReadMessage m, (ms, c))"
  "list_commit m (ms, c) = (None, (ms, c @ [im_offset m]))"
  by (simp_all add: list_read_def list_commit_def)

lemma adapter_run_drains:
  "adapter_run list_read list_commit handler (\<lambda>k. False) k (msgs, fk_committed f) (fk_world f) =
    Some (None, ([], fk_committed (drain handler msgs f)), fk_world (drain handler msgs f))"
proof (induction msgs arbitrary: k f)
  case Nil
  then show ?case
    by (simp add: adapter_run.simps)
next
  case (Cons m ms)
  show ?case
    using Cons [of "Suc k" "handle_next handler m ms f"]
    by (subst adapter_run.simps) (cases "handler m (fk_world f)", auto simp: handle_next_def Let_def split: option.splits)
qed

end
