(* ===== verification/Migrations.thy ===== *)
theory Migrations
  imports Gostd
begin

text \<open>
  \<open>internal/store/migrations\<close> and \<open>cmd/migrate\<close>: reading the embedded scripts, applying the pending ones
  in version order, reverting them in reverse. The database is the table \<open>schema_migrations\<close> and the
  sequence of scripts run against it; whether a statement fails is the parameter \<open>faults\<close>. A script is
  its text; as in the embedded ones, it does not touch \<open>schema_migrations\<close>.
\<close>

section \<open>Reading the scripts\<close>

record migration =
  mg_version :: string
  mg_up :: string
  mg_down :: string

text \<open>A directory entry: its name, whether it is a directory, and what reading it gives.\<close>

record dir_entry =
  de_name :: string
  de_is_dir :: bool
  de_content :: "string result"

definition set_script ::
  "string \<Rightarrow> (migration \<Rightarrow> migration) \<Rightarrow> (string \<rightharpoonup> migration) \<Rightarrow> (string \<rightharpoonup> migration)" where
  "set_script v change by_version =
     (let m = (case by_version v of None \<Rightarrow> \<lparr>mg_version = v, mg_up = '''', mg_down = ''''\<rparr> | Some m \<Rightarrow> m)
      in by_version(v \<mapsto> change m))"

fun scan_entries :: "dir_entry list \<Rightarrow> (string \<rightharpoonup> migration) \<Rightarrow> (string \<rightharpoonup> migration) result" where
  "scan_entries [] by_version = Inr by_version"
| "scan_entries (e # es) by_version =
     (let name = de_name e in
      if de_is_dir e then scan_entries es by_version
      else if has_suffix name ''_up.sql'' then
        (case de_content e of
           Inl err \<Rightarrow> Inl err
         | Inr b \<Rightarrow> scan_entries es (set_script (trim_suffix name ''_up.sql'') (\<lambda>m. m\<lparr>mg_up := b\<rparr>) by_version))
      else if has_suffix name ''_down.sql'' then
        (case de_content e of
           Inl err \<Rightarrow> Inl err
         | Inr b \<Rightarrow> scan_entries es (set_script (trim_suffix name ''_down.sql'') (\<lambda>m. m\<lparr>mg_down := b\<rparr>) by_version))
      else scan_entries es by_version)"

fun collect_versions :: "(string \<rightharpoonup> migration) \<Rightarrow> string list \<Rightarrow> migration list \<Rightarrow> migration list result" where
  "collect_versions by_version [] out = Inr out"
| "collect_versions by_version (v # vs) out =
     (case by_version v of
        None \<Rightarrow> collect_versions by_version vs out
      | Some m \<Rightarrow>
          if mg_up m = '''' \<or> mg_down m = '''' then
            Inl (ErrMsg (''migrations: version '' @ v @ '' missing up or down''))
          else collect_versions by_version vs (out @ [m]))"

text \<open>\<open>All\<close>: the versions of the map, sorted. The keys are the versions of the entries.\<close>

definition entry_versions :: "dir_entry list \<Rightarrow> string list" where
  "entry_versions es = remdups (List.map_filter (\<lambda>e.
     if de_is_dir e then None
     else if has_suffix (de_name e) ''_up.sql'' then Some (trim_suffix (de_name e) ''_up.sql'')
     else if has_suffix (de_name e) ''_down.sql'' then Some (trim_suffix (de_name e) ''_down.sql'')
     else None) es)"

definition all_migrations :: "dir_entry list result \<Rightarrow> migration list result" where
  "all_migrations entries =
     (case entries of
        Inl err \<Rightarrow> Inl err
      | Inr es \<Rightarrow>
          (case scan_entries es Map.empty of
             Inl err \<Rightarrow> Inl err
           | Inr by_version \<Rightarrow> collect_versions by_version (sort (entry_versions es)) []))"

section \<open>The runner\<close>

datatype mig_statement =
    CreateTable | RunScript string | RecordVersion string | ForgetVersion string | QueryVersion string

text \<open>\<open>md_table\<close>: the rows of \<open>schema_migrations\<close>, or None if the table does not exist.\<close>

record mig_db =
  md_table :: "string list option"
  md_ran :: "string list"

type_synonym mig_faults = "mig_statement \<Rightarrow> go_error option"

definition fresh_db :: mig_db where
  "fresh_db = \<lparr>md_table = None, md_ran = []\<rparr>"

definition undefined_table :: go_error where
  "undefined_table = ErrMsg ''relation schema_migrations does not exist''"

fun apply_statement :: "mig_statement \<Rightarrow> mig_db \<Rightarrow> go_error option \<times> mig_db" where
  "apply_statement CreateTable db =
     (None, db\<lparr>md_table := Some (case md_table db of None \<Rightarrow> [] | Some vs \<Rightarrow> vs)\<rparr>)"
| "apply_statement (RunScript sql) db = (None, db\<lparr>md_ran := md_ran db @ [sql]\<rparr>)"
| "apply_statement (RecordVersion v) db =
     (case md_table db of
        None \<Rightarrow> (Some undefined_table, db)
      | Some vs \<Rightarrow> (None, db\<lparr>md_table := Some (if v \<in> set vs then vs else vs @ [v])\<rparr>))"
| "apply_statement (ForgetVersion v) db =
     (case md_table db of
        None \<Rightarrow> (Some undefined_table, db)
      | Some vs \<Rightarrow> (None, db\<lparr>md_table := Some (removeAll v vs)\<rparr>))"
| "apply_statement (QueryVersion v) db = (None, db)"

text \<open>\<open>exec\<close> and \<open>query\<close>; the runner may be built without the latter.\<close>

definition exec_statement :: "mig_faults \<Rightarrow> mig_statement \<Rightarrow> mig_db \<Rightarrow> go_error option \<times> mig_db" where
  "exec_statement faults stmt db = (case faults stmt of Some err \<Rightarrow> (Some err, db) | None \<Rightarrow> apply_statement stmt db)"

definition query_version :: "mig_faults \<Rightarrow> mig_db \<Rightarrow> string \<Rightarrow> bool result" where
  "query_version faults db v =
     (case faults (QueryVersion v) of
        Some err \<Rightarrow> Inl err
      | None \<Rightarrow> (case md_table db of None \<Rightarrow> Inl undefined_table | Some vs \<Rightarrow> Inr (v \<in> set vs)))"

type_synonym version_query = "(mig_db \<Rightarrow> string \<Rightarrow> bool result) option"

definition is_applied :: "version_query \<Rightarrow> mig_db \<Rightarrow> string \<Rightarrow> bool \<Rightarrow> bool result" where
  "is_applied query db v unknown = (case query of None \<Rightarrow> Inr unknown | Some q \<Rightarrow> q db v)"

fun up_all :: "mig_faults \<Rightarrow> version_query \<Rightarrow> migration list \<Rightarrow> mig_db \<Rightarrow> go_error option \<times> mig_db" where
  "up_all faults query [] db = (None, db)"
| "up_all faults query (m # ms) db =
     (case is_applied query db (mg_version m) False of
        Inl err \<Rightarrow> (Some err, db)
      | Inr True \<Rightarrow> up_all faults query ms db
      | Inr False \<Rightarrow>
          (case exec_statement faults (RunScript (mg_up m)) db of
             (Some err, db1) \<Rightarrow> (Some (ErrWrap (''migrations: apply '' @ mg_version m) err), db1)
           | (None, db1) \<Rightarrow>
               (case exec_statement faults (RecordVersion (mg_version m)) db1 of
                  (Some err, db2) \<Rightarrow> (Some (ErrWrap (''migrations: record '' @ mg_version m) err), db2)
                | (None, db2) \<Rightarrow> up_all faults query ms db2)))"

definition runner_up ::
  "mig_faults \<Rightarrow> version_query \<Rightarrow> migration list result \<Rightarrow> mig_db \<Rightarrow> go_error option \<times> mig_db" where
  "runner_up faults query migs db =
     (case exec_statement faults CreateTable db of
        (Some err, db1) \<Rightarrow> (Some (ErrWrap ''migrations: create schema_migrations'' err), db1)
      | (None, db1) \<Rightarrow>
          (case migs of
             Inl err \<Rightarrow> (Some err, db1)
           | Inr ms \<Rightarrow> up_all faults query ms db1))"

fun down_all :: "mig_faults \<Rightarrow> version_query \<Rightarrow> migration list \<Rightarrow> mig_db \<Rightarrow> go_error option \<times> mig_db" where
  "down_all faults query [] db = (None, db)"
| "down_all faults query (m # ms) db =
     (case is_applied query db (mg_version m) True of
        Inl err \<Rightarrow> (Some err, db)
      | Inr False \<Rightarrow> down_all faults query ms db
      | Inr True \<Rightarrow>
          (case exec_statement faults (RunScript (mg_down m)) db of
             (Some err, db1) \<Rightarrow> (Some (ErrWrap (''migrations: revert '' @ mg_version m) err), db1)
           | (None, db1) \<Rightarrow>
               (case exec_statement faults (ForgetVersion (mg_version m)) db1 of
                  (Some err, db2) \<Rightarrow> (Some err, db2)
                | (None, db2) \<Rightarrow> down_all faults query ms db2)))"

definition runner_down ::
  "mig_faults \<Rightarrow> version_query \<Rightarrow> migration list result \<Rightarrow> mig_db \<Rightarrow> go_error option \<times> mig_db" where
  "runner_down faults query migs db =
     (case migs of Inl err \<Rightarrow> (Some err, db) | Inr ms \<Rightarrow> down_all faults query (rev ms) db)"

section \<open>\<open>cmd/migrate\<close>\<close>

text \<open>The exit status: flags, environment, connection, then the runner; \<open>up\<close> wins over \<open>down\<close>.\<close>

definition migrate_main ::
  "bool \<Rightarrow> bool \<Rightarrow> string \<Rightarrow> go_error option \<Rightarrow> go_error option \<Rightarrow> mig_faults \<Rightarrow> migration list result \<Rightarrow> mig_db \<Rightarrow>
   int \<times> mig_db" where
  "migrate_main up down dsn open_error ping_error faults migs db =
     (if \<not> up \<and> \<not> down then (2, db)
      else if dsn = '''' then (1, db)
      else if open_error \<noteq> None then (1, db)
      else if ping_error \<noteq> None then (1, db)
      else (let query = Some (query_version faults);
                r = (if up then runner_up faults query migs db else runner_down faults query migs db)
            in (case fst r of Some err \<Rightarrow> 1 | None \<Rightarrow> 0, snd r)))"

section \<open>What the runner does\<close>

lemma query_some [simp]:
  "is_applied (Some q) db v d = q db v" "is_applied None db v d = Inr d"
  by (simp_all add: is_applied_def)

definition no_mig_faults :: mig_faults where
  "no_mig_faults stmt = None"

lemma exec_no_faults [simp]: "exec_statement no_mig_faults stmt db = apply_statement stmt db"
  by (simp add: exec_statement_def no_mig_faults_def)

lemma query_no_faults [simp]:
  "md_table db = Some vs \<Longrightarrow> query_version no_mig_faults db v = Inr (v \<in> set vs)"
  "md_table db = None \<Longrightarrow> query_version no_mig_faults db v = Inl undefined_table"
  by (simp_all add: query_version_def no_mig_faults_def)

abbreviation real_query :: version_query where
  "real_query \<equiv> Some (query_version no_mig_faults)"

lemma up_all_pending:
  assumes "md_table db = Some vs" and "distinct (map mg_version ms)"
  defines "pending \<equiv> [m \<leftarrow> ms. mg_version m \<notin> set vs]"
  shows "up_all no_mig_faults real_query ms db =
    (None, db\<lparr>md_table := Some (vs @ map mg_version pending), md_ran := md_ran db @ map mg_up pending\<rparr>)"
  using assms(1,2) unfolding pending_def
proof (induction ms arbitrary: db vs)
  case (Cons m ms)
  show ?case
  proof (cases "mg_version m \<in> set vs")
    case True
    with Cons show ?thesis by simp
  next
    case False
    let ?db = "db\<lparr>md_ran := md_ran db @ [mg_up m], md_table := Some (vs @ [mg_version m])\<rparr>"
    have "[x \<leftarrow> ms. mg_version x \<notin> set (vs @ [mg_version m])] = [x \<leftarrow> ms. mg_version x \<notin> set vs]"
      using Cons.prems(2) by (intro filter_cong) (auto simp: image_iff)
    with Cons.IH [of ?db "vs @ [mg_version m]"] False Cons.prems show ?thesis
      by simp
  qed
qed simp

lemma down_all_applied:
  assumes "md_table db = Some vs" and "distinct (map mg_version ms)"
  defines "applied \<equiv> [m \<leftarrow> ms. mg_version m \<in> set vs]"
  shows "down_all no_mig_faults real_query ms db =
    (None, db\<lparr>md_table := Some [v \<leftarrow> vs. v \<notin> mg_version ` set ms], md_ran := md_ran db @ map mg_down applied\<rparr>)"
  using assms(1,2) unfolding applied_def
proof (induction ms arbitrary: db vs)
  case (Cons m ms)
  show ?case
  proof (cases "mg_version m \<in> set vs")
    case False
    have "[v \<leftarrow> vs. v \<notin> mg_version ` set (m # ms)] = [v \<leftarrow> vs. v \<notin> mg_version ` set ms]"
      using False by (intro filter_cong) auto
    with False Cons show ?thesis by simp
  next
    case True
    let ?db = "db\<lparr>md_ran := md_ran db @ [mg_down m], md_table := Some (removeAll (mg_version m) vs)\<rparr>"
    have "[x \<leftarrow> ms. mg_version x \<in> set (removeAll (mg_version m) vs)] = [x \<leftarrow> ms. mg_version x \<in> set vs]"
      using Cons.prems(2) by (intro filter_cong) (auto simp: image_iff)
    moreover have "[v \<leftarrow> removeAll (mg_version m) vs. v \<notin> mg_version ` set ms] = [v \<leftarrow> vs. v \<notin> mg_version ` set (m # ms)]"
      by (simp add: removeAll_filter_not_eq) (rule filter_cong, auto)
    ultimately show ?thesis
      using Cons.IH [of ?db "removeAll (mg_version m) vs"] True Cons.prems by simp
  qed
qed simp

text \<open>What \<open>All\<close> returns is in strictly ascending version order.\<close>

definition keyed :: "(string \<rightharpoonup> migration) \<Rightarrow> bool" where
  "keyed bv \<longleftrightarrow> (\<forall>v m. bv v = Some m \<longrightarrow> mg_version m = v)"

lemma keyed_set_script: "keyed bv \<Longrightarrow> (\<And>m. mg_version (f m) = mg_version m) \<Longrightarrow> keyed (set_script v f bv)"
  by (auto simp: keyed_def set_script_def Let_def split: option.splits)

lemma scan_entries_keyed: "scan_entries es bv = Inr bv' \<Longrightarrow> keyed bv \<Longrightarrow> keyed bv'"
proof (induction es arbitrary: bv)
  case (Cons e es)
  consider "scan_entries es bv = Inr bv'"
    | v b where "scan_entries es (set_script v (\<lambda>m. m\<lparr>mg_up := b\<rparr>) bv) = Inr bv'"
    | v b where "scan_entries es (set_script v (\<lambda>m. m\<lparr>mg_down := b\<rparr>) bv) = Inr bv'"
    using Cons.prems(1) by (simp add: Let_def split: if_split_asm sum.split_asm)
  then show ?case
  proof cases
    case 1
    then show ?thesis by (rule Cons.IH) (rule Cons.prems)
  next
    case 2
    then show ?thesis by (rule Cons.IH) (rule keyed_set_script [OF Cons.prems(2)], simp)
  next
    case 3
    then show ?thesis by (rule Cons.IH) (rule keyed_set_script [OF Cons.prems(2)], simp)
  qed
qed simp

lemma collect_versions_Inr:
  "collect_versions bv vs out = Inr ms \<Longrightarrow> keyed bv \<Longrightarrow>
   map mg_version ms = map mg_version out @ [v \<leftarrow> vs. bv v \<noteq> None]"
proof (induction vs arbitrary: out)
  case (Cons v vs)
  show ?case
  proof (cases "bv v")
    case None
    with Cons.IH [of out] Cons.prems show ?thesis by simp
  next
    case (Some m)
    with Cons.prems have "collect_versions bv vs (out @ [m]) = Inr ms" and "mg_version m = v"
      by (simp_all add: keyed_def split: if_split_asm)
    with Cons.IH [of "out @ [m]"] Cons.prems(2) Some show ?thesis
      by simp
  qed
qed simp

lemma all_migrations_sorted:
  assumes "all_migrations entries = Inr ms"
  shows "sorted (map mg_version ms) \<and> distinct (map mg_version ms)"
proof -
  obtain es bv where scan: "scan_entries es Map.empty = Inr bv"
    and col: "collect_versions bv (sort (entry_versions es)) [] = Inr ms"
    using assms by (simp add: all_migrations_def split: sum.split_asm)
  have "keyed bv"
    using scan_entries_keyed [OF scan] by (simp add: keyed_def)
  from collect_versions_Inr [OF col this]
  have "map mg_version ms = [v \<leftarrow> sort (entry_versions es). bv v \<noteq> None]"
    by simp
  moreover have "sorted [v \<leftarrow> sort (entry_versions es). bv v \<noteq> None]"
    using sorted_filter [of "\<lambda>v. v" "sort (entry_versions es)"] by simp
  ultimately show ?thesis
    by (simp add: entry_versions_def)
qed

section \<open>The state after each direction\<close>

definition recorded :: "mig_db \<Rightarrow> string list" where
  "recorded db = (case md_table db of None \<Rightarrow> [] | Some vs \<Rightarrow> vs)"

definition migrated :: "migration list \<Rightarrow> mig_db \<Rightarrow> mig_db" where
  "migrated ms db =
     (let pending = [m \<leftarrow> ms. mg_version m \<notin> set (recorded db)] in
      db\<lparr>md_table := Some (recorded db @ map mg_version pending), md_ran := md_ran db @ map mg_up pending\<rparr>)"

definition reverted :: "migration list \<Rightarrow> mig_db \<Rightarrow> mig_db" where
  "reverted ms db =
     db\<lparr>md_table := Some [v \<leftarrow> recorded db. v \<notin> mg_version ` set ms],
       md_ran := md_ran db @ map mg_down [m \<leftarrow> rev ms. mg_version m \<in> set (recorded db)]\<rparr>"

lemma runner_up_migrates:
  "distinct (map mg_version ms) \<Longrightarrow> runner_up no_mig_faults real_query (Inr ms) db = (None, migrated ms db)"
  using up_all_pending [of "db\<lparr>md_table := Some (recorded db)\<rparr>" "recorded db" ms]
  by (simp add: runner_up_def migrated_def Let_def) (simp add: recorded_def)

lemma runner_down_reverts:
  assumes "distinct (map mg_version ms)" and "md_table db \<noteq> None"
  shows "runner_down no_mig_faults real_query (Inr ms) db = (None, reverted ms db)"
proof -
  have "distinct (map mg_version (rev ms))"
    using assms(1) by (simp flip: rev_map)
  moreover have "md_table db = Some (recorded db)"
    using assms(2) by (auto simp: recorded_def)
  ultimately show ?thesis
    using down_all_applied [of db "recorded db" "rev ms"] by (simp add: runner_down_def reverted_def)
qed

lemma recorded_table: "md_table db = Some vs \<Longrightarrow> recorded db = vs"
  by (simp add: recorded_def)

lemma migrated_table:
  "md_table (migrated ms db) = Some (recorded db @ map mg_version [m \<leftarrow> ms. mg_version m \<notin> set (recorded db)])"
  by (simp add: migrated_def Let_def)

lemma reverted_table: "md_table (reverted ms db) = Some [v \<leftarrow> recorded db. v \<notin> mg_version ` set ms]"
  by (simp add: reverted_def)

lemmas recorded_after [simp] = recorded_table [OF migrated_table] recorded_table [OF reverted_table]

lemma migrated_id:
  assumes "md_table db \<noteq> None" and "[m \<leftarrow> ms. mg_version m \<notin> set (recorded db)] = []"
  shows "migrated ms db = db"
  using assms(1) unfolding migrated_def Let_def assms(2) by (auto simp: recorded_table)

lemma reverted_id:
  assumes "md_table db \<noteq> None" and "[m \<leftarrow> rev ms. mg_version m \<in> set (recorded db)] = []"
  shows "reverted ms db = db"
proof -
  have "[v \<leftarrow> recorded db. v \<notin> mg_version ` set ms] = recorded db"
    using assms(2) by (auto simp: filter_id_conv filter_empty_conv)
  with assms show ?thesis
    unfolding reverted_def by (auto simp: recorded_table)
qed

lemma migrated_twice: "migrated ms (migrated ms db) = migrated ms db"
  by (rule migrated_id) (auto simp: migrated_table filter_empty_conv)

lemma reverted_twice: "reverted ms (reverted ms db) = reverted ms db"
  by (rule reverted_id) (auto simp: reverted_table filter_empty_conv)

section \<open>Properties\<close>

definition sample_entries :: "dir_entry list" where
  "sample_entries =
     [\<lparr>de_name = ''0002_x_up.sql'', de_is_dir = False, de_content = Inr ''B''\<rparr>,
      \<lparr>de_name = ''0001_init_down.sql'', de_is_dir = False, de_content = Inr ''a''\<rparr>,
      \<lparr>de_name = ''0001_init_up.sql'', de_is_dir = False, de_content = Inr ''A''\<rparr>,
      \<lparr>de_name = ''0002_x_down.sql'', de_is_dir = False, de_content = Inr ''b''\<rparr>,
      \<lparr>de_name = ''migrations.go'', de_is_dir = False, de_content = Inr ''''\<rparr>]"

text \<open>
  Property C39. Migrations run once and in order: \<open>Up\<close> on a database that does not fail runs exactly the
  scripts whose version is not recorded, in ascending version order, and records them; a second \<open>Up\<close> runs
  nothing. \<open>Down\<close> then runs the down scripts of all versions in descending order and forgets them, and a
  second \<open>Down\<close> runs nothing. On a database that was never migrated \<open>Down\<close> is not idempotent but fails,
  because the version table it asks does not exist.
\<close>

theorem migrations_run_once_in_order:
  assumes "all_migrations entries = Inr ms"
  shows "\<exists>db1 db2. runner_up no_mig_faults real_query (all_migrations entries) db = (None, db1) \<and>
      md_ran db1 = md_ran db @ map mg_up [m \<leftarrow> ms. mg_version m \<notin> set (recorded db)] \<and>
      sorted (map mg_version ms) \<and> distinct (map mg_version ms) \<and>
      runner_up no_mig_faults real_query (all_migrations entries) db1 = (None, db1) \<and>
      runner_down no_mig_faults real_query (all_migrations entries) db1 = (None, db2) \<and>
      md_ran db2 = md_ran db1 @ map mg_down (rev ms) \<and>
      set (recorded db2) = set (recorded db) - mg_version ` set ms \<and>
      runner_down no_mig_faults real_query (all_migrations entries) db2 = (None, db2) \<and>
      (ms = [] \<or> fst (runner_down no_mig_faults real_query (all_migrations entries) fresh_db) = Some undefined_table)"
proof -
  let ?db1 = "migrated ms db" and ?db2 = "reverted ms (migrated ms db)"
  have sorted: "sorted (map mg_version ms)" and dist: "distinct (map mg_version ms)"
    using all_migrations_sorted [OF assms] by simp_all
  have "md_table ?db1 \<noteq> None" "md_table ?db2 \<noteq> None"
    by (simp_all add: migrated_def reverted_def Let_def)
  note runs = runner_up_migrates [OF dist] runner_down_reverts [OF dist this(1)] runner_down_reverts [OF dist this(2)]
  have "[m \<leftarrow> rev ms. mg_version m \<in> set (recorded ?db1)] = rev ms"
    by (auto simp: filter_id_conv)
  then have ran: "md_ran ?db2 = md_ran ?db1 @ map mg_down (rev ms)"
    by (simp add: reverted_def del: recorded_after)
  have fails: "ms = [] \<or> fst (runner_down no_mig_faults real_query (Inr ms) fresh_db) = Some undefined_table"
    by (cases ms rule: rev_cases) (simp_all add: runner_down_def fresh_db_def)
  have "set (recorded ?db2) = set (recorded db) - mg_version ` set ms"
    by auto
  with sorted dist runs ran fails assms show ?thesis
    by (intro exI [of _ ?db1] exI [of _ ?db2]) (simp add: migrated_twice reverted_twice, simp add: migrated_def Let_def)
qed

theorem migrations_run_once_in_order_witness:
  "\<exists>db1. runner_up no_mig_faults real_query (all_migrations (Inr sample_entries)) fresh_db = (None, db1) \<and>
     md_ran db1 = [''A'', ''B'']"
proof -
  have "all_migrations (Inr sample_entries) =
      Inr [\<lparr>mg_version = ''0001_init'', mg_up = ''A'', mg_down = ''a''\<rparr>, \<lparr>mg_version = ''0002_x'', mg_up = ''B'', mg_down = ''b''\<rparr>]"
    by code_simp
  from migrations_run_once_in_order [OF this, of fresh_db] this show ?thesis
    by (auto simp: fresh_db_def recorded_def)
qed

end
