(* ===== verification/Cli.thy ===== *)
theory Cli
  imports Postgres
begin

text \<open>
  \<open>internal/cli\<close> and the \<open>verify-chain\<close> subcommand of \<open>cmd/audit-logger\<close>: the flags as Go's \<open>flag\<close> package
  parses them, the report as text, and the exit status (0 intact, 1 broken, 2 usage or I/O error). Opening
  the database and the output file are parameters, as are the RFC 3339 forms of a time.
\<close>

section \<open>Flags\<close>

record cli_flags =
  cf_from :: string
  cf_to :: string
  cf_db_url :: string
  cf_output :: string
  cf_sign :: bool
  cf_kms_key :: string

definition default_flags :: "string \<Rightarrow> string \<Rightarrow> cli_flags" where
  "default_flags db_url kms_key_id =
     \<lparr>cf_from = '''', cf_to = '''', cf_db_url = db_url, cf_output = '''', cf_sign = False, cf_kms_key = kms_key_id\<rparr>"

datatype flag_error =
    HelpRequested | BadSyntax string | InvalidBool string string | NotDefined string | NeedsArgument string

definition parse_bool :: "string \<Rightarrow> bool option" where
  "parse_bool s =
     (if s \<in> {''1'', ''t'', ''T'', ''TRUE'', ''true'', ''True''} then Some True
      else if s \<in> {''0'', ''f'', ''F'', ''FALSE'', ''false'', ''False''} then Some False
      else None)"

text \<open>The value setters of the registered string flags; \<open>sign\<close> is the only boolean one.\<close>

definition string_flag :: "string \<Rightarrow> (string \<Rightarrow> cli_flags \<Rightarrow> cli_flags) option" where
  "string_flag name =
     (if name = ''from'' then Some (\<lambda>v f. f\<lparr>cf_from := v\<rparr>)
      else if name = ''to'' then Some (\<lambda>v f. f\<lparr>cf_to := v\<rparr>)
      else if name = ''db'' then Some (\<lambda>v f. f\<lparr>cf_db_url := v\<rparr>)
      else if name = ''out'' then Some (\<lambda>v f. f\<lparr>cf_output := v\<rparr>)
      else if name = ''kms-key'' then Some (\<lambda>v f. f\<lparr>cf_kms_key := v\<rparr>)
      else None)"

text \<open>\<open>-name=value\<close>: the name up to the first \<open>=\<close> that is not at its start, and the value after it.\<close>

definition split_value :: "string \<Rightarrow> string \<times> string option" where
  "split_value s =
     (let name = hd s # takeWhile (\<lambda>c. c \<noteq> CHR ''='') (tl s) in
      (name, if length name < length s then Some (drop (length name + 1) s) else None))"

text \<open>
  \<open>FlagSet.Parse\<close>: flags until the first argument that is none, or \<open>--\<close>. One or two dashes introduce a
  flag; a boolean flag takes a value only after \<open>=\<close>.
\<close>

fun parse_flags :: "string list \<Rightarrow> cli_flags \<Rightarrow> flag_error + cli_flags" where
  "parse_flags [] f = Inr f"
| "parse_flags (s # args) f =
     (if length s < 2 \<or> s ! 0 \<noteq> CHR ''-'' then Inr f
      else if s = ''--'' then Inr f
      else
        (let name0 = (if s ! 1 = CHR ''-'' then drop 2 s else drop 1 s) in
         if name0 = '''' \<or> name0 ! 0 = CHR ''-'' \<or> name0 ! 0 = CHR ''='' then Inl (BadSyntax s)
         else
           (let name = fst (split_value name0); value = snd (split_value name0) in
            if name = ''sign'' then
              (case value of
                 None \<Rightarrow> parse_flags args (f\<lparr>cf_sign := True\<rparr>)
               | Some v \<Rightarrow>
                   (case parse_bool v of
                      None \<Rightarrow> Inl (InvalidBool v name)
                    | Some b \<Rightarrow> parse_flags args (f\<lparr>cf_sign := b\<rparr>)))
            else
              (case string_flag name of
                 None \<Rightarrow>
                   if name = ''help'' \<or> name = ''h'' then Inl HelpRequested
                   else Inl (NotDefined name)
               | Some set_flag \<Rightarrow>
                   (case value of
                      Some v \<Rightarrow> parse_flags args (set_flag v f)
                    | None \<Rightarrow>
                        (case args of
                           [] \<Rightarrow> Inl (NeedsArgument name)
                         | v # rest \<Rightarrow> parse_flags rest (set_flag v f)))))))"

definition parse_verify_chain_flags :: "string \<Rightarrow> string \<Rightarrow> string list \<Rightarrow> flag_error + cli_flags" where
  "parse_verify_chain_flags db_url kms_key_id args = parse_flags args (default_flags db_url kms_key_id)"

section \<open>The report\<close>

text \<open>The lines written to the output; \<open>fmt\<close> is \<open>Time.Format(time.RFC3339)\<close>.\<close>

definition report_text :: "(time \<Rightarrow> string) \<Rightarrow> report \<Rightarrow> string list" where
  "report_text fmt r =
     [''Audit Event Log - Chain Integrity Report'', ''=========================================='',
      ''Window:  '' @ fmt (rp_from r) @ '' -> '' @ fmt (rp_to r),
      ''Events:  '' @ int_text (rp_event_count r), ''Status:  '' @ status_string (rp_status r)] @
     (if rp_first_broken r \<noteq> '''' then
        [''First broken event: '' @ rp_first_broken r @ '' (position '' @ int_text (rp_position r) @ '')''] else []) @
     (if rp_reason r \<noteq> '''' then [''Reason:  '' @ rp_reason r] else []) @
     (if rp_root_hash r \<noteq> '''' then [''Root:    '' @ rp_root_hash r] else []) @
     (if rp_anchor_count r > 0 then
        [''Anchors: '' @ int_text (rp_anchor_count r) @ '' (checked '' @ int_text (rp_checked_anchors r) @
          '', mismatches '' @ int_text (rp_anchor_mismatches r) @ '')''] else [])"

text \<open>\<open>listOnlyStore\<close> passes \<open>List\<close> and \<open>Get\<close> through and refuses everything else.\<close>

definition list_only_list :: "(filter \<Rightarrow> list_result result) \<Rightarrow> filter \<Rightarrow> list_result result" where
  "list_only_list op_list f = op_list f"

definition list_only_get :: "(string \<Rightarrow> event result) \<Rightarrow> string \<Rightarrow> event result" where
  "list_only_get op_get i = op_get i"

definition list_only_error :: go_error where
  "list_only_error = ErrMsg ''cli: list-only store''"

definition list_only_insert :: "event \<Rightarrow> bool result" where
  "list_only_insert e = Inl list_only_error"

definition list_only_insert_chained :: "event \<Rightarrow> (bytes \<Rightarrow> bytes) \<Rightarrow> bool result" where
  "list_only_insert_chained e hash_fn = Inl list_only_error"

definition list_only_chain_head :: "event option result" where
  "list_only_chain_head = Inl list_only_error"

definition list_only_set_legal_hold :: "string \<Rightarrow> bool \<Rightarrow> go_error option" where
  "list_only_set_legal_hold i hold = Some list_only_error"

definition list_only_mark_anchored :: "time \<Rightarrow> string \<Rightarrow> int result" where
  "list_only_mark_anchored t i = Inl list_only_error"

lemma list_only_passes [simp]: "list_only_list op_list = op_list" "list_only_get op_get = op_get"
  by (simp_all add: fun_eq_iff list_only_list_def list_only_get_def)

text \<open>\<open>RunVerifyChain\<close>: report, exit status, error, and what was written; the anchors and the signer are nil.\<close>

definition cli_verify_chain ::
  "(nat \<Rightarrow> bool) \<Rightarrow> (filter \<Rightarrow> list_result result) \<Rightarrow> (string \<Rightarrow> event result) \<Rightarrow> (time \<Rightarrow> string) \<Rightarrow>
   time \<Rightarrow> time \<Rightarrow> time \<Rightarrow> (report option \<times> int \<times> go_error option \<times> string list) option" where
  "cli_verify_chain cancelled list_events get fmt from to now =
     (case sweep cancelled (list_only_list list_events) (list_only_get get) None from to None now of
        None \<Rightarrow> None
      | Some (Inl err) \<Rightarrow> Some (None, 2, Some err, [])
      | Some (Inr r) \<Rightarrow>
          if rp_status r \<noteq> StatusOK then Some (Some r, 1, None, report_text fmt r)
          else Some (Some r, 0, None, report_text fmt r))"

section \<open>The subcommand\<close>

text \<open>An optional time flag.\<close>

definition flag_time :: "(string \<Rightarrow> time result) \<Rightarrow> string \<Rightarrow> time result" where
  "flag_time parse_time v = (if v \<noteq> '''' then parse_time v else Inr zero_time)"

text \<open>\<open>run_verify_chain\<close>: the exit status and the report's lines; nothing is written on a usage error.\<close>

definition run_verify_chain ::
  "(nat \<Rightarrow> bool) \<Rightarrow> (string \<Rightarrow> ((filter \<Rightarrow> list_result result) \<times> (string \<Rightarrow> event result)) result) \<Rightarrow>
   (string \<Rightarrow> go_error option) \<Rightarrow> (string \<Rightarrow> time result) \<Rightarrow> (time \<Rightarrow> string) \<Rightarrow> time \<Rightarrow> string \<Rightarrow> string \<Rightarrow>
   string list \<Rightarrow> (int \<times> string list) option" where
  "run_verify_chain cancelled open_db create_file parse_time fmt now db_env kms_env args =
     (case parse_verify_chain_flags db_env kms_env args of
        Inl e \<Rightarrow> Some (if e = HelpRequested then 0 else 2, [])
      | Inr flags \<Rightarrow>
          if cf_db_url flags = '''' then Some (2, [])
          else
            (case open_db (cf_db_url flags) of
               Inl err \<Rightarrow> Some (2, [])
             | Inr (list_events, get) \<Rightarrow>
                 (case flag_time parse_time (cf_from flags) of
                    Inl err \<Rightarrow> Some (2, [])
                  | Inr lo \<Rightarrow>
                      (case flag_time parse_time (cf_to flags) of
                         Inl err \<Rightarrow> Some (2, [])
                       | Inr hi \<Rightarrow>
                           if cf_output flags \<noteq> '''' \<and> create_file (cf_output flags) \<noteq> None then Some (2, [])
                           else
                             (case cli_verify_chain cancelled list_events get fmt lo hi now of
                                None \<Rightarrow> None
                              | Some (r, code, Some err, out) \<Rightarrow> Some (2, out)
                              | Some (r, code, None, out) \<Rightarrow> Some (code, out))))))"

section \<open>What the exit status means\<close>

context event_pager
begin

lemma cli_verify_chain_verdict:
  fixes lo hi :: time
  assumes "inv s" and "\<forall>e \<in> set (log s). \<not> is_zero (ev_ts e)" and "\<And>k. \<not> cancelled k"
    and "admits (sweep_filter lo hi)"
  defines "rows \<equiv> List.filter (matches_fields (sweep_filter lo hi)) (log s)"
  shows "\<exists>r. cli_verify_chain cancelled (list_events s) (get s) fmt lo hi now =
    Some (Some r, if intact rows then 0 else 1, None, report_text fmt r) \<and> rp_event_count r = int (length rows)"
  using sweep_verdict [OF assms(1,2) _ assms(4), of cancelled None None now] assms(3) unfolding rows_def
  by (auto simp: cli_verify_chain_def)

end

text \<open>Parsing \<open>--name value\<close> pairs.\<close>

lemma parse_from_to:
  "parse_flags [''--from'', lo, ''--to'', hi] f = Inr (f\<lparr>cf_from := lo, cf_to := hi\<rparr>)"
  by (simp add: split_value_def string_flag_def Let_def)

lemma sweep_filter_exact: "(is_zero lo \<or> exact_time cd lo) \<and> (is_zero hi \<or> exact_time cd hi) \<Longrightarrow> exact_filter cd (sweep_filter lo hi)"
  by (simp add: exact_filter_def sweep_filter_def zero_filter_def zero_cursor_def)

lemma flag_time_exact:
  "\<forall>v t. parse_time v = Inr t \<longrightarrow> exact_time cd t \<Longrightarrow> flag_time parse_time v = Inr t \<Longrightarrow> is_zero t \<or> exact_time cd t"
  by (auto simp: flag_time_def split: if_splits)

text \<open>
  Property C40. The exit status of \<open>verify-chain\<close> tells the truth about the database it opened: whatever
  the arguments and the environment, the command ends; if the flags parse, the database opens, the window
  bounds parse and the output file can be created, the status is 0 exactly if the rows of the window form
  an intact chain and 1 otherwise; in every other case it is 2 and nothing is reported, except that a
  request for help exits with 0. (The database answers without faults, and window bounds are given with
  the precision of its time column.)
\<close>

theorem verify_chain_exit_status:
  assumes "pg_readable cd db" and "\<forall>e \<in> set (pg_log db). \<not> is_zero (ev_ts e)" and "\<forall>k. \<not> cancelled k"
    and "\<forall>dsn store. open_db dsn = Inr store \<longrightarrow> store = (pg_list cd no_faults db, pg_get cd no_faults db)"
    and "\<forall>v t. parse_time v = Inr t \<longrightarrow> exact_time cd t"
  shows "\<exists>code out. run_verify_chain cancelled open_db create_file parse_time fmt now db_env kms_env args = Some (code, out) \<and>
    (case parse_verify_chain_flags db_env kms_env args of
       Inl e \<Rightarrow> code = (if e = HelpRequested then 0 else 2) \<and> out = []
     | Inr flags \<Rightarrow>
         (case (open_db (cf_db_url flags), flag_time parse_time (cf_from flags), flag_time parse_time (cf_to flags)) of
            (Inr store, Inr lo, Inr hi) \<Rightarrow>
              if cf_db_url flags = '''' \<or> cf_output flags \<noteq> '''' \<and> create_file (cf_output flags) \<noteq> None
              then code = 2 \<and> out = []
              else code = (if intact [e \<leftarrow> pg_log db. matches_fields (sweep_filter lo hi) e] then 0 else 1) \<and> out \<noteq> []
          | _ \<Rightarrow> code = 2 \<and> out = []))"
proof (cases "parse_verify_chain_flags db_env kms_env args")
  case (Inl e)
  then show ?thesis
    by (simp add: run_verify_chain_def)
next
  case flags: (Inr flags)
  show ?thesis
  proof (cases "\<exists>store lo hi. open_db (cf_db_url flags) = Inr store \<and> flag_time parse_time (cf_from flags) = Inr lo \<and>
      flag_time parse_time (cf_to flags) = Inr hi")
    case True
    then obtain lo hi where parts: "open_db (cf_db_url flags) = Inr (pg_list cd no_faults db, pg_get cd no_faults db)"
      "flag_time parse_time (cf_from flags) = Inr lo" "flag_time parse_time (cf_to flags) = Inr hi"
      using assms(4) by blast
    have "exact_filter cd (sweep_filter lo hi)"
      using flag_time_exact [OF assms(5)] parts(2,3) by (intro sweep_filter_exact) blast
    then obtain r where "cli_verify_chain cancelled (pg_list cd no_faults db) (pg_get cd no_faults db) fmt lo hi now =
        Some (Some r, if intact [e \<leftarrow> pg_log db. matches_fields (sweep_filter lo hi) e] then 0 else 1, None, report_text fmt r)"
      using pg.cli_verify_chain_verdict [OF assms(1,2), of cancelled lo hi fmt now] assms(3) by blast
    with parts flags show ?thesis
      by (simp add: run_verify_chain_def report_text_def)
  next
    case False
    with flags assms(4) show ?thesis
      by (auto simp: run_verify_chain_def split: sum.splits)
  qed
qed

definition sample_db :: pg_db where
  "sample_db = empty_db\<lparr>pg_events := sample_chain\<rparr>"

lemma sample_db_readable: "pg_readable nano_codec sample_db" "pg_log sample_db = sample_chain"
  by (simp_all add: pg_readable_def pg_inv_def sample_db_def sample_chain_def exact_defs nano_codec_def sample_codec_def
      sample_link_def link_event_def sample_event_def pg_log_def ev_key_def less_prod_def)

theorem verify_chain_exit_status_witness:
  "\<exists>out. run_verify_chain (\<lambda>k. False) (\<lambda>dsn. Inr (pg_list nano_codec no_faults sample_db, pg_get nano_codec no_faults sample_db))
     (\<lambda>p. None) (\<lambda>v. Inr zero_time) (\<lambda>t. ''t'') (Time 9) ''dsn'' '''' [''--from'', ''x'', ''--to'', ''y''] = Some (0, out)"
proof -
  let ?open = "\<lambda>dsn. Inr (pg_list nano_codec no_faults sample_db, pg_get nano_codec no_faults sample_db)"
  have rows: "[e \<leftarrow> pg_log sample_db. matches_fields (sweep_filter zero_time zero_time) e] = sample_chain"
    by (simp add: sample_db_readable filter_id_conv matches_fields_def sweep_filter_def zero_filter_def)
  have ts: "\<forall>e \<in> set (pg_log sample_db). \<not> is_zero (ev_ts e)"
    using sample_store_healthy by (simp add: healthy_def sample_store_log sample_db_readable)
  have exact: "\<forall>v t. Inr zero_time = Inr t \<longrightarrow> exact_time nano_codec t"
    by (simp add: exact_time_def nano_codec_def)
  show ?thesis
    using verify_chain_exit_status [OF sample_db_readable(1) ts, of "\<lambda>k. False" ?open "\<lambda>v. Inr zero_time"
        "\<lambda>p. None" "\<lambda>t. ''t''" "Time 9" "''dsn''" "''''" "[''--from'', ''x'', ''--to'', ''y'']"] exact
    by (auto simp: parse_verify_chain_flags_def parse_from_to default_flags_def flag_time_def rows sample_chain_intact
        simp del: parse_flags.simps)
qed

end
