(* ===== verification/App.thy ===== *)
theory App
  imports Api Consumer Postgres Adapters Migrations Systems
begin

text \<open>
  \<open>internal/app\<close>: the composition root. \<open>build\<close> chooses the clients from the configuration and the
  environment; the service is what runs afterwards in development mode: the consumer loop, the anchor
  loop and the REST handlers, acting on the same in-memory stores. A run of the service is a sequence of
  their steps in any order.
\<close>

section \<open>Opening the database\<close>

text \<open>\<open>DB.migrate\<close>: the runner on the pool.\<close>

definition db_migrate :: "mig_faults \<Rightarrow> migration list result \<Rightarrow> mig_db \<Rightarrow> go_error option \<times> mig_db" where
  "db_migrate faults migs db = runner_up faults (Some (query_version faults)) migs db"

text \<open>\<open>postgres.Open\<close>: connect, ping, migrate. The pool is closed again if a later step fails.\<close>

definition open_postgres ::
  "go_error option \<Rightarrow> go_error option \<Rightarrow> mig_faults \<Rightarrow> migration list result \<Rightarrow> mig_db \<Rightarrow> unit result \<times> mig_db" where
  "open_postgres connect_error ping_error faults migs db =
     (case connect_error of
        Some err \<Rightarrow> (Inl (ErrWrap ''postgres: open'' err), db)
      | None \<Rightarrow>
          (case ping_error of
             Some err \<Rightarrow> (Inl (ErrWrap ''postgres: ping'' err), db)
           | None \<Rightarrow>
               (case db_migrate faults migs db of
                  (Some err, db') \<Rightarrow> (Inl err, db')
                | (None, db') \<Rightarrow> (Inr (), db'))))"

lemma open_postgres_migrates:
  assumes "open_postgres None None no_mig_faults (Inr ms) db = (r, db')" and "distinct (map mg_version ms)"
  shows "r = Inr () \<and> db' = migrated ms db"
  using assms by (simp add: open_postgres_def db_migrate_def runner_up_migrates)

section \<open>Build\<close>

datatype 'p stores = DbStores 'p | MemStores

datatype 'c client = RealClient 'c | FakeClient

text \<open>
  What \<open>Build\<close> finds around it: the environment, the policy file, the database and the AWS configuration as
  the SDK loads it, once for each of the two clients made from it.
\<close>

record ('p, 'a) build_env =
  be_env :: env
  be_testing :: bool
  be_open_db :: "string \<Rightarrow> 'p result"
  be_aws_for_s3 :: "'a result"
  be_aws_for_kms :: "'a result"
  be_files :: "string \<Rightarrow> file_read"

text \<open>\<open>kmsadapter.Client\<close>: the SDK's client, here its configuration, and the key.\<close>

record 'a kms_client =
  kc_service :: 'a
  kc_key_id :: string

record ('p, 'a) server =
  sv_stores :: "'p stores"
  sv_s3 :: "'a client"
  sv_signer :: "'a kms_client client"
  sv_consumer :: "reader_config client"
  sv_redactor :: reloader
  sv_secret :: string
  sv_bypass :: bool
  sv_addr :: string

definition open_postgres_or_fallback :: "('p, 'a) build_env \<Rightarrow> string \<Rightarrow> 'p stores" where
  "open_postgres_or_fallback en dsn = (case be_open_db en dsn of Inl err \<Rightarrow> MemStores | Inr db \<Rightarrow> DbStores db)"

definition aws_region :: "('p, 'a) build_env \<Rightarrow> string" where
  "aws_region en = getenv (be_env en) ''AWS_REGION''"

definition new_s3_client :: "('p, 'a) build_env \<Rightarrow> 'a result" where
  "new_s3_client en = (case be_aws_for_s3 en of Inl err \<Rightarrow> Inl err | Inr aws \<Rightarrow> Inr aws)"

definition new_kms_client :: "('p, 'a) build_env \<Rightarrow> string \<Rightarrow> 'a kms_client result" where
  "new_kms_client en key_id =
     (case be_aws_for_kms en of Inl err \<Rightarrow> Inl err | Inr aws \<Rightarrow> Inr \<lparr>kc_service = aws, kc_key_id = key_id\<rparr>)"

definition build_s3 :: "('p, 'a) build_env \<Rightarrow> config \<Rightarrow> bool \<Rightarrow> 'a client result" where
  "build_s3 en cfg dev =
     (if cfg_payload_bucket cfg \<noteq> '''' \<and> aws_region en \<noteq> '''' then
        (case new_s3_client en of
           Inl err \<Rightarrow>
             if dev then Inr FakeClient
             else Inl (ErrWrap ''S3 client init failed and DEV_MODE!=1; refusing to start in production mode'' err)
         | Inr c \<Rightarrow> Inr (RealClient c))
      else if dev then Inr FakeClient
      else Inl (ErrMsg ''PAYLOAD_BUCKET/AWS_REGION unset and DEV_MODE!=1; refusing to start in production mode''))"

definition build_kms :: "('p, 'a) build_env \<Rightarrow> config \<Rightarrow> bool \<Rightarrow> 'a kms_client client result" where
  "build_kms en cfg dev =
     (if cfg_kms_key_id cfg \<noteq> '''' \<and> aws_region en \<noteq> '''' then
        (case new_kms_client en (cfg_kms_key_id cfg) of
           Inl err \<Rightarrow>
             if dev then Inr FakeClient
             else Inl (ErrWrap ''KMS client init failed and DEV_MODE!=1; refusing to start in production mode'' err)
         | Inr c \<Rightarrow> Inr (RealClient c))
      else if dev then Inr FakeClient
      else Inl (ErrMsg ''KMS_KEY_ID/AWS_REGION unset and DEV_MODE!=1; refusing to start in production mode''))"

definition new_kafka_consumer :: "config \<Rightarrow> reader_config result" where
  "new_kafka_consumer cfg = kafka_new (cfg_kafka_brokers cfg) (cfg_kafka_topic cfg) (cfg_kafka_consumer_group cfg)"

definition build_kafka :: "config \<Rightarrow> bool \<Rightarrow> reader_config client result" where
  "build_kafka cfg dev =
     (if length (cfg_kafka_brokers cfg) > 0 then
        (case new_kafka_consumer cfg of
           Inl err \<Rightarrow>
             if dev then Inr FakeClient
             else Inl (ErrWrap ''kafka consumer init failed and DEV_MODE!=1; refusing to start in production mode'' err)
         | Inr c \<Rightarrow> Inr (RealClient c))
      else if dev then Inr FakeClient
      else Inl (ErrMsg ''KAFKA_BROKERS unset and DEV_MODE!=1; refusing to start in production mode''))"

definition dev_mode :: "('p, 'a) build_env \<Rightarrow> bool" where
  "dev_mode en \<longleftrightarrow> getenv (be_env en) ''DEV_MODE'' = ''1'' \<or> be_testing en"

text \<open>
  \<open>Build\<close>. The router asks for the token secret (\<open>auth.SecretFromEnv\<close>), which ends the process with
  \<open>log.Fatal\<close> when it is missing in production: an error here, \<open>main\<close> exits with status 1 on both.
\<close>

definition build :: "('p, 'a) build_env \<Rightarrow> config \<Rightarrow> ('p, 'a) server result" where
  "build en cfg =
     (let dev = dev_mode en;
          all = (if cfg_db_url cfg \<noteq> '''' then open_postgres_or_fallback en (cfg_db_url cfg) else MemStores)
      in and_then (build_s3 en cfg dev) (\<lambda>payload_store.
         and_then (build_kms en cfg dev) (\<lambda>signer.
         and_then (new_reloader (be_files en) (cfg_redaction_policy_path cfg)) (\<lambda>redactor.
         and_then (build_kafka cfg dev) (\<lambda>consumer.
         case secret_from_env (be_env en) (be_testing en) of
           Fatal msg \<Rightarrow> Inl (ErrMsg msg)
         | Secret secret bypass \<Rightarrow>
             Inr \<lparr>sv_stores = all, sv_s3 = payload_store, sv_signer = signer, sv_consumer = consumer,
                  sv_redactor = redactor, sv_secret = secret, sv_bypass = bypass,
                  sv_addr = CHR '':'' # cfg_port cfg\<rparr>)))))"

section \<open>The running service\<close>

text \<open>Where the anchor loop stands in its current run: the head it read, then the anchor it stored.\<close>

datatype anchor_phase = AnchorIdle | AnchorHead event | AnchorStored event anchor

record service =
  se_loop :: anchor_phase
  se_world :: "(mem_store, fake_s3, dead_letter_store) ingest_state"
  se_anchors :: anchor_store
  se_jobs :: job_store
  se_policy :: reloader

definition start_service :: "reloader \<Rightarrow> service" where
  "start_service r = \<lparr>se_loop = AnchorIdle, se_world = empty_world, se_anchors = ma_anchors new_all, se_jobs = ma_exports new_all,
     se_policy = r\<rparr>"

text \<open>The state as the REST handlers see it, and back.\<close>

definition api_view :: "service \<Rightarrow> (mem_store, job_store, reloader) api_state" where
  "api_view s = \<lparr>as_events = is_events (se_world s), as_exports = se_jobs s, as_redactor = se_policy s,
     as_metrics = is_metrics (se_world s)\<rparr>"

definition from_api :: "service \<Rightarrow> (mem_store, job_store, reloader) api_state \<Rightarrow> service" where
  "from_api s st = s\<lparr>se_world := (se_world s)\<lparr>is_events := as_events st, is_metrics := as_metrics st\<rparr>,
     se_jobs := as_exports st, se_policy := as_redactor st\<rparr>"

text \<open>
  The wiring of the router: the stores and the redactor are put in; the library functions, the object
  store's presigner and the verifier of \<open>lib\<close> are kept (they change no state).
\<close>

definition wire_api ::
  "time \<Rightarrow> (string \<Rightarrow> file_read) \<Rightarrow> (mem_store, job_store, reloader) api_deps \<Rightarrow>
   (mem_store, job_store, reloader) api_deps" where
  "wire_api now files lib =
     lib\<lparr>ad_get := mem_get, ad_list := mem_list, ad_set_legal_hold := Some mem_set_legal_hold,
         ad_create_job := mem_create_job now, ad_get_job := mem_get_job, ad_redactor_reload := Some (reload files)\<rparr>"

text \<open>\<open>sweepVerifier.VerifyWindow\<close>: a sweep over the service's stores.\<close>

definition verify_window ::
  "(nat \<Rightarrow> bool) \<Rightarrow> (bytes \<Rightarrow> (bytes \<times> string) result) \<Rightarrow> time \<Rightarrow> service \<Rightarrow> time \<Rightarrow> time \<Rightarrow> report result option" where
  "verify_window cancelled signer now s from to =
     sweep cancelled (mem_list (is_events (se_world s))) (mem_get (is_events (se_world s)))
       (Some (mem_list_anchors (se_anchors s))) from to (Some signer) now"

text \<open>
  The anchor loop, one touch of the stores at a time: messages and requests may come between. The error
  of a run is logged and dropped.
\<close>

definition anchor_tick ::
  "string \<Rightarrow> time \<Rightarrow> (bytes \<Rightarrow> (bytes \<times> string) result) \<Rightarrow> string \<Rightarrow> service \<Rightarrow> service" where
  "anchor_tick fresh now signer notary_url s =
     (let job = mem_anchor_job fresh now signer notary_url; es = is_events (se_world s) in
      case se_loop s of
        AnchorIdle \<Rightarrow>
          (case aj_chain_head job es of
             Inr (Some head) \<Rightarrow> s\<lparr>se_loop := AnchorHead head\<rparr>
           | _ \<Rightarrow> s)
      | AnchorHead head \<Rightarrow>
          (case anchor_sign job head es (se_anchors s) of
             (Inl err, as) \<Rightarrow> s\<lparr>se_anchors := as, se_loop := AnchorIdle\<rparr>
           | (Inr a, as) \<Rightarrow> s\<lparr>se_anchors := as, se_loop := AnchorStored head a\<rparr>)
      | AnchorStored head a \<Rightarrow>
          s\<lparr>se_world := (se_world s)\<lparr>is_events := snd (anchor_mark job head a es)\<rparr>, se_loop := AnchorIdle\<rparr>)"

inductive service_step :: "service \<Rightarrow> service \<Rightarrow> bool" where
  step_consume: "dp = mem_deps fresh now bucket storage days hold (Some (reloader_apply tlib (se_policy s))) topic unmarshal error_text \<Longrightarrow>
     app_handler dp msg (se_world s) = (res, w) \<Longrightarrow> service_step s (s\<lparr>se_world := w\<rparr>)"
| step_anchor: "service_step s (anchor_tick fresh now signer notary_url s)"
| step_request: "serve (wire_api now files lib) ae t rq (api_view s) = (resp, st) \<Longrightarrow> service_step s (from_api s st)"

inductive_cases service_stepE: "service_step s s'"

section \<open>What every step keeps\<close>

definition well_formed_row :: "event \<Rightarrow> bool" where
  "well_formed_row e \<longleftrightarrow> hash_ok e \<and> length (ev_payload_hash e) = 32 \<and> length (ev_prev_hash e) = 32 \<and>
     length (ev_this_hash e) = 32 \<and> \<not> is_zero (ev_ts e) \<and> ev_id e \<noteq> ''''"

definition anchors_point :: "anchor list \<Rightarrow> event list \<Rightarrow> bool" where
  "anchors_point as l \<longleftrightarrow>
     (\<forall>a \<in> set as. \<exists>e \<in> set l. ev_id e = an_last_event_id a \<and> ev_this_hash e = an_root_hash a)"

text \<open>The head the anchor loop has read is still a row of the log, up to its flags.\<close>

definition head_known :: "anchor_phase \<Rightarrow> event list \<Rightarrow> bool" where
  "head_known ph l \<longleftrightarrow>
     (case ph of AnchorIdle \<Rightarrow> True | AnchorHead h \<Rightarrow> \<exists>e \<in> set l. ev_id e = ev_id h \<and> ev_this_hash e = ev_this_hash h
      | AnchorStored h a \<Rightarrow> True)"

definition service_ok :: "service \<Rightarrow> bool" where
  "service_ok s \<longleftrightarrow> mem_inv (is_events (se_world s)) \<and> head_known (se_loop s) (mem_log (is_events (se_world s))) \<and>
     (\<forall>e \<in> set (mem_log (is_events (se_world s))). well_formed_row e) \<and>
     anchors_point (se_anchors s) (mem_log (is_events (se_world s))) \<and>
     (\<forall>j \<in> ran (se_jobs s). job_status j = ''PENDING'')"

lemma well_formed_immutable: "immutable_part e = immutable_part e' \<Longrightarrow> well_formed_row e = well_formed_row e'"
  by (simp add: well_formed_row_def immutable_fields [of e e'])

lemma extends_same_row:
  "extends l l' \<Longrightarrow> e \<in> set l \<Longrightarrow> \<exists>e' \<in> set l'. ev_id e' = ev_id e \<and> ev_this_hash e' = ev_this_hash e"
  unfolding extends_def using immutable_fields(1,3) by metis

lemma anchors_point_extends: "anchors_point as l \<Longrightarrow> extends l l' \<Longrightarrow> anchors_point as l'"
  unfolding anchors_point_def using extends_same_row by metis

lemma head_known_extends: "head_known ph l \<Longrightarrow> extends l l' \<Longrightarrow> head_known ph l'"
  unfolding head_known_def using extends_same_row by (fastforce split: anchor_phase.splits)

context ingesting
begin

lemma ingest_not_inserted:
  assumes "inv (is_events st)" and "ingest_message dp msg st = (r, st')" and "\<not> ir_inserted r"
  shows "is_events st' = is_events st"
  using assms(2)
proof (cases rule: ingest_message_paths)
  case (insert ev h row st1 st2)
  note row = reaches_insert_row [OF insert(1)]
  have "inv (is_events st1)"
    using assms(1) row(1) by simp
  from insert_row_cases [OF this insert(2)] assms(3) row(1) insert(3) show ?thesis
    by (simp add: frame_simps)
qed simp_all

lemma ingest_step_keeps:
  assumes "inv (is_events st)" and "ingest_message dp msg st = (r, st')"
  shows "inv (is_events st') \<and> extends (log (is_events st)) (log (is_events st'))"
  using assms(2)
proof (cases rule: ingest_message_paths)
  case (insert ev h row st1 st2)
  note row = reaches_insert_row [OF insert(1)]
  have inv1: "inv (is_events st1)"
    using assms(1) row(1) by simp
  have st': "is_events st' = is_events st2"
    using insert(3) by (simp add: frame_simps)
  let ?linked = "link_event (envelope_hash_fn ev h) (chain_tip (log (is_events st1))) row"
  have "ev_id row \<notin> ev_id ` set (log (is_events st1)) \<Longrightarrow> extends (log (is_events st1)) (log_insert ?linked (log (is_events st1)))"
    using extends_log_insert [OF log_ascending [OF inv1], of ?linked] fresh_key by simp
  with insert_row_cases [OF inv1 insert(2)] inv1 row(1) st' show ?thesis
    by auto
qed (use assms(1) in simp_all)

end

lemma chain_tip_length: "\<forall>e \<in> set l. length (ev_this_hash e) = 32 \<Longrightarrow> length (chain_tip l) = 32"
  by (simp add: chain_tip_def)

lemma inserted_row_well_formed:
  assumes "\<forall>e \<in> set l. well_formed_row e" and "well_formed ev" and "ev_id row = env_id ev" and "ev_ts row = env_ts ev"
    and "ev_prev_hash row = chain_tip l" and "hash_ok row"
    and "if env_payload ev = [] then decode_hash_to_bytes (env_payload_hash ev) = Inr (ev_payload_hash row)
        else ev_payload_hash row = sha256 (env_payload ev) \<and> normalize_hash (env_payload_hash ev) = hash_payload (env_payload ev)"
  shows "well_formed_row row"
proof -
  have "length (ev_payload_hash row) = 32"
    using assms(7) decode_hash_length by (auto split: if_splits)
  moreover have "length (chain_tip l) = 32"
    using assms(1) by (intro chain_tip_length) (simp add: well_formed_row_def)
  moreover have "length (ev_this_hash row) = 32"
    using assms(6) by (simp add: hash_ok_def)
  ultimately show ?thesis
    using assms(2-6) by (simp add: well_formed_row_def well_formed_def)
qed

lemma consume_keeps:
  assumes ok: "service_ok s"
    and dp: "dp = mem_deps fresh now bucket storage days hold redactor topic unmarshal error_text"
    and run: "ingest_message dp msg (se_world s) = (r, w)"
  shows "service_ok (s\<lparr>se_world := w\<rparr>)"
proof -
  let ?es = "is_events (se_world s)"
  have inv: "mem_inv ?es" and rows: "\<forall>e \<in> set (mem_log ?es). well_formed_row e"
    using ok by (simp_all add: service_ok_def)
  have keep: "mem_inv (is_events w)" "extends (mem_log ?es) (mem_log (is_events w))"
    using mem_ingest.ingest_step_keeps [OF inv run [unfolded dp]] by simp_all
  have "\<forall>e \<in> set (mem_log (is_events w)). well_formed_row e"
  proof (cases "ir_inserted r")
    case False
    with mem_ingest.ingest_not_inserted [OF inv run [unfolded dp] False] rows show ?thesis
      by simp
  next
    case True
    then obtain ev row where log: "mem_log (is_events w) = log_insert row (mem_log ?es)"
      and row: "well_formed_row row"
      using mem_ingest.ingest_inserted [OF inv run [unfolded dp] True] inserted_row_well_formed [OF rows] by blast
    with rows show ?thesis
      by (auto simp: log_insert_def)
  qed
  with keep ok anchors_point_extends head_known_extends show ?thesis
    by (auto simp: service_ok_def)
qed

text \<open>Replacing the event store by one whose rows differ in the two flags only.\<close>

lemma flags_keep:
  assumes ok: "service_ok s" and inv: "mem_inv es"
    and log: "mem_log es = map g (mem_log (is_events (se_world s)))"
    and g: "\<And>e. immutable_part (g e) = immutable_part e" "\<And>e. ev_anchored e \<Longrightarrow> ev_anchored (g e)"
  shows "service_ok (s\<lparr>se_world := (se_world s)\<lparr>is_events := es, is_metrics := m\<rparr>\<rparr>)"
proof -
  have grown: "extends (mem_log (is_events (se_world s))) (mem_log es)"
    unfolding log by (rule extends_map) (use g in auto)
  have "well_formed_row (g e) = well_formed_row e" for e
    by (rule well_formed_immutable) (rule g)
  with ok inv log anchors_point_extends [OF _ grown] head_known_extends [OF _ grown] show "service_ok (s\<lparr>se_world := (se_world s)\<lparr>is_events := es, is_metrics := m\<rparr>\<rparr>)"
    by (auto simp: service_ok_def)
qed

text \<open>What \<open>anchor_sign\<close> adds to the anchors: nothing, or one that names the head it was given.\<close>

lemma mem_anchor_sign:
  assumes "anchor_sign (mem_anchor_job fresh now signer notary_url) h es as = (r, as')"
  shows "as' = as \<or> (\<exists>a. as' = as @ [a] \<and> an_last_event_id a = ev_id h \<and> an_root_hash a = ev_this_hash h)"
  using assms
  by (auto simp: anchor_sign_def mem_anchor_job_def mem_insert_anchor_def Let_def split: if_splits sum.splits)

lemma anchor_tick_keeps:
  assumes ok: "service_ok s"
  shows "service_ok (anchor_tick fresh now signer notary_url s)"
proof -
  let ?es = "is_events (se_world s)" and ?job = "mem_anchor_job fresh now signer notary_url"
  have inv: "mem_inv ?es"
    using ok by (simp add: service_ok_def)
  show ?thesis
  proof (cases "se_loop s")
    case AnchorIdle
    then show ?thesis
      using ok by (auto simp: anchor_tick_def mem_anchor_job_def Let_def service_ok_def mem.head_log [OF inv] head_known_def)
  next
    case (AnchorHead h)
    obtain r as where sign: "anchor_sign ?job h ?es (se_anchors s) = (r, as)"
      by (metis prod.exhaust)
    obtain e where e: "e \<in> set (mem_log ?es)" "ev_id e = ev_id h" "ev_this_hash e = ev_this_hash h"
      using ok AnchorHead by (auto simp: service_ok_def head_known_def)
    have "\<forall>a \<in> set as. a \<in> set (se_anchors s) \<or> an_last_event_id a = ev_id h \<and> an_root_hash a = ev_this_hash h"
      using mem_anchor_sign [OF sign] by auto
    moreover have "anchors_point (se_anchors s) (mem_log ?es)"
      using ok by (simp add: service_ok_def)
    ultimately have "anchors_point as (mem_log ?es)"
      using e unfolding anchors_point_def by metis
    with ok AnchorHead sign show ?thesis
      by (auto simp: anchor_tick_def Let_def service_ok_def head_known_def split: sum.split)
  next
    case (AnchorStored h a)
    obtain n es where mark: "mem_mark_anchored ?es (ev_ts h) (ev_id h) = (Inr n, es)"
      and es: "mem_inv es" "mem_log es = map (anchor_event (ev_ts h) (ev_id h)) (mem_log ?es)"
      using mem.mark_log [OF inv] by blast
    have tick: "anchor_tick fresh now signer notary_url s =
        s\<lparr>se_world := (se_world s)\<lparr>is_events := es\<rparr>, se_loop := AnchorIdle\<rparr>"
      using AnchorStored mark by (simp add: anchor_tick_def anchor_mark_def mem_anchor_job_def Let_def)
    have g: "immutable_part (anchor_event t i e) = immutable_part e" "ev_anchored e \<Longrightarrow> ev_anchored (anchor_event t i e)" for t i e
      by simp (simp add: anchor_event_def)
    have "service_ok (s\<lparr>se_world := (se_world s)\<lparr>is_events := es, is_metrics := is_metrics (se_world s)\<rparr>\<rparr>)"
      using flags_keep [OF ok es g] .
    then show ?thesis
      by (simp add: tick service_ok_def head_known_def)
  qed
qed

text \<open>Three ticks that nothing interrupts are one run of the job.\<close>

lemma anchor_ticks_run:
  assumes "se_loop s = AnchorIdle"
    and "anchor_run (mem_anchor_job fresh now signer notary_url) (is_events (se_world s)) (se_anchors s) = (Inr a, es, as)"
  defines "tick \<equiv> anchor_tick fresh now signer notary_url"
  shows "tick (tick (tick s)) = s\<lparr>se_world := (se_world s)\<lparr>is_events := es\<rparr>, se_anchors := as\<rparr>"
proof -
  let ?job = "mem_anchor_job fresh now signer notary_url" and ?es = "is_events (se_world s)"
  obtain h where head: "aj_chain_head ?job ?es = Inr (Some h)"
    using assms(2) by (auto simp: anchor_run_def split: sum.splits option.splits)
  obtain a' where sign: "anchor_sign ?job h ?es (se_anchors s) = (Inr a', as)" and mark: "snd (anchor_mark ?job h a' ?es) = es"
    using assms(2) head by (auto simp: anchor_run_def split: sum.splits prod.splits)
  have t1: "tick s = s\<lparr>se_loop := AnchorHead h\<rparr>"
    using assms(1) head by (simp add: tick_def anchor_tick_def Let_def)
  have t2: "tick (s\<lparr>se_loop := AnchorHead h\<rparr>) = s\<lparr>se_loop := AnchorStored h a', se_anchors := as\<rparr>"
    using sign by (simp add: tick_def anchor_tick_def Let_def)
  have "tick (s\<lparr>se_loop := AnchorStored h a', se_anchors := as\<rparr>) =
      s\<lparr>se_loop := AnchorIdle, se_anchors := as, se_world := (se_world s)\<lparr>is_events := es\<rparr>\<rparr>"
    using mark by (simp add: tick_def anchor_tick_def Let_def)
  with t1 t2 assms(1) show ?thesis
    by simp
qed

text \<open>What a request can do to the state: switch one hold flag, add one pending job, or replace the policy.\<close>

lemma legal_hold_effect:
  assumes setter: "ad_set_legal_hold dp = Some setter"
  shows "\<exists>hold. snd (handle_legal_hold dp i rq st) \<in> {st, st\<lparr>as_events := snd (setter (as_events st) i hold)\<rparr>}"
proof -
  define hold where "hold = (case ad_decode_hold dp (rq_body rq) of HoldBody h \<Rightarrow> h | _ \<Rightarrow> False)"
  obtain r es where "setter (as_events st) i hold = (r, es)"
    by (metis prod.exhaust)
  then have "snd (handle_legal_hold dp i rq st) \<in>
      {st, st\<lparr>as_events := snd (setter (as_events st) i hold)\<rparr>}"
    by (cases r; cases "ad_decode_hold dp (rq_body rq)")
      (simp_all add: handle_legal_hold_def setter Let_def hold_def)
  then show ?thesis by (rule exI)
qed

lemma create_export_effect:
  assumes create: "ad_create_job dp = create"
  shows "\<exists>j. job_status j = ''PENDING'' \<and>
     data_of (snd (handle_create_export dp rq st)) \<in>
       {data_of st, data_of (st\<lparr>as_exports := snd (create (as_exports st) j)\<rparr>)}"
proof (cases "ad_decode_export dp (rq_body rq)")
  case None
  have "\<exists>j. job_status j = ''PENDING''"
    by (metis export_job.select_convs(5))
  with None show ?thesis
    by (auto simp: handle_create_export_def)
next
  case (Some req)
  let ?up = "to_upper (ad_upper_table dp) (ce_format req)"
  let ?job = "\<lparr>job_id = ad_new_export_id dp, job_query = (if length (ce_query req) = 0 then bytes_of ''{}'' else ce_query req),
      job_format = (if ?up \<noteq> ''JSON'' \<and> ?up \<noteq> ''CSV'' then ''JSON'' else ?up),
      job_retention_days = (if ce_retention_days req \<le> 0 then 2555 else ce_retention_days req),
      job_status = ''PENDING'', job_row_count = 0, job_payload_ref = '''', job_chain_root = [],
      job_anchor_id = '''', job_created_at = zero_time, job_completed_at = zero_time\<rparr>"
  obtain r jobs where run: "create (as_exports st) ?job = (r, jobs)"
    by (metis prod.exhaust)
  have "data_of (snd (handle_create_export dp rq st)) = data_of (st\<lparr>as_exports := jobs\<rparr>)"
    using run by (cases r) (simp_all add: handle_create_export_def create Some Let_def data_of_bump)
  with run have "job_status ?job = ''PENDING'' \<and>
      data_of (snd (handle_create_export dp rq st)) \<in>
       {data_of st, data_of (st\<lparr>as_exports := snd (create (as_exports st) ?job)\<rparr>)}"
    by simp
  then show ?thesis by (rule exI)
qed

definition request_effect ::
  "('e \<Rightarrow> string \<Rightarrow> bool \<Rightarrow> go_error option \<times> 'e) \<Rightarrow> ('j \<Rightarrow> export_job \<Rightarrow> go_error option \<times> 'j) \<Rightarrow>
   'e \<times> 'j \<times> 'r \<Rightarrow> 'e \<times> 'j \<times> 'r \<Rightarrow> bool" where
  "request_effect setter create d d' \<longleftrightarrow>
     fst d' = fst d \<and> fst (snd d') = fst (snd d) \<or>
     (\<exists>i hold. fst d' = snd (setter (fst d) i hold)) \<and> fst (snd d') = fst (snd d) \<or>
     fst d' = fst d \<and> (\<exists>j. job_status j = ''PENDING'' \<and> fst (snd d') = snd (create (fst (snd d)) j))"

lemma request_effect_same: "data_of st' = data_of st \<Longrightarrow> request_effect setter create (data_of st) (data_of st')"
  by (simp add: request_effect_def)

lemma serve_effect:
  assumes setter: "ad_set_legal_hold dp = Some setter" and create: "ad_create_job dp = create"
    and run: "serve dp ae t rq st = (resp, st')"
  shows "request_effect setter create (data_of st) (data_of st')"
proof -
  let ?effect = "request_effect setter create"
  have "?effect (data_of st) (data_of (snd (handle_redaction_reload dp st)))"
    by (simp add: request_effect_def handle_redaction_reload_def data_of_def split: option.split prod.split)
  moreover have "?effect (data_of st) (data_of (snd (handle_legal_hold dp i rq st)))" for i
  proof -
    obtain hold where "snd (handle_legal_hold dp i rq st) \<in>
        {st, st\<lparr>as_events := snd (setter (as_events st) i hold)\<rparr>}"
      using legal_hold_effect [OF setter, of i rq st] by blast
    then show ?thesis
      by (fastforce simp: request_effect_def data_of_def)
  qed
  moreover have "?effect (data_of st) (data_of (snd (handle_create_export dp rq st)))"
    using create_export_effect [OF create, of rq st] by (auto simp: request_effect_def data_of_def)
  ultimately have "?effect (data_of st) (data_of (snd (dispatch dp ctx rq st)))" for ctx
    by (simp add: dispatch_def require_cases request_effect_same frame_simps split: route.split)
  then show ?thesis
    using run by (auto simp: serve_def request_effect_same split: sum.splits) (metis snd_conv)+
qed

lemma hold_keeps_anchored: "ev_anchored (set_hold i hold e) = ev_anchored e"
  by (simp add: set_hold_def)

lemma request_keeps:
  assumes ok: "service_ok s" and run: "serve (wire_api now files lib) ae t rq (api_view s) = (resp, st')"
  shows "service_ok (from_api s st')"
proof -
  let ?es = "is_events (se_world s)" and ?es' = "as_events st'"
  have inv: "mem_inv ?es"
    using ok by (simp add: service_ok_def)
  have effect: "?es' = ?es \<or> (\<exists>i hold. ?es' = snd (mem_set_legal_hold ?es i hold))"
    "as_exports st' = se_jobs s \<or>
      (\<exists>j. job_status j = ''PENDING'' \<and> as_exports st' = snd (mem_create_job now (se_jobs s) j))"
    using serve_effect [OF _ _ run]
    by (fastforce simp: wire_api_def request_effect_def data_of_def api_view_def)+
  have "\<exists>g. mem_inv ?es' \<and> mem_log ?es' = map g (mem_log ?es) \<and>
      (\<forall>e. immutable_part (g e) = immutable_part e \<and> (ev_anchored e \<longrightarrow> ev_anchored (g e)))"
    using effect(1)
  proof
    assume "?es' = ?es"
    with inv show ?thesis by (intro exI [of _ id]) simp
  next
    assume "\<exists>i hold. ?es' = snd (mem_set_legal_hold ?es i hold)"
    then obtain i hold where es': "?es' = snd (mem_set_legal_hold ?es i hold)"
      by blast
    show ?thesis
    proof (cases "i \<in> ev_id ` set (mem_log ?es)")
      case True
      with mem.hold_present [OF inv True, of hold] es' show ?thesis
        by (intro exI [of _ "set_hold i hold"]) (auto simp: hold_keeps_anchored)
    next
      case False
      with mem.hold_missing [OF inv False, of hold] es' inv show ?thesis
        by (intro exI [of _ id]) simp
    qed
  qed
  then obtain g where es': "mem_inv ?es'" "mem_log ?es' = map g (mem_log ?es)"
    and g: "\<And>e. immutable_part (g e) = immutable_part e" "\<And>e. ev_anchored e \<Longrightarrow> ev_anchored (g e)"
    by blast
  have "\<forall>j \<in> ran (as_exports st'). job_status j = ''PENDING''"
    using effect(2)
  proof
    assume "\<exists>j. job_status j = ''PENDING'' \<and> as_exports st' = snd (mem_create_job now (se_jobs s) j)"
    then obtain j where "job_status j = ''PENDING''" "as_exports st' = snd (mem_create_job now (se_jobs s) j)"
      by blast
    with ok show ?thesis
      by (auto simp: service_ok_def mem_create_job_def Let_def ran_def split: option.splits if_splits)
  qed (use ok in \<open>simp add: service_ok_def\<close>)
  with flags_keep [OF ok es' g, of "is_metrics (se_world (from_api s st'))"] show ?thesis
    by (simp add: service_ok_def from_api_def)
qed

lemma service_step_keeps: "service_step s s' \<Longrightarrow> service_ok s \<Longrightarrow> service_ok s'"
proof (induction rule: service_step.induct)
  case (step_consume dp fresh now bucket storage days hold tlib s topic unmarshal error_text msg res w)
  then show ?case
    by (metis app_handler_ingest consume_keeps prod.collapse prod.inject)
qed (simp_all add: anchor_tick_keeps request_keeps)

lemma service_start: "service_ok (start_service r)"
  by (simp add: service_ok_def start_service_def empty_world_def anchors_point_def head_known_def)

interpretation running: step_system "\<lambda>s. \<exists>r. s = start_service r" service_step service_ok
  by unfold_locales (auto intro: service_start service_step_keeps)

lemma service_run_keeps: "service_step\<^sup>*\<^sup>* (start_service r) s \<Longrightarrow> service_ok s"
  by (blast intro: running.reachable_ok)


section \<open>Properties\<close>

text \<open>
  Property C17. A server built outside development mode has the real object store, the real signing key and
  the real broker, each as its constructor returned it from the AWS configuration and the settings, with
  bucket, region, key and brokers set, and it signs with the configured key: there is no silent fallback to
  a fake client. Requests are authenticated with the configured secret, which is not empty. The stores are the exception: they are in memory exactly when no database is configured or it
  could not be opened.
\<close>

theorem production_uses_real_clients:
  assumes "build en cfg = Inr srv" and "\<not> dev_mode en"
  shows "cfg_payload_bucket cfg \<noteq> '''' \<and> aws_region en \<noteq> '''' \<and> cfg_kms_key_id cfg \<noteq> '''' \<and>
    cfg_kafka_brokers cfg \<noteq> [] \<and> cfg_kafka_topic cfg \<noteq> '''' \<and>
    (\<exists>c k rc. be_aws_for_s3 en = Inr c \<and> sv_s3 srv = RealClient c \<and>
       be_aws_for_kms en = Inr (kc_service k) \<and> kc_key_id k = cfg_kms_key_id cfg \<and> sv_signer srv = RealClient k \<and>
       new_kafka_consumer cfg = Inr rc \<and> sv_consumer srv = RealClient rc) \<and>
    \<not> sv_bypass srv \<and> sv_secret srv = getenv (be_env en) ''SERVICE_TOKEN_SECRET'' \<and> sv_secret srv \<noteq> '''' \<and>
    (sv_stores srv = MemStores \<longleftrightarrow> cfg_db_url cfg = '''' \<or> (\<exists>err. be_open_db en (cfg_db_url cfg) = Inl err))"
proof -
  obtain s3 signer consumer where parts: "build_s3 en cfg False = Inr s3" "build_kms en cfg False = Inr signer"
      "build_kafka cfg False = Inr consumer"
    and srv: "sv_s3 srv = s3" "sv_signer srv = signer" "sv_consumer srv = consumer"
      "sv_stores srv = (if cfg_db_url cfg \<noteq> '''' then open_postgres_or_fallback en (cfg_db_url cfg) else MemStores)"
      "secret_from_env (be_env en) (be_testing en) = Secret (sv_secret srv) (sv_bypass srv)"
    using assms by (auto simp: build_def and_then_def Let_def split: sum.splits secret_choice.splits)
  have "\<not> sv_bypass srv \<and> sv_secret srv = getenv (be_env en) ''SERVICE_TOKEN_SECRET'' \<and> sv_secret srv \<noteq> ''''"
    using srv(5) assms(2) by (auto simp: secret_from_env_def dev_mode_def Let_def split: if_splits)
  moreover have "cfg_payload_bucket cfg \<noteq> '''' \<and> aws_region en \<noteq> '''' \<and> (\<exists>c. be_aws_for_s3 en = Inr c \<and> s3 = RealClient c)"
    using parts(1) by (auto simp: build_s3_def new_s3_client_def split: if_splits sum.splits)
  moreover have "cfg_kms_key_id cfg \<noteq> '''' \<and> (\<exists>k. be_aws_for_kms en = Inr (kc_service k) \<and>
      kc_key_id k = cfg_kms_key_id cfg \<and> signer = RealClient k)"
    using parts(2) by (auto simp: build_kms_def new_kms_client_def split: if_splits sum.splits)
  moreover have "cfg_kafka_brokers cfg \<noteq> [] \<and> (\<exists>rc. new_kafka_consumer cfg = Inr rc \<and> consumer = RealClient rc)"
    using parts(3) by (auto simp: build_kafka_def split: if_splits sum.splits)
  moreover from this have "cfg_kafka_topic cfg \<noteq> ''''"
    by (auto simp: new_kafka_consumer_def kafka_new_def split: if_splits)
  moreover have "open_postgres_or_fallback en url = MemStores \<longleftrightarrow> (\<exists>err. be_open_db en url = Inl err)" for url
    by (simp add: open_postgres_or_fallback_def split: sum.split)
  ultimately show ?thesis
    by (auto simp: srv(1-4))
qed


definition sample_env :: "string \<Rightarrow> (nat, nat) build_env" where
  "sample_env dev =
     \<lparr>be_env = [''DEV_MODE'' \<mapsto> dev, ''AWS_REGION'' \<mapsto> ''eu-west-1'', ''SERVICE_TOKEN_SECRET'' \<mapsto> ''s3cret''],
      be_testing = False, be_open_db = (\<lambda>url. Inl (ErrMsg ''refused'')),
      be_aws_for_s3 = Inr 1, be_aws_for_kms = Inr 2, be_files = (\<lambda>path. Missing)\<rparr>"

definition sample_config :: config where
  "sample_config = (load_config (\<lambda>s. None) (\<lambda>s. s) Map.empty)
     \<lparr>cfg_kafka_brokers := [''k:9092''], cfg_kafka_topic := ''audit.v1'', cfg_db_url := ''postgres://db'',
      cfg_payload_bucket := ''b'', cfg_kms_key_id := ''key'', cfg_redaction_policy_path := ''''\<rparr>"

theorem production_uses_real_clients_witness:
  "\<exists>srv. build (sample_env '''') sample_config = Inr srv \<and> sv_s3 srv = RealClient 1 \<and> sv_stores srv = MemStores"
proof -
  have prod: "\<not> dev_mode (sample_env '''')"
    by (simp add: dev_mode_def sample_env_def getenv_def)
  have "\<exists>srv. build (sample_env '''') sample_config = Inr srv"
    by (simp add: build_def Let_def prod and_then_def build_s3_def build_kms_def build_kafka_def sample_env_def
        sample_config_def new_kafka_consumer_def kafka_new_def new_reloader_def load_file_def aws_region_def getenv_def secret_from_env_def
        new_s3_client_def new_kms_client_def)
  then obtain srv where srv: "build (sample_env '''') sample_config = Inr srv"
    by blast
  from production_uses_real_clients [OF srv prod] srv show ?thesis
    by (auto simp: sample_env_def sample_config_def)
qed

text \<open>A run with one message, one anchor and one export request, for closed instances.\<close>

definition no_policy :: reloader where
  "no_policy = \<lparr>rd_policy = None, rd_path = ''''\<rparr>"

definition policy_deps :: "time \<Rightarrow> (mem_store, fake_s3, dead_letter_store) deps" where
  "policy_deps now = mem_deps ''f'' now ''b'' ''STANDARD'' 2555 False (Some (reloader_apply sample_lib no_policy)) ''audit.v1''
     (\<lambda>b. Inr sample_envelope) (\<lambda>e. '''')"

definition sample_service :: "time \<Rightarrow> service" where
  "sample_service now =
     (let tick = anchor_tick ''i'' now (\<lambda>root. Inr (root, ''k'')) '''' in
      tick (tick (tick ((start_service no_policy)
        \<lparr>se_world := snd (app_handler (policy_deps now) sample_message empty_world)\<rparr>))))"

lemma ticks_run:
  assumes "service_step\<^sup>*\<^sup>* s s'"
  shows "service_step\<^sup>*\<^sup>* s (anchor_tick fresh now signer url (anchor_tick fresh now signer url (anchor_tick fresh now signer url s')))"
  using assms step_anchor by (meson rtranclp.rtrancl_into_rtrancl)

lemma sample_service_run: "service_step\<^sup>*\<^sup>* (start_service no_policy) (sample_service now)"
proof -
  let ?s1 = "(start_service no_policy)\<lparr>se_world := snd (app_handler (policy_deps now) sample_message empty_world)\<rparr>"
  have policy: "se_policy (start_service no_policy) = no_policy" "se_world (start_service no_policy) = empty_world"
    by (simp_all add: start_service_def)
  have "service_step (start_service no_policy) ?s1"
  proof (rule step_consume)
    show "policy_deps now = mem_deps ''f'' now ''b'' ''STANDARD'' 2555 False
        (Some (reloader_apply sample_lib (se_policy (start_service no_policy)))) ''audit.v1''
        (\<lambda>b. Inr sample_envelope) (\<lambda>e. '''')"
      by (simp only: policy policy_deps_def)
    show "app_handler (policy_deps now) sample_message (se_world (start_service no_policy)) =
        (None, snd (app_handler (policy_deps now) sample_message empty_world))"
      by (simp add: policy app_handler_ingest)
  qed
  then have "service_step\<^sup>*\<^sup>* (start_service no_policy) ?s1" ..
  then show ?thesis
    unfolding sample_service_def Let_def by (rule ticks_run)
qed

lemma sample_service_row:
  "\<exists>row. mem_log (is_events (snd (app_handler (policy_deps now) sample_message empty_world))) = [row] \<and> ev_id row = ''a''"
proof -
  let ?dp = "policy_deps now"
  have steps: "decode_and_validate (dp_unmarshal ?dp) (im_value sample_message) = Inr sample_envelope"
    "redact_payload ?dp sample_envelope [7] = Inr ([7], False)"
    using sample_steps(1) [of now]
    by (simp_all add: policy_deps_def sample_deps_def mem_deps_def redact_payload_def reloader_apply_def no_policy_def
        policy_apply_def)
  have put: "put_payload ?dp sample_envelope [7] empty_world =
      (Inr ''a'', empty_world\<lparr>is_objects := [(''b/a'', stored_object now ''b'' (payload_options ?dp sample_envelope) [7])]\<rparr>)"
    by (simp add: put_payload_def policy_deps_def mem_deps_def put_adapter_def s3_put_def empty_world_def
        payload_options_def sample_envelope_def object_path_def Let_def)
  have inserted: "ir_inserted (fst (ingest_message ?dp sample_message empty_world))"
    using sample_steps(2,4) steps put
    by (simp add: ingest_message_def ingest_decoded_def prepare_decoded_def Let_def insert_row_def policy_deps_def mem_deps_def
        mem_insert_chained_def empty_world_def new_event_store_def bump_def)
  have inv: "mem_inv (is_events empty_world)" and log: "mem_log (is_events empty_world) = []"
    by (simp_all add: empty_world_def)
  obtain ev row where "mem_log (is_events (snd (ingest_message ?dp sample_message empty_world))) = log_insert row []"
      "ev_id row = env_id ev" "Inr sample_envelope = Inr ev"
    using mem_ingest.ingest_inserted [OF inv surjective_pairing [of "ingest_message ?dp sample_message empty_world", unfolded policy_deps_def]]
      inserted log by (auto simp: policy_deps_def mem_deps_def)
  then show ?thesis
    by (auto simp: app_handler_ingest log_insert_def sample_envelope_def)
qed


lemma sample_service_anchor:
  "length (mem_log (is_events (se_world (sample_service now)))) = 1 \<and> length (se_anchors (sample_service now)) = 1"
proof -
  let ?s1 = "(start_service no_policy)\<lparr>se_world := snd (app_handler (policy_deps now) sample_message empty_world)\<rparr>"
  let ?es = "is_events (se_world ?s1)" and ?signer = "\<lambda>root. Inr (root, ''k'')"
  have "service_step\<^sup>*\<^sup>* (start_service no_policy) ?s1"
    by (rule r_into_rtranclp, rule step_consume [where dp = "policy_deps now" and tlib = sample_lib])
      (simp_all add: policy_deps_def start_service_def app_handler_ingest prod_eq_iff)
  from service_run_keeps [OF this] have inv: "mem_inv ?es" and rows: "\<forall>e \<in> set (mem_log ?es). well_formed_row e"
    by (simp_all add: service_ok_def)
  obtain row where row: "mem_log ?es = [row]"
    using sample_service_row [of now] by auto
  have "length (ev_this_hash row) = 32"
    using rows row by (simp add: well_formed_row_def)
  then obtain a es as where run: "anchor_run (mem_anchor_job ''i'' now ?signer '''') ?es [] = (Inr a, es, as)"
    and after: "length (mem_log es) = 1" "length as = 1"
    using mem_anchoring.run_success [OF inv, of "''i''" now ?signer "''''" "ev_this_hash row" "''k''" "[]"] row
    by (auto simp: mem_anchor_job_def)
  have "sample_service now = ?s1\<lparr>se_world := (se_world ?s1)\<lparr>is_events := es\<rparr>, se_anchors := as\<rparr>"
    unfolding sample_service_def Let_def
    by (rule anchor_ticks_run) (use run in \<open>simp_all add: start_service_def\<close>)
  with after show ?thesis
    by simp
qed

text \<open>
  Property C15. Every row that a running service in development mode, over the in-memory stores, has stored
  is well formed: whatever the order of messages, anchor runs and requests, its id is not empty and occurs
  once, its time is set, its three hashes have 32 bytes and its own hash is the hash of its canonical bytes.
  (Over PostgreSQL the last part fails where a column type changes a hashed value: theory Postgres says
  exactly when.)
\<close>

theorem service_rows_well_formed:
  assumes "service_step\<^sup>*\<^sup>* (start_service r) s"
  shows "distinct (map ev_id (mem_log (is_events (se_world s)))) \<and>
    (\<forall>e \<in> set (mem_log (is_events (se_world s))). ev_id e \<noteq> '''' \<and> \<not> is_zero (ev_ts e) \<and>
       length (ev_payload_hash e) = 32 \<and> length (ev_prev_hash e) = 32 \<and> length (ev_this_hash e) = 32 \<and>
       ev_this_hash e = event_hash e)"
  using service_run_keeps [OF assms] mem_log_distinct
  by (auto simp: service_ok_def well_formed_row_def hash_ok_def)

theorem service_rows_well_formed_witness:
  "\<exists>e. mem_log (is_events (se_world (sample_service (Time 9)))) = [e] \<and> ev_this_hash e = event_hash e \<and>
     length (ev_prev_hash e) = 32"
proof -
  obtain e where "mem_log (is_events (se_world (sample_service (Time 9)))) = [e]"
    using sample_service_anchor [of "Time 9"] by (auto simp: length_Suc_conv)
  with service_rows_well_formed [OF sample_service_run, of "Time 9"] show ?thesis
    by simp
qed

text \<open>
  The administrator's integrity sweep never reports an anchor mismatch: after any run of the
  service, for every window, it returns a report, and each anchor in the window names a stored row whose
  hash is the anchored root. In particular no late message, hold or re-anchoring invalidates an anchor.
\<close>

theorem service_anchors_check_out:
  assumes "service_step\<^sup>*\<^sup>* (start_service r) s" and "\<forall>k. \<not> cancelled k"
  shows "\<exists>rep. verify_window cancelled signer now s lo hi = Some (Inr rep) \<and> rp_anchor_mismatches rep = 0 \<and>
    rp_anchor_count rep = int (length [a \<leftarrow> se_anchors s. in_window lo hi (an_anchored_at a)])"
proof -
  let ?es = "is_events (se_world s)"
  have inv: "mem_inv ?es" and ts: "\<forall>e \<in> set (mem_log ?es). \<not> is_zero (ev_ts e)"
    and points: "anchors_point (se_anchors s) (mem_log ?es)"
    using service_run_keeps [OF assms(1)] by (auto simp: service_ok_def well_formed_row_def)
  have fine: "\<not> anchor_mismatch (mem_get ?es) a" if a: "a \<in> set (se_anchors s)" for a
  proof -
    obtain e where e: "e \<in> set (mem_log ?es)" "ev_id e = an_last_event_id a" "ev_this_hash e = an_root_hash a"
      using points a by (auto simp: anchors_point_def)
    with mem.get_member [OF inv e(1)] show ?thesis
      by (simp add: anchor_mismatch_def)
  qed
  let ?anchs = "sort_key an_anchored_at [a \<leftarrow> se_anchors s. in_window lo hi (an_anchored_at a)]"
  have "anchor_mismatches (mem_get ?es) ?anchs 0 = 0"
    using fine by (simp add: anchor_mismatches_count filter_empty_conv)
  moreover have "\<not> cancelled k" for k
    using assms(2) by blast
  ultimately show ?thesis
    by (simp add: verify_window_def mem.sweep_returns [OF inv ts] report_frames report_anchors_def report_chain_fields
        mem_list_anchors_window new_report_def)
qed

theorem service_anchors_check_out_witness:
  "\<exists>rep. verify_window (\<lambda>k. False) (\<lambda>root. Inl ErrContext) (Time 20) (sample_service (Time 9)) zero_time zero_time =
      Some (Inr rep) \<and> rp_anchor_mismatches rep = 0 \<and> rp_anchor_count rep = 1"
proof -
  have "in_window zero_time zero_time t" for t
    by (simp add: in_window_def zero_time_def is_zero_def)
  with service_anchors_check_out [OF sample_service_run, of "\<lambda>k. False" "\<lambda>root. Inl ErrContext" "Time 20" "Time 9"
      zero_time zero_time] sample_service_anchor [of "Time 9"] show ?thesis
    by simp
qed

text \<open>
  Property C38. No export is ever produced: in every run of the service a job that a client can look up is
  still \<open>PENDING\<close>, because nothing the service runs calls the export runner.
\<close>

theorem export_jobs_stay_pending:
  assumes "service_step\<^sup>*\<^sup>* (start_service r) s" and "mem_get_job (se_jobs s) i = Inr j"
  shows "job_status j = ''PENDING''"
proof -
  have "j \<in> ran (se_jobs s)"
    using assms(2) by (auto simp: mem_get_job_def ran_def split: option.splits)
  with service_run_keeps [OF assms(1)] show ?thesis
    by (simp add: service_ok_def)
qed


definition export_api :: "(mem_store, job_store, reloader) api_deps" where
  "export_api =
     \<lparr>ad_get = mem_get, ad_list = mem_list, ad_set_legal_hold = None, ad_verify_window = None,
      ad_presign = None, ad_payload_bucket = '''', ad_create_job = mem_create_job zero_time,
      ad_get_job = mem_get_job, ad_redactor_reload = None,
      ad_valid_id = (\<lambda>i. True), ad_fmt_time = (\<lambda>t. ''t''), ad_parse_time = (\<lambda>s. Inr (Time 7)),
      ad_error_text = (\<lambda>e. ''''), ad_new_export_id = ''x'', ad_upper_table = (\<lambda>s. s),
      ad_decode_export = (\<lambda>b. Some \<lparr>ce_query = [], ce_format = ''csv'', ce_retention_days = 0\<rparr>),
      ad_decode_hold = (\<lambda>b. MalformedBody)\<rparr>"

definition export_request :: request where
  "export_request = \<lparr>rq_method = ''POST'', rq_path = ''/v1/exports'', rq_query = (\<lambda>k. ''''),
     rq_authorization = '''', rq_body = []\<rparr>"

lemma export_request_served:
  "\<exists>j st. serve (wire_api (Time 5) (\<lambda>p. Missing) export_api) (sample_auth\<lparr>ae_bypass := True\<rparr>) (Time 5) export_request
      (api_view (start_service no_policy)) =
    (write_json 202 (VObj [(''id'', VStr ''x''), (''status'', VStr ''PENDING'')]), st) \<and>
    mem_get_job (as_exports st) ''x'' = Inr j \<and> job_format j = ''CSV''"
proof -
  have route: "route_of ''POST'' ''/v1/exports'' = CreateExportRoute"
    by (simp add: route_of_def path_route_def clean_path_def Let_def)
  have up: "to_upper (\<lambda>s. s) ''csv'' = ''CSV''"
    by code_simp
  have role: "has_any (Some [role_admin \<mapsto> True, role_reader \<mapsto> True]) [role_admin]"
    unfolding has_any_admin by (simp add: has_role_def role_admin_def role_reader_def)
  show ?thesis
    using route up role
    by (simp add: serve_def authenticate_def sample_auth_def export_request_def dispatch_def require_def
        handle_create_export_def export_api_def wire_api_def Let_def mem_create_job_def
        api_view_def start_service_def api_bump_def mem_get_job_def)
qed

theorem export_jobs_stay_pending_witness:
  "\<exists>s j. service_step\<^sup>*\<^sup>* (start_service no_policy) s \<and> mem_get_job (se_jobs s) ''x'' = Inr j \<and>
     job_format j = ''CSV'' \<and> job_status j = ''PENDING''"
proof -
  obtain resp st j where served: "serve (wire_api (Time 5) (\<lambda>p. Missing) export_api) (sample_auth\<lparr>ae_bypass := True\<rparr>)
      (Time 5) export_request (api_view (start_service no_policy)) = (resp, st)"
    and j: "mem_get_job (as_exports st) ''x'' = Inr j" "job_format j = ''CSV''"
    using export_request_served by blast
  let ?s = "from_api (start_service no_policy) st"
  have run: "service_step\<^sup>*\<^sup>* (start_service no_policy) ?s"
    using step_request [OF served] by (rule r_into_rtranclp)
  moreover have "mem_get_job (se_jobs ?s) ''x'' = Inr j"
    using j(1) by (simp add: from_api_def)
  moreover from export_jobs_stay_pending [OF run this] have "job_status j = ''PENDING''" .
  ultimately show ?thesis
    using j(2) by blast
qed

end
