(* ===== verification/Ledger.thy ===== *)
theory Ledger
  imports Forks Systems
begin

text \<open>
  The abstract specification of the shared database: what the whole service, any number of replicas with
  all their faults, may ever do to it. A \<open>ledger_step\<close> adds a row linked to the newest one (a late row may
  be linked to the newest one of an earlier state), adds an anchor of a stored row, sets the anchored flags
  an anchor covers, switches a hold, or adds a dead letter or a new pending export job; nothing else. The
  lemmas show what every sequence of such steps keeps. Theory Fleet shows that the replicas refine it.
\<close>

section \<open>The specification\<close>

text \<open>
  The columns of a row are read back as the codec left them; a column type that returns a value returns it
  again when it is passed in (a normalised uuid is normal, a rounded timestamp is round).
\<close>

definition steady_codec :: "pg_codec \<Rightarrow> bool" where
  "steady_codec cd \<longleftrightarrow>
     (\<forall>s t. cd_uuid cd s = Inr t \<longrightarrow> cd_uuid cd t = Inr t) \<and> (\<forall>s t. cd_time cd s = Inr t \<longrightarrow> cd_time cd t = Inr t)"

text \<open>An event as ingest hands it to the store: not yet anchored, with a 32-byte payload hash and a key.\<close>

definition admissible_event :: "event \<Rightarrow> bool" where
  "admissible_event e \<longleftrightarrow>
     \<not> ev_anchored e \<and> length (ev_payload_hash e) = 32 \<and> \<not> is_zero (ev_ts e) \<and> ev_id e \<noteq> ''''"

text \<open>The row that the event \<open>e\<close> becomes when its transaction sees \<open>rows\<close>.\<close>

definition stored_as :: "pg_codec \<Rightarrow> event list \<Rightarrow> event \<Rightarrow> event result" where
  "stored_as cd rows e =
     encode_row cd (link_event (chain_hash_fn e) (tip_of rows) e)"

text \<open>A job as the handler creates it: pending, without any result.\<close>

definition pending_job :: "pg_codec \<Rightarrow> export_job \<Rightarrow> bool" where
  "pending_job cd j \<longleftrightarrow> cd_text cd ''PENDING'' = Inr (job_status j) \<and> job_row_count j = 0 \<and> job_payload_ref j = '''' \<and>
     job_chain_root j = [] \<and> job_anchor_id j = '''' \<and> job_completed_at j = zero_time"

inductive ledger_step :: "pg_codec \<Rightarrow> pg_db \<Rightarrow> pg_db \<Rightarrow> bool" for cd :: pg_codec where
  add_row: "admissible_event e \<Longrightarrow> m \<le> length (pg_events db) \<Longrightarrow> stored_as cd (take m (pg_events db)) e = Inr r \<Longrightarrow>
     admits_snapshot (pg_events db) m r \<Longrightarrow>
     ledger_step cd db (db\<lparr>pg_events := pg_events db @ [r]\<rparr>)"
| hold_row: "ledger_step cd db (db\<lparr>pg_events := map (set_hold i hold) (pg_events db)\<rparr>)"
| add_anchor: "r \<in> set (pg_events db) \<Longrightarrow> an_last_event_id a = ev_id r \<Longrightarrow> an_last_event_ts a = ev_ts r \<Longrightarrow>
     an_root_hash a = ev_this_hash r \<Longrightarrow> cd_time cd zero_time = Inr (an_anchored_at a) \<Longrightarrow>
     ledger_step cd db (db\<lparr>pg_anchors := pg_anchors db @ [a]\<rparr>)"
| mark_rows: "a \<in> set (pg_anchors db) \<Longrightarrow>
     ledger_step cd db (db\<lparr>pg_events := map (anchor_event (an_last_event_ts a) (an_last_event_id a)) (pg_events db)\<rparr>)"
| add_dead: "ledger_step cd db (db\<lparr>pg_dead := pg_dead db @ [dl]\<rparr>)"
| add_job: "pending_job cd j \<Longrightarrow> job_id j \<notin> job_id ` set (pg_jobs db) \<Longrightarrow>
     ledger_step cd db (db\<lparr>pg_jobs := pg_jobs db @ [j]\<rparr>)"

inductive_cases ledger_stepE: "ledger_step cd db db'"

section \<open>What only grows\<close>

definition grows :: "pg_db \<Rightarrow> pg_db \<Rightarrow> bool" where
  "grows db db' \<longleftrightarrow>
     prefix (map immutable_part (pg_events db)) (map immutable_part (pg_events db')) \<and>
     (\<forall>k < length (pg_events db). ev_anchored (pg_events db ! k) \<longrightarrow> ev_anchored (pg_events db' ! k)) \<and>
     prefix (pg_anchors db) (pg_anchors db') \<and> prefix (pg_jobs db) (pg_jobs db') \<and> prefix (pg_dead db) (pg_dead db')"

lemma grows_refl [simp, intro]: "grows db db"
  by (simp add: grows_def)

lemma grows_length: "grows db db' \<Longrightarrow> length (pg_events db) \<le> length (pg_events db')"
  by (auto simp: grows_def dest: prefix_length_le)

lemma grows_trans:
  assumes "grows db1 db2" and "grows db2 db3"
  shows "grows db1 db3"
  using assms grows_length [OF assms(1)] by (auto simp: grows_def intro: prefix_order.trans)

lemma map_immutable_flags:
  "(\<And>e. immutable_part (g e) = immutable_part e) \<Longrightarrow> map immutable_part (map g rows) = map immutable_part rows"
  by simp

lemma grows_flags:
  assumes "\<And>e. immutable_part (g e) = immutable_part e" and "\<And>e. ev_anchored e \<Longrightarrow> ev_anchored (g e)"
  shows "grows db (db\<lparr>pg_events := map g (pg_events db)\<rparr>)"
  using assms by (simp add: grows_def o_def)

lemma set_hold_anchored [simp]: "ev_anchored (set_hold i hold e) = ev_anchored e"
  by (simp add: set_hold_def)

lemma anchor_event_anchored: "ev_anchored (anchor_event t i e) \<longleftrightarrow> ev_anchored e \<or> covered_by t i e"
  by (simp add: anchor_event_def)

lemma ledger_step_grows: "ledger_step cd db db' \<Longrightarrow> grows db db'"
proof (erule ledger_stepE)
  fix r assume "db' = db\<lparr>pg_events := pg_events db @ [r]\<rparr>"
  then show ?thesis
    by (simp add: grows_def nth_append)
next
  fix i hold assume "db' = db\<lparr>pg_events := map (set_hold i hold) (pg_events db)\<rparr>"
  then show ?thesis
    by (auto intro: grows_flags)
next
  fix a assume "db' = db\<lparr>pg_events := map (anchor_event (an_last_event_ts a) (an_last_event_id a)) (pg_events db)\<rparr>"
  then show ?thesis
    by (auto intro: grows_flags simp: anchor_event_anchored)
qed (simp_all add: grows_def)

lemma ledger_run_grows: "(ledger_step cd)\<^sup>*\<^sup>* db db' \<Longrightarrow> grows db db'"
  by (induction rule: rtranclp_induct) (auto dest: ledger_step_grows intro: grows_trans)

text \<open>A stored row stays, up to its flags.\<close>

lemma grows_row:
  assumes "grows db db'" and "r \<in> set (pg_events db)"
  shows "\<exists>r' \<in> set (pg_events db'). immutable_part r' = immutable_part r"
proof -
  have "immutable_part r \<in> immutable_part ` set (pg_events db')"
    using assms set_mono_prefix [of "map immutable_part (pg_events db)" "map immutable_part (pg_events db')"]
    by (auto simp: grows_def)
  then show ?thesis
    by (metis imageE)
qed

section \<open>What every state of the database satisfies\<close>

text \<open>
  The \<open>k\<close>-th row is, up to its flags, what the column types made of an event linked to the newest of the rows
  before it, or, if it is late, of some of the first of them.
\<close>

definition inserted_at :: "pg_codec \<Rightarrow> event list \<Rightarrow> nat \<Rightarrow> bool" where
  "inserted_at cd rows k \<longleftrightarrow>
     (\<exists>m \<le> k. \<exists>e r. admissible_event e \<and> stored_as cd (take m rows) e = Inr r \<and>
        immutable_part (rows ! k) = immutable_part r \<and> (tip_of (take m rows) = tip_of (take k rows) \<or> late rows k))"

definition anchors_sound :: "pg_db \<Rightarrow> bool" where
  "anchors_sound db \<longleftrightarrow>
     (\<forall>a \<in> set (pg_anchors db). \<exists>r \<in> set (pg_events db).
        ev_id r = an_last_event_id a \<and> ev_ts r = an_last_event_ts a \<and> ev_this_hash r = an_root_hash a)"

definition flags_covered :: "pg_db \<Rightarrow> bool" where
  "flags_covered db \<longleftrightarrow>
     (\<forall>r \<in> set (pg_events db). ev_anchored r \<longrightarrow>
        (\<exists>a \<in> set (pg_anchors db). covered_by (an_last_event_ts a) (an_last_event_id a) r))"

text \<open>The anchor job leaves the time of an anchor zero, and the insert passes it on: no anchor is dated.\<close>

definition anchors_undated :: "pg_codec \<Rightarrow> pg_db \<Rightarrow> bool" where
  "anchors_undated cd db \<longleftrightarrow> (\<forall>a \<in> set (pg_anchors db). cd_time cd zero_time = Inr (an_anchored_at a))"

definition ledger_ok :: "pg_codec \<Rightarrow> pg_db \<Rightarrow> bool" where
  "ledger_ok cd db \<longleftrightarrow> pg_inv db \<and> (\<forall>k < length (pg_events db). inserted_at cd (pg_events db) k) \<and>
     anchors_sound db \<and> flags_covered db \<and> anchors_undated cd db"

lemma ledger_okI:
  "pg_inv db \<Longrightarrow> (\<And>k. k < length (pg_events db) \<Longrightarrow> inserted_at cd (pg_events db) k) \<Longrightarrow> anchors_sound db \<Longrightarrow>
   flags_covered db \<Longrightarrow> anchors_undated cd db \<Longrightarrow> ledger_ok cd db"
  by (simp add: ledger_ok_def)

lemma ledger_okD:
  assumes "ledger_ok cd db"
  shows "pg_inv db" and "k < length (pg_events db) \<Longrightarrow> inserted_at cd (pg_events db) k"
    and "anchors_sound db" and "flags_covered db" and "anchors_undated cd db"
  using assms by (simp_all add: ledger_ok_def)

lemma encode_row_fields:
  "encode_row cd e = Inr r \<Longrightarrow> ev_anchored r = ev_anchored e \<and> ev_payload_hash r = ev_payload_hash e \<and>
     ev_prev_hash r = ev_prev_hash e \<and> ev_this_hash r = ev_this_hash e \<and>
     cd_uuid cd (ev_id e) = Inr (ev_id r) \<and> cd_time cd (ev_ts e) = Inr (ev_ts r)"
  by (auto simp: encode_row_def and_then_Inr)

lemma stored_as_fields:
  assumes "stored_as cd rows e = Inr r"
  shows "ev_anchored r = ev_anchored e" "ev_payload_hash r = ev_payload_hash e"
    "ev_prev_hash r = tip_of rows" "ev_this_hash r = chain_hash_fn e (ev_prev_hash r)"
    "cd_uuid cd (ev_id e) = Inr (ev_id r)" "cd_time cd (ev_ts e) = Inr (ev_ts r)"
  using encode_row_fields [OF assms [unfolded stored_as_def]] by (simp_all add: link_event_def)

text \<open>The newest row is the same whatever the flags are.\<close>

lemma insort_key_map:
  "(\<And>y. k (g y) = k y) \<Longrightarrow> insort_key k (g x) (map g xs) = map g (insort_key k x xs)"
  by (induction xs) simp_all

lemma sort_key_map: "(\<And>y. k (g y) = k y) \<Longrightarrow> sort_key k (map g xs) = map g (sort_key k xs)"
  by (induction xs) (simp_all add: insort_key_map)

lemma chain_tip_map: "(\<And>y. ev_this_hash (g y) = ev_this_hash y) \<Longrightarrow> chain_tip (map g l) = chain_tip l"
  by (simp add: chain_tip_def last_map)

lemma tip_of_cong:
  assumes "map immutable_part rows = map immutable_part rows'"
  shows "tip_of rows = tip_of rows'"
proof -
  have "ev_this_hash (immutable_part y) = ev_this_hash y" for y
    by (simp add: immutable_part_def)
  then have "tip_of xs = tip_of (map immutable_part xs)" for xs
    by (simp add: sort_key_map [of ev_key immutable_part] chain_tip_map)
  from this [of rows] this [of rows'] show ?thesis
    by (simp add: assms)
qed

lemma late_cong:
  assumes "map immutable_part rows = map immutable_part rows'" and "k < length rows"
  shows "late rows k \<longleftrightarrow> late rows' k"
proof -
  have "late xs k \<longleftrightarrow> list_ex (\<lambda>x. ev_key (map immutable_part xs ! k) < ev_key x) (take k (map immutable_part xs))"
    if "k < length xs" for xs
    using that by (simp add: late_def take_map list_ex_iff)
  from this [of rows] this [of rows'] show ?thesis
    using assms by (metis map_eq_imp_length_eq)
qed

lemma inserted_at_cong:
  assumes "map immutable_part rows = map immutable_part rows'" and "k < length rows"
  shows "inserted_at cd rows k \<longleftrightarrow> inserted_at cd rows' k"
proof -
  have "map immutable_part (take m rows) = map immutable_part (take m rows')" for m
    by (simp only: assms(1) flip: take_map)
  then have "tip_of (take m rows) = tip_of (take m rows')" for m
    by (rule tip_of_cong)
  moreover have "immutable_part (rows ! k) = immutable_part (rows' ! k)"
    using assms by (metis map_eq_imp_length_eq nth_map)
  ultimately show ?thesis
    by (simp add: inserted_at_def stored_as_def late_cong [OF assms])
qed

lemma inserted_at_append:
  assumes "k < length rows"
  shows "inserted_at cd (rows @ later) k \<longleftrightarrow> inserted_at cd rows k"
proof -
  have take: "take m (rows @ later) = take m rows" if "m \<le> k" for m
    using that assms by simp
  have "late (rows @ later) k \<longleftrightarrow> late rows k" "(rows @ later) ! k = rows ! k"
    using assms by (simp_all add: late_def nth_append)
  with take show ?thesis
    unfolding inserted_at_def by (metis order_refl)
qed

lemma flags_keep_inserted:
  assumes "\<And>e. immutable_part (g e) = immutable_part e"
    and "\<And>k. k < length rows \<Longrightarrow> inserted_at cd rows k" and "k < length (map g rows)"
  shows "inserted_at cd (map g rows) k"
  using inserted_at_cong [OF map_immutable_flags [of g rows, OF assms(1)] assms(3)] assms(2,3) by simp

lemma grows_sound:
  assumes "anchors_sound db" and "grows db db'" and "pg_anchors db' = pg_anchors db"
  shows "anchors_sound db'"
  unfolding anchors_sound_def assms(3)
proof
  fix a assume "a \<in> set (pg_anchors db)"
  with assms(1) obtain r where "r \<in> set (pg_events db)"
    and r: "ev_id r = an_last_event_id a \<and> ev_ts r = an_last_event_ts a \<and> ev_this_hash r = an_root_hash a"
    by (auto simp: anchors_sound_def)
  then obtain r' where "r' \<in> set (pg_events db')" "immutable_part r' = immutable_part r"
    using grows_row [OF assms(2)] by blast
  with r show "\<exists>r \<in> set (pg_events db'). ev_id r = an_last_event_id a \<and> ev_ts r = an_last_event_ts a \<and> ev_this_hash r = an_root_hash a"
    using immutable_fields by metis
qed

lemma ledger_step_ok:
  assumes step: "ledger_step cd db db'" and ok: "ledger_ok cd db"
  shows "ledger_ok cd db'"
  using step
proof (cases rule: ledger_step.cases)
  case (add_row e m r)
  let ?rows = "pg_events db"
  have "inserted_at cd (?rows @ [r]) k" if "k < Suc (length ?rows)" for k
  proof (cases "k = length ?rows")
    case True
    with add_row(2-5) show ?thesis
      by (auto simp: inserted_at_def admits_snapshot_def late_def intro!: exI [of _ m])
  next
    case False
    with that ledger_okD(2) [OF ok, of k] show ?thesis
      by (simp add: inserted_at_append)
  qed
  moreover have "\<not> ev_anchored r"
    using add_row(2) stored_as_fields(1) [OF add_row(4)] by (simp add: admissible_event_def)
  moreover have "anchors_sound db'"
    by (rule grows_sound [OF ledger_okD(3) [OF ok] ledger_step_grows [OF step]]) (simp add: add_row(1))
  ultimately show ?thesis
    using ledger_okD(1,4,5) [OF ok] add_row(1,5)
    by (intro ledger_okI) (auto simp: pg_inv_def flags_covered_def anchors_undated_def admits_snapshot_def)
next
  case (hold_row i hold)
  have "anchors_sound db'"
    by (rule grows_sound [OF ledger_okD(3) [OF ok] ledger_step_grows [OF step]]) (simp add: hold_row)
  then show ?thesis
    using ledger_okD(1,4,5) [OF ok] flags_keep_inserted [of "set_hold i hold", OF _ ledger_okD(2) [OF ok]] hold_row
    by (intro ledger_okI) (auto simp: pg_inv_def flags_covered_def anchors_undated_def o_def covered_by_key)
next
  case (add_anchor r a)
  then show ?thesis
    using ledger_okD [OF ok]
    by (intro ledger_okI) (auto simp: pg_inv_def anchors_sound_def flags_covered_def anchors_undated_def)
next
  case (mark_rows a)
  have "anchors_sound db'"
    by (rule grows_sound [OF ledger_okD(3) [OF ok] ledger_step_grows [OF step]]) (simp add: mark_rows)
  then show ?thesis
    using ledger_okD(1,4,5) [OF ok] mark_rows
      flags_keep_inserted [of "anchor_event (an_last_event_ts a) (an_last_event_id a)", OF _ ledger_okD(2) [OF ok]]
    by (intro ledger_okI)
      (auto simp: pg_inv_def flags_covered_def anchors_undated_def o_def covered_by_key anchor_event_anchored)
qed (use ledger_okD [OF ok] in \<open>auto intro!: ledger_okI simp: pg_inv_def anchors_sound_def flags_covered_def anchors_undated_def\<close>)

lemma ledger_ok_empty: "ledger_ok cd empty_db"
  by (simp add: ledger_ok_def empty_db_def pg_inv_def anchors_sound_def flags_covered_def anchors_undated_def)

interpretation ledger: step_system "\<lambda>db. db = empty_db" "ledger_step cd" "ledger_ok cd" for cd
  by unfold_locales (auto intro: ledger_ok_empty ledger_step_ok)

section \<open>Reading the database back\<close>

lemma inserted_row:
  assumes "ledger_ok cd db" and "r \<in> set (pg_events db)"
  obtains e m r' where "admissible_event e" "stored_as cd (take m (pg_events db)) e = Inr r'"
    "immutable_part r = immutable_part r'"
proof -
  obtain k where "k < length (pg_events db)" "r = pg_events db ! k"
    using assms(2) by (auto simp: in_set_conv_nth)
  with ledger_okD(2) [OF assms(1), of k] that show thesis
    by (auto simp: inserted_at_def)
qed

lemma ledger_row_hashes:
  assumes "ledger_ok cd db" and "r \<in> set (pg_events db)"
  shows "length (ev_this_hash r) = 32" and "length (ev_payload_hash r) = 32"
proof -
  obtain e m r' where "admissible_event e" and stored: "stored_as cd (take m (pg_events db)) e = Inr r'"
    and same: "immutable_part r = immutable_part r'"
    using inserted_row [OF assms] by blast
  then show "length (ev_this_hash r) = 32" "length (ev_payload_hash r) = 32"
    using stored_as_fields(2,4) [OF stored] immutable_fields [OF same]
    by (simp_all add: chain_hash_fn_def canonical_hash_def admissible_event_def)
qed

text \<open>With a steady codec the keys of the rows are exact, so the database can be paged through.\<close>

lemma ledger_readable:
  assumes "ledger_ok cd db" and steady: "steady_codec cd"
  shows "pg_readable cd db"
  unfolding pg_readable_def
proof (intro conjI ballI ledger_okD(1) [OF assms(1)])
  fix r assume "r \<in> set (pg_events db)"
  then obtain e m r' where stored: "stored_as cd (take m (pg_events db)) e = Inr r'"
    and same: "immutable_part r = immutable_part r'"
    using inserted_row [OF assms(1)] by blast
  have "cd_uuid cd (ev_id r') = Inr (ev_id r')" "cd_time cd (ev_ts r') = Inr (ev_ts r')"
    using steady stored_as_fields(5,6) [OF stored] unfolding steady_codec_def by blast+
  then show "exact_uuid cd (ev_id r)" "exact_time cd (ev_ts r)"
    using immutable_fields(1,2) [OF same] by (simp_all add: exact_defs)
qed

lemma pg_list_anchors_subset: "pg_list_anchors cd faults db lo hi = Inr as \<Longrightarrow> set as \<subseteq> set (pg_anchors db)"
  by (auto simp: pg_list_anchors_def and_then_Inr run_statement_Inr select_rows_def Let_def split: if_splits)

lemma ledger_no_mismatch:
  assumes "ledger_ok cd db" and "steady_codec cd" and "set anchs \<subseteq> set (pg_anchors db)"
  shows "anchor_mismatches (pg_get cd no_faults db) anchs n = n"
proof -
  have "\<not> anchor_mismatch (pg_get cd no_faults db) a" if a: "a \<in> set anchs" for a
  proof -
    obtain r where "r \<in> set (pg_log db)" "ev_id r = an_last_event_id a" "ev_this_hash r = an_root_hash a"
      using ledger_okD(3) [OF assms(1)] assms(3) a by (fastforce simp: anchors_sound_def)
    with pg.get_member [OF ledger_readable [OF assms(1,2)], of r] show ?thesis
      by (simp add: anchor_mismatch_def)
  qed
  then show ?thesis
    by (simp add: anchor_mismatches_count filter_empty_conv)
qed

text \<open>
  A sweep over any window whose bounds the time column keeps: no anchor mismatch, and the verdict of the
  window's rows.
\<close>

lemma ledger_sweep:
  fixes lo hi :: time
  assumes ok: "ledger_ok cd db" and steady: "steady_codec cd"
    and ts: "\<forall>r \<in> set (pg_events db). \<not> is_zero (ev_ts r)" and live: "\<forall>k. \<not> cancelled k"
    and exact: "exact_filter cd (sweep_filter lo hi)"
  defines "rows \<equiv> List.filter (matches_fields (sweep_filter lo hi)) (pg_log db)"
  shows "\<exists>rep. sweep cancelled (pg_list cd no_faults db) (pg_get cd no_faults db)
      (Some (pg_list_anchors cd faults db)) lo hi signer now = Some (Inr rep) \<and>
    rp_anchor_mismatches rep = 0 \<and> rp_event_count rep = int (length rows) \<and> (rp_status rep = StatusOK \<longleftrightarrow> intact rows)"
proof -
  have readable: "pg_readable cd db"
    by (rule ledger_readable [OF ok steady])
  have ts': "\<forall>r \<in> set (pg_log db). \<not> is_zero (ev_ts r)"
    using ts by simp
  obtain rep where rep: "sweep cancelled (pg_list cd no_faults db) (pg_get cd no_faults db)
      (Some (pg_list_anchors cd faults db)) lo hi signer now = Some (Inr rep)"
    and "rp_event_count rep = int (length rows)" "rp_status rep = StatusOK \<longleftrightarrow> intact rows"
    using pg.sweep_verdict [OF readable ts' _ exact, of cancelled] live unfolding rows_def by blast
  moreover have "rp_anchor_mismatches rep = 0"
    using pg.sweep_returns [OF readable ts' _ exact, of cancelled "Some (pg_list_anchors cd faults db)" signer now] live rep
      ledger_no_mismatch [OF ok steady pg_list_anchors_subset]
    by (auto simp: report_frames report_anchors_def report_chain_fields new_report_def split: sum.split)
  ultimately show ?thesis
    by blast
qed



lemma linked_window: "linked es \<Longrightarrow> linked (take n (drop m es))"
  by (metis append_take_drop_id linked_append)

lemma ascending_not_late:
  assumes "ascending ev_key rows" and "k < length rows"
  shows "\<not> late rows k"
  using assms by (auto simp: late_iff in_set_conv_nth sorted_wrt_iff_nth_less) (meson not_less_iff_gr_or_eq)

text \<open>
  Rows that arrived in key order are linked one to the next, whatever the column types did to them; so
  the log is intact exactly if each row's hash is the hash of the columns as they are read back.
\<close>

lemma ledger_linked:
  assumes ok: "ledger_ok cd db" and order: "ascending ev_key (pg_events db)"
  shows "pg_log db = pg_events db" and "linked (pg_events db)"
proof -
  have sorted: "sort_key ev_key (take k (pg_events db)) = take k (pg_events db)" for k
    using ascending_imp_sorted [OF order] by (intro sort_key_id_if_sorted) (simp add: sorted_wrt_take flip: take_map)
  from this [of "length (pg_events db)"] show "pg_log db = pg_events db"
    by (simp add: pg_log_def)
  show "linked (pg_events db)"
    unfolding linked_nth
  proof (intro allI impI)
    fix i assume i: "Suc i < length (pg_events db)"
    obtain m e r where stored: "stored_as cd (take m (pg_events db)) e = Inr r"
      and same: "immutable_part (pg_events db ! Suc i) = immutable_part r"
      and tip: "tip_of (take m (pg_events db)) = tip_of (take (Suc i) (pg_events db)) \<or> late (pg_events db) (Suc i)"
      using ledger_okD(2) [OF ok i] by (auto simp: inserted_at_def)
    have "ev_prev_hash (pg_events db ! Suc i) = tip_of (take (Suc i) (pg_events db))"
      using stored_as_fields(3) [OF stored] immutable_fields(4) [OF same] tip ascending_not_late [OF order i] by simp
    also have "\<dots> = chain_tip (take (Suc i) (pg_events db))"
      by (simp only: sorted)
    also have "\<dots> = ev_this_hash (pg_events db ! i)"
      using i by (simp add: chain_tip_def take_Suc_conv_app_nth)
    finally show "ev_prev_hash (pg_events db ! Suc i) = ev_this_hash (pg_events db ! i)" .
  qed
qed

text \<open>
  A sweep with a lower bound: the anchors are all dated zero, so none is in the window.
\<close>

lemma undated_not_listed:
  assumes "anchors_undated cd db" and "cd_time cd zero_time = Inr zero_time" and "zero_time < lo" and "exact_time cd lo"
    and "is_zero hi \<or> exact_time cd hi"
  shows "pg_list_anchors cd no_faults db lo hi = Inr []"
proof -
  have lo: "\<not> is_zero lo"
    using assms(3) by (auto simp: is_zero_def)
  have q: "query_ok cd anchor_column (anchors_query lo hi) (\<lambda>a. lo \<le> an_anchored_at a \<and> (is_zero hi \<or> an_anchored_at a \<le> hi))"
    unfolding anchors_query_def
    by (rule query_ok_cong, rule query_ok_add, rule query_ok_add, rule query_ok_start)
      (use lo assms(4,5) in \<open>auto simp: bind_value_def exact_time_def anchor_column_def\<close>)
  have "\<not> lo \<le> an_anchored_at a" if "a \<in> set (pg_anchors db)" for a
    using assms(1-3) that by (auto simp: anchors_undated_def)
  then have "[a \<leftarrow> pg_anchors db. lo \<le> an_anchored_at a \<and> (is_zero hi \<or> an_anchored_at a \<le> hi)] = []"
    by (auto simp: filter_empty_conv)
  then show ?thesis
    by (simp add: pg_list_anchors_def select_rows_ok [OF q])
qed

lemma ledger_unchecked:
  fixes lo hi :: time
  assumes ok: "ledger_ok cd db" and steady: "steady_codec cd" and zero: "cd_time cd zero_time = Inr zero_time"
    and lo: "zero_time < lo" "exact_time cd lo" and hi: "is_zero hi \<or> exact_time cd hi"
    and ts: "\<forall>r \<in> set (pg_events db). \<not> is_zero (ev_ts r)" and live: "\<forall>k. \<not> cancelled k"
  shows "\<exists>rep. sweep cancelled (pg_list cd no_faults db) (pg_get cd no_faults db)
      (Some (pg_list_anchors cd no_faults db)) lo hi signer now = Some (Inr rep) \<and>
    rp_anchor_count rep = 0 \<and> rp_checked_anchors rep = 0"
proof -
  have exact: "exact_filter cd (sweep_filter lo hi)"
    using lo hi by (simp add: exact_filter_def sweep_filter_def zero_filter_def zero_cursor_def)
  have ts': "\<forall>r \<in> set (pg_log db). \<not> is_zero (ev_ts r)"
    using ts by simp
  have none: "pg_list_anchors cd no_faults db lo hi = Inr []"
    by (rule undated_not_listed [OF ledger_okD(5) [OF ok] zero lo hi])
  have fields: "rp_anchor_count (report_sign sg now root r) = rp_anchor_count r"
    "rp_checked_anchors (report_sign sg now root r) = rp_checked_anchors r" for sg root r
    by (simp_all add: report_sign_def split: option.split sum.split prod.split)
  show ?thesis
    using pg.sweep_returns [OF ledger_readable [OF ok steady] ts' _ exact, of cancelled "Some (pg_list_anchors cd no_faults db)" signer now]
      live
    by (simp add: fields report_anchors_def report_chain_fields none new_report_def)
qed


text \<open>Each row is linked to the newest before it unless it is late.\<close>

lemma ledger_linked_unless_late:
  assumes "ledger_ok cd db"
  shows "linked_unless_late (pg_events db)"
proof -
  have "\<exists>m \<le> k. ev_prev_hash (pg_events db ! k) = tip_of (take m (pg_events db)) \<and>
      (tip_of (take m (pg_events db)) = tip_of (take k (pg_events db)) \<or> late (pg_events db) k)"
    if k: "k < length (pg_events db)" for k
  proof -
    obtain m e r where "m \<le> k" and stored: "stored_as cd (take m (pg_events db)) e = Inr r"
      and same: "immutable_part (pg_events db ! k) = immutable_part r"
      and newest: "tip_of (take m (pg_events db)) = tip_of (take k (pg_events db)) \<or> late (pg_events db) k"
      using ledger_okD(2) [OF assms k] by (auto simp: inserted_at_def)
    with stored_as_fields(3) [OF stored] immutable_fields(4) [OF same] show ?thesis
      by auto
  qed
  then show ?thesis
    unfolding linked_unless_late_def linked_back_def by metis
qed

end
