(* ===== verification/Fleet.thy ===== *)
theory Fleet
  imports App Ledger
begin

text \<open>
  The service as it is deployed: any number of replicas of the server over one PostgreSQL database and one
  object store. A replica is its consumer loop, its anchor loop, its redaction policy and its counters; a
  message is two steps and an anchor run three, so that the loops and requests of all replicas interleave
  between any two accesses to the database. The insert of a row is one transition, in which the transaction
  sees the table as it was at any earlier time and the server admits what a serializable server may admit
  (theory Replicas shows that for the transactions statement by statement). Statements may fail, a commit may
  be applied and still be reported as failed, a replica may stop at any point and start again. The fleet
  refines the ledger.
\<close>

section \<open>Replicas\<close>

text \<open>Where the consumer loop stands: waiting, or with a payload written and a row to insert.\<close>

datatype consumer_phase = Listening | Prepared envelope bytes event

record node =
  nd_consumer :: consumer_phase
  nd_loop :: anchor_phase
  nd_policy :: reloader
  nd_metrics :: "metric multiset"

definition fresh_node :: "reloader \<Rightarrow> node" where
  "fresh_node r = \<lparr>nd_consumer = Listening, nd_loop = AnchorIdle, nd_policy = r, nd_metrics = {#}\<rparr>"

record 'o fleet =
  fl_db :: pg_db
  fl_objects :: 'o
  fl_node :: "nat \<Rightarrow> node"

definition start_fleet :: "'o \<Rightarrow> (nat \<Rightarrow> reloader) \<Rightarrow> 'o fleet" where
  "start_fleet objs policy = \<lparr>fl_db = empty_db, fl_objects = objs, fl_node = (\<lambda>i. fresh_node (policy i))\<rparr>"

definition set_node :: "nat \<Rightarrow> node \<Rightarrow> 'o fleet \<Rightarrow> 'o fleet" where
  "set_node i n s = s\<lparr>fl_node := (fl_node s)(i := n)\<rparr>"

section \<open>The consumer loop\<close>

text \<open>
  The pipeline's dependencies: the database's stores and the replica's policy are put in; the rest of
  \<open>lib\<close> (the object store's client, the settings, the decoder) is kept. The transaction of the insert sees
  the first \<open>m\<close> rows.
\<close>

definition pg_deps ::
  "pg_codec \<Rightarrow> faults \<Rightarrow> bool \<Rightarrow> nat \<Rightarrow> string \<Rightarrow> time \<Rightarrow> (string \<Rightarrow> string \<Rightarrow> bytes \<Rightarrow> (bytes \<times> bool) result) \<Rightarrow>
   (pg_db, 'o, pg_db) deps \<Rightarrow> (pg_db, 'o, pg_db) deps" where
  "pg_deps cd faults applied m fresh now apply_policy lib =
     lib\<lparr>dp_insert_chained := pg_insert_snapshot cd faults applied m, dp_redactor := Some apply_policy,
         dp_dead_letters := Some (pg_append_dead_letter cd faults fresh now)\<rparr>"

definition node_world :: "'o fleet \<Rightarrow> node \<Rightarrow> (pg_db, 'o, pg_db) ingest_state" where
  "node_world s n = \<lparr>is_events = fl_db s, is_objects = fl_objects s, is_dead = fl_db s, is_metrics = nd_metrics n\<rparr>"

text \<open>Everything up to the insert: at most a payload or a dead letter is written.\<close>

definition prepare_step :: "(pg_db, 'o, pg_db) deps \<Rightarrow> message \<Rightarrow> nat \<Rightarrow> 'o fleet \<Rightarrow> 'o fleet" where
  "prepare_step dp msg i s =
     (let n = fl_node s i in
      case ingest_prepare dp msg (node_world s n) of
        (Inl r, w) \<Rightarrow>
          set_node i (n\<lparr>nd_metrics := is_metrics w\<rparr>) (s\<lparr>fl_db := is_dead w, fl_objects := is_objects w\<rparr>)
      | (Inr (ev, payload_hash, row), w) \<Rightarrow>
          set_node i (n\<lparr>nd_consumer := Prepared ev payload_hash row, nd_metrics := is_metrics w\<rparr>)
            (s\<lparr>fl_db := is_dead w, fl_objects := is_objects w\<rparr>))"

definition finish_step :: "(pg_db, 'o, pg_db) deps \<Rightarrow> nat \<Rightarrow> 'o fleet \<Rightarrow> 'o fleet" where
  "finish_step dp i s =
     (let n = fl_node s i in
      case nd_consumer n of
        Listening \<Rightarrow> s
      | Prepared ev payload_hash row \<Rightarrow>
          (case ingest_finish dp ev payload_hash row (node_world s n) of
             (r, w) \<Rightarrow>
               set_node i (n\<lparr>nd_consumer := Listening, nd_metrics := is_metrics w\<rparr>) (s\<lparr>fl_db := is_events w\<rparr>)))"

section \<open>The anchor loop\<close>

definition pg_anchor_job ::
  "pg_codec \<Rightarrow> faults \<Rightarrow> string \<Rightarrow> (bytes \<Rightarrow> (bytes \<times> string) result) \<Rightarrow> string \<Rightarrow> (pg_db, pg_db) anchor_job" where
  "pg_anchor_job cd faults fresh signer notary_url =
     \<lparr>aj_chain_head = pg_chain_head faults, aj_mark_anchored = pg_mark_anchored cd faults,
      aj_insert_anchor = pg_insert_anchor cd faults fresh, aj_signer = signer,
      aj_notary_url = notary_url, aj_event_count = None\<rparr>"

definition node_tick :: "(pg_db, pg_db) anchor_job \<Rightarrow> nat \<Rightarrow> 'o fleet \<Rightarrow> 'o fleet" where
  "node_tick job i s =
     (let n = fl_node s i; db = fl_db s in
      case nd_loop n of
        AnchorIdle \<Rightarrow>
          (case aj_chain_head job db of
             Inr (Some head) \<Rightarrow> set_node i (n\<lparr>nd_loop := AnchorHead head\<rparr>) s
           | _ \<Rightarrow> s)
      | AnchorHead head \<Rightarrow>
          (case anchor_sign job head db db of
             (Inl err, db') \<Rightarrow> set_node i (n\<lparr>nd_loop := AnchorIdle\<rparr>) (s\<lparr>fl_db := db'\<rparr>)
           | (Inr a, db') \<Rightarrow> set_node i (n\<lparr>nd_loop := AnchorStored head a\<rparr>) (s\<lparr>fl_db := db'\<rparr>))
      | AnchorStored head a \<Rightarrow>
          set_node i (n\<lparr>nd_loop := AnchorIdle\<rparr>) (s\<lparr>fl_db := snd (anchor_mark job head a db)\<rparr>))"

section \<open>Requests\<close>

text \<open>
  The router over the database. A request that changes something issues one such statement, on the events
  or on the export jobs, so the two views of the database are put together again by table.
\<close>

definition pg_api ::
  "pg_codec \<Rightarrow> faults \<Rightarrow> time \<Rightarrow> (string \<Rightarrow> file_read) \<Rightarrow> (pg_db, pg_db, reloader) api_deps \<Rightarrow>
   (pg_db, pg_db, reloader) api_deps" where
  "pg_api cd faults now files lib =
     lib\<lparr>ad_get := pg_get cd faults, ad_list := pg_list cd faults, ad_set_legal_hold := Some (pg_set_legal_hold cd faults),
         ad_create_job := pg_create_job cd faults now, ad_get_job := pg_get_job cd faults,
         ad_redactor_reload := Some (reload files)\<rparr>"

definition node_view :: "'o fleet \<Rightarrow> node \<Rightarrow> (pg_db, pg_db, reloader) api_state" where
  "node_view s n = \<lparr>as_events = fl_db s, as_exports = fl_db s, as_redactor = nd_policy n, as_metrics = nd_metrics n\<rparr>"

definition answer_step :: "nat \<Rightarrow> (pg_db, pg_db, reloader) api_state \<Rightarrow> 'o fleet \<Rightarrow> 'o fleet" where
  "answer_step i st s =
     set_node i ((fl_node s i)\<lparr>nd_policy := as_redactor st, nd_metrics := as_metrics st\<rparr>)
       (s\<lparr>fl_db := (as_events st)\<lparr>pg_jobs := pg_jobs (as_exports st)\<rparr>\<rparr>)"

section \<open>Steps of the fleet\<close>

text \<open>
  Each step is one replica's: a message is prepared, its row inserted, the anchor loop advances, a request
  is served. \<open>fleet_lost\<close> is an anchor run that ends early because the answer to a statement was lost,
  \<open>fleet_restart\<close> a replica that stopped, wherever it was, and started again.
\<close>

inductive fleet_step :: "pg_codec \<Rightarrow> 'o fleet \<Rightarrow> 'o fleet \<Rightarrow> bool" for cd :: pg_codec where
  fleet_prepare: "nd_consumer (fl_node s i) = Listening \<Longrightarrow>
     dp = pg_deps cd faults applied m fresh now (reloader_apply tlib (nd_policy (fl_node s i))) lib \<Longrightarrow>
     fleet_step cd s (prepare_step dp msg i s)"
| fleet_finish: "dp = pg_deps cd faults applied m fresh now (reloader_apply tlib (nd_policy (fl_node s i))) lib \<Longrightarrow>
     fleet_step cd s (finish_step dp i s)"
| fleet_anchor: "fleet_step cd s (node_tick (pg_anchor_job cd faults fresh signer notary_url) i s)"
| fleet_request: "serve (pg_api cd faults now files lib) ae t rq (node_view s (fl_node s i)) = (resp, st) \<Longrightarrow>
     fleet_step cd s (answer_step i st s)"
| fleet_lost: "fleet_step cd s (set_node i ((fl_node s i)\<lparr>nd_loop := AnchorIdle\<rparr>) s)"
| fleet_restart: "fleet_step cd s (set_node i (fresh_node r) s)"

section \<open>What a replica relies on\<close>

text \<open>
  What the database holds for a replica in the middle of something: the row it is about to insert is one
  that ingest builds; the head its anchor run has read is a stored row; the anchor it is about to apply
  is stored.
\<close>

definition row_known :: "pg_db \<Rightarrow> event \<Rightarrow> bool" where
  "row_known db h \<longleftrightarrow> (\<exists>r \<in> set (pg_events db). immutable_part r = immutable_part h)"

definition anchor_known :: "pg_db \<Rightarrow> event \<Rightarrow> bool" where
  "anchor_known db h \<longleftrightarrow> (\<exists>a \<in> set (pg_anchors db). an_last_event_id a = ev_id h \<and> an_last_event_ts a = ev_ts h)"

definition consumer_ok :: "consumer_phase \<Rightarrow> bool" where
  "consumer_ok c \<longleftrightarrow>
     (case c of Listening \<Rightarrow> True
      | Prepared ev payload_hash row \<Rightarrow> admissible_event row \<and> envelope_hash_fn ev payload_hash = chain_hash_fn row)"

definition loop_ok :: "pg_db \<Rightarrow> anchor_phase \<Rightarrow> bool" where
  "loop_ok db ph \<longleftrightarrow>
     (case ph of AnchorIdle \<Rightarrow> True | AnchorHead h \<Rightarrow> row_known db h
      | AnchorStored h a \<Rightarrow> row_known db h \<and> anchor_known db h)"

definition node_ok :: "pg_db \<Rightarrow> node \<Rightarrow> bool" where
  "node_ok db n \<longleftrightarrow> consumer_ok (nd_consumer n) \<and> loop_ok db (nd_loop n)"

definition fleet_ok :: "pg_codec \<Rightarrow> 'o fleet \<Rightarrow> bool" where
  "fleet_ok cd s \<longleftrightarrow> ledger_ok cd (fl_db s) \<and> (\<forall>i. node_ok (fl_db s) (fl_node s i))"

lemma row_known_grows: "row_known db h \<Longrightarrow> grows db db' \<Longrightarrow> row_known db' h"
  unfolding row_known_def using grows_row by metis

lemma loop_ok_grows: "loop_ok db ph \<Longrightarrow> grows db db' \<Longrightarrow> loop_ok db' ph"
  by (auto simp: loop_ok_def anchor_known_def row_known_grows grows_def dest: set_mono_prefix
      split: anchor_phase.splits)

lemma fresh_node_ok: "node_ok db (fresh_node r)"
  by (simp add: node_ok_def fresh_node_def consumer_ok_def loop_ok_def)

text \<open>
  A move of one replica: at most one ledger step on the database, and the replica still relies on what
  holds. Every fleet step is one.
\<close>

definition moves :: "pg_codec \<Rightarrow> 'o fleet \<Rightarrow> 'o fleet \<Rightarrow> bool" where
  "moves cd s s' \<longleftrightarrow>
     (\<exists>i n. (ledger_step cd)\<^sup>=\<^sup>= (fl_db s) (fl_db s') \<and> fl_node s' = (fl_node s)(i := n) \<and> node_ok (fl_db s') n)"

lemma movesI:
  "(ledger_step cd)\<^sup>=\<^sup>= (fl_db s) (fl_db s') \<Longrightarrow> fl_node s' = (fl_node s)(i := n) \<Longrightarrow> node_ok (fl_db s') n \<Longrightarrow> moves cd s s'"
  unfolding moves_def by blast

lemma ledger_move_grows: "(ledger_step cd)\<^sup>=\<^sup>= db db' \<Longrightarrow> grows db db'"
  by (auto dest: ledger_step_grows)

lemma moves_ok:
  assumes "moves cd s s'" and "fleet_ok cd s"
  shows "fleet_ok cd s'"
proof -
  obtain i n where run: "(ledger_step cd)\<^sup>=\<^sup>= (fl_db s) (fl_db s')" and nodes: "fl_node s' = (fl_node s)(i := n)"
    and n: "node_ok (fl_db s') n"
    using assms(1) by (auto simp: moves_def)
  have "ledger_ok cd (fl_db s')"
    using ledger_step_ok run assms(2) by (auto simp: fleet_ok_def)
  moreover have "node_ok (fl_db s') (fl_node s j)" for j
    using assms(2) loop_ok_grows [OF _ ledger_move_grows [OF run]] by (simp add: fleet_ok_def node_ok_def)
  ultimately show ?thesis
    using nodes n by (simp add: fleet_ok_def)
qed

lemma set_node_fields [simp]:
  "fl_db (set_node i n s) = fl_db s" "fl_objects (set_node i n s) = fl_objects s"
  "fl_node (set_node i n s) = (fl_node s)(i := n)"
  by (simp_all add: set_node_def)

lemma fleet_node: "fleet_ok cd s \<Longrightarrow> node_ok (fl_db s) (fl_node s i)"
  by (simp add: fleet_ok_def)

subsection \<open>Messages\<close>

lemma append_dead_effect:
  "(ledger_step cd)\<^sup>=\<^sup>= db (snd (pg_append_dead_letter cd faults fresh now db dl))"
  by (auto simp: pg_append_dead_letter_def intro!: add_dead split: sum.split)

lemma prepare_moves:
  assumes ok: "fleet_ok cd s" and dp: "dp = pg_deps cd faults applied m fresh now apply_policy lib"
  shows "moves cd s (prepare_step dp msg i s)"
proof -
  let ?n = "fl_node s i"
  obtain r w where prep: "ingest_prepare dp msg (node_world s ?n) = (r, w)"
    by (metis prod.exhaust)
  have "is_dead w = fl_db s \<or> (\<exists>dl. is_dead w = snd (pg_append_dead_letter cd faults fresh now (fl_db s) dl))"
    using prepare_dead [OF prep] by (auto simp: dp pg_deps_def node_world_def)
  then have run: "(ledger_step cd)\<^sup>=\<^sup>= (fl_db s) (is_dead w)"
    using append_dead_effect [of cd "fl_db s" faults fresh now] by (elim disjE exE) simp_all
  have loop: "loop_ok (is_dead w) (nd_loop ?n)"
    using fleet_node [OF ok, of i] loop_ok_grows [OF _ ledger_move_grows [OF run]] by (simp add: node_ok_def)
  show ?thesis
  proof (cases r)
    case (Inl res)
    show ?thesis
      by (rule movesI [of cd s _ i "?n\<lparr>nd_metrics := is_metrics w\<rparr>"])
        (use run loop fleet_node [OF ok, of i] in \<open>simp_all add: prepare_step_def prep Inl Let_def node_ok_def\<close>)
  next
    case (Inr ready)
    obtain ev h row where ready: "ready = (ev, h, row)"
      by (cases ready)
    have "consumer_ok (Prepared ev h row)"
      using prepare_ready [OF prep [unfolded Inr ready]] reaches_insert_row [OF prepare_ready [OF prep [unfolded Inr ready]]]
      by (auto simp: consumer_ok_def admissible_event_def reaches_insert_def payload_row_def)
    then show ?thesis
      by (intro movesI [of cd s _ i "?n\<lparr>nd_consumer := Prepared ev h row, nd_metrics := is_metrics w\<rparr>"])
        (use run loop in \<open>simp_all add: prepare_step_def prep Inr ready Let_def node_ok_def\<close>)
  qed
qed

lemma insert_effect:
  assumes "pg_insert_snapshot cd faults applied m db row (chain_hash_fn row) = (res, row', db')" and "admissible_event row"
  shows "(ledger_step cd)\<^sup>=\<^sup>= db db'"
proof (cases "db' = db")
  case False
  let ?m = "min m (length (pg_events db))"
  have take: "take ?m (pg_events db) = take m (pg_events db)"
    by (simp add: min_def)
  obtain r where r: "encode_row cd (link_event (chain_hash_fn row) (tip_of (take m (pg_events db))) row) = Inr r"
    "admits_snapshot (pg_events db) m r" "db' = db\<lparr>pg_events := pg_events db @ [r]\<rparr>"
    using pg_insert_snapshot_cases [OF assms(1)] False by blast
  then have "stored_as cd (take ?m (pg_events db)) row = Inr r" "admits_snapshot (pg_events db) ?m r"
    unfolding stored_as_def admits_snapshot_def take by simp_all
  from add_row [OF assms(2) _ this] r(3) show ?thesis
    by simp
qed simp

lemma finish_moves:
  assumes ok: "fleet_ok cd s" and dp: "dp = pg_deps cd faults applied m fresh now apply_policy lib"
  shows "moves cd s (finish_step dp i s)"
proof (cases "nd_consumer (fl_node s i)")
  case Listening
  show ?thesis
    by (rule movesI [of cd s _ i "fl_node s i"])
      (use fleet_node [OF ok, of i] in \<open>simp_all add: finish_step_def Listening Let_def\<close>)
next
  case (Prepared ev h row)
  let ?n = "fl_node s i"
  obtain res row' db' where ins: "pg_insert_snapshot cd faults applied m (fl_db s) row (envelope_hash_fn ev h) = (res, row', db')"
    by (metis prod.exhaust)
  have row: "admissible_event row" "envelope_hash_fn ev h = chain_hash_fn row"
    using fleet_node [OF ok, of i] by (simp_all add: node_ok_def Prepared consumer_ok_def)
  have run: "(ledger_step cd)\<^sup>=\<^sup>= (fl_db s) db'"
    using insert_effect ins row by metis
  obtain r w where fin: "ingest_finish dp ev h row (node_world s ?n) = (r, w)"
    by (metis prod.exhaust)
  then have "is_events w = db'"
    using ins by (auto simp: ingest_finish_def insert_row_def dp pg_deps_def node_world_def Let_def frame_simps
        split: sum.splits if_splits)
  with run loop_ok_grows [OF _ ledger_move_grows [OF run]] fleet_node [OF ok, of i] show ?thesis
    by (intro movesI [of cd s _ i "?n\<lparr>nd_consumer := Listening, nd_metrics := is_metrics w\<rparr>"])
      (simp_all add: finish_step_def Prepared fin Let_def node_ok_def consumer_ok_def)
qed

subsection \<open>Anchor runs\<close>

lemma pg_chain_head_row:
  assumes "pg_chain_head faults db = Inr (Some h)"
  shows "h \<in> set (pg_events db)"
proof (cases "sort_key ev_key (pg_events db)" rule: rev_cases)
  case (snoc rows r)
  have "r \<in> set (sort_key ev_key (pg_events db))"
    unfolding snoc by simp
  moreover have "r = h"
    using assms snoc by (simp add: pg_chain_head_def run_statement_Inr)
  ultimately show ?thesis
    by simp
qed (use assms in \<open>simp add: pg_chain_head_def run_statement_Inr\<close>)

text \<open>What signing stores: nothing, or an anchor of the head it was given, as the columns keep it.\<close>

lemma pg_anchor_sign:
  assumes "anchor_sign (pg_anchor_job cd faults fresh signer notary_url) h es db = (r, db')"
  shows "(case r of
      Inl err \<Rightarrow> db' = db
    | Inr a \<Rightarrow> \<exists>b. db' = db\<lparr>pg_anchors := pg_anchors db @ [b]\<rparr> \<and> cd_uuid cd (ev_id h) = Inr (an_last_event_id b) \<and>
        cd_time cd (ev_ts h) = Inr (an_last_event_ts b) \<and> an_root_hash b = ev_this_hash h \<and>
        cd_time cd zero_time = Inr (an_anchored_at b))"
  using assms
  by (auto simp: anchor_sign_def pg_anchor_job_def pg_insert_anchor_def Let_def run_statement_Inr and_then_Inr
      split: if_splits sum.splits intro!: exI [of _ "last (pg_anchors db')"])

lemma row_known_exact:
  assumes "row_known db h" and "pg_readable cd db"
  shows "cd_uuid cd (ev_id h) = Inr (ev_id h)" and "cd_time cd (ev_ts h) = Inr (ev_ts h)"
proof -
  obtain r where r: "r \<in> set (pg_events db)" "immutable_part r = immutable_part h"
    using assms(1) by (auto simp: row_known_def)
  have "exact_uuid cd (ev_id r)" "exact_time cd (ev_ts r)"
    using assms(2) r(1) by (simp_all add: pg_readable_def)
  then show "cd_uuid cd (ev_id h) = Inr (ev_id h)" "cd_time cd (ev_ts h) = Inr (ev_ts h)"
    unfolding immutable_fields(1,2) [OF r(2)] by (simp_all add: exact_defs)
qed

lemma pg_mark_effect:
  assumes known: "row_known db h" "anchor_known db h" and readable: "pg_readable cd db"
  shows "(ledger_step cd)\<^sup>=\<^sup>= db (snd (pg_mark_anchored cd faults db (ev_ts h) (ev_id h)))"
proof (cases "faults UpdateAnchored")
  case None
  obtain a where a: "a \<in> set (pg_anchors db)" "an_last_event_id a = ev_id h" "an_last_event_ts a = ev_ts h"
    using known(2) by (auto simp: anchor_known_def)
  have "snd (pg_mark_anchored cd faults db (ev_ts h) (ev_id h)) =
      db\<lparr>pg_events := map (anchor_event (ev_ts h) (ev_id h)) (pg_events db)\<rparr>"
    using row_known_exact [OF known(1) readable] None
    by (simp add: pg_mark_anchored_def run_statement_def mark_unanchored)
  with mark_rows [OF a(1), of cd] a(2,3) show ?thesis
    by auto
qed (simp add: pg_mark_anchored_def run_statement_def)

lemma tick_moves:
  assumes ok: "fleet_ok cd s" and steady: "steady_codec cd"
  shows "moves cd s (node_tick (pg_anchor_job cd faults fresh signer notary_url) i s)" (is "moves cd s (node_tick ?job i s)")
proof -
  let ?n = "fl_node s i" and ?db = "fl_db s"
  have node: "consumer_ok (nd_consumer ?n)" "loop_ok ?db (nd_loop ?n)"
    using fleet_node [OF ok, of i] by (simp_all add: node_ok_def)
  have readable: "pg_readable cd ?db"
    using ledger_readable steady ok by (simp add: fleet_ok_def)
  show ?thesis
  proof (cases "nd_loop ?n")
    case AnchorIdle
    show ?thesis
    proof (cases "\<exists>h. pg_chain_head faults ?db = Inr (Some h)")
      case True
      then obtain h where h: "pg_chain_head faults ?db = Inr (Some h)"
        by blast
      then have "row_known ?db h"
        using pg_chain_head_row by (auto simp: row_known_def)
      with node h show ?thesis
        by (intro movesI [of cd s _ i "?n\<lparr>nd_loop := AnchorHead h\<rparr>"])
          (simp_all add: node_tick_def AnchorIdle pg_anchor_job_def node_ok_def loop_ok_def)
    next
      case False
      then have "node_tick ?job i s = s"
        by (auto simp: node_tick_def AnchorIdle pg_anchor_job_def Let_def split: sum.split option.split)
      with fleet_node [OF ok, of i] show ?thesis
        by (intro movesI [of cd s _ i ?n]) simp_all
    qed
  next
    case (AnchorHead h)
    obtain r db' where sign: "anchor_sign ?job h ?db ?db = (r, db')"
      by (metis prod.exhaust)
    have known: "row_known ?db h"
      using node(2) by (simp add: AnchorHead loop_ok_def)
    show ?thesis
    proof (cases r)
      case (Inl err)
      with sign pg_anchor_sign [OF sign] node show ?thesis
        by (intro movesI [of cd s _ i "?n\<lparr>nd_loop := AnchorIdle\<rparr>"])
          (simp_all add: node_tick_def AnchorHead node_ok_def loop_ok_def)
    next
      case (Inr a)
      then obtain b where db': "db' = ?db\<lparr>pg_anchors := pg_anchors ?db @ [b]\<rparr>" and b: "cd_uuid cd (ev_id h) = Inr (an_last_event_id b)"
        "cd_time cd (ev_ts h) = Inr (an_last_event_ts b)" "an_root_hash b = ev_this_hash h"
        "cd_time cd zero_time = Inr (an_anchored_at b)"
        using pg_anchor_sign [OF sign] by auto
      have keys: "an_last_event_id b = ev_id h" "an_last_event_ts b = ev_ts h"
        using b row_known_exact [OF known readable] by simp_all
      obtain row where "row \<in> set (pg_events ?db)" "immutable_part row = immutable_part h"
        using known by (auto simp: row_known_def)
      then have "ledger_step cd ?db db'"
        unfolding db' using keys b(3,4) immutable_fields(1-3) [of row h] by (intro add_anchor [of row]) simp_all
      moreover have "loop_ok db' (AnchorStored h a)"
        using known keys by (auto simp: loop_ok_def db' row_known_def anchor_known_def)
      ultimately show ?thesis
        using sign Inr node(1) by (intro movesI [of cd s _ i "?n\<lparr>nd_loop := AnchorStored h a\<rparr>"])
          (auto simp: node_tick_def AnchorHead node_ok_def)
    qed
  next
    case (AnchorStored h a)
    have "(ledger_step cd)\<^sup>=\<^sup>= ?db (snd (anchor_mark ?job h a ?db))"
      using pg_mark_effect [OF _ _ readable, of h faults] node(2)
      by (auto simp: anchor_mark_def pg_anchor_job_def AnchorStored loop_ok_def split: sum.split prod.split)
    with node(1) show ?thesis
      by (intro movesI [of cd s _ i "?n\<lparr>nd_loop := AnchorIdle\<rparr>"])
        (simp_all add: node_tick_def AnchorStored node_ok_def loop_ok_def)
  qed
qed

subsection \<open>Requests\<close>

lemma hold_effect:
  "snd (pg_set_legal_hold cd faults db i hold) = db \<or>
   (\<exists>i'. snd (pg_set_legal_hold cd faults db i hold) = db\<lparr>pg_events := map (set_hold i' hold) (pg_events db)\<rparr>)"
  by (auto simp: pg_set_legal_hold_def split: sum.split)

lemma create_job_effect:
  assumes "job_status j = ''PENDING''"
  shows "pg_jobs (snd (pg_create_job cd faults now db j)) = pg_jobs db \<or>
    (\<exists>r. pg_jobs (snd (pg_create_job cd faults now db j)) = pg_jobs db @ [r] \<and> pending_job cd r \<and>
       job_id r \<notin> job_id ` set (pg_jobs db))"
  using assms by (auto simp: pg_create_job_def run_statement_Inr and_then_Inr pending_job_def split: sum.split)

lemma request_moves:
  assumes ok: "fleet_ok cd s"
    and run: "serve (pg_api cd faults now files lib) ae t rq (node_view s (fl_node s i)) = (resp, st)"
  shows "moves cd s (answer_step i st s)"
proof -
  let ?db = "fl_db s" and ?n = "fl_node s i"
  have effect: "request_effect (pg_set_legal_hold cd faults) (pg_create_job cd faults now)
      (data_of (node_view s ?n)) (data_of st)"
    by (rule serve_effect [OF _ _ run]) (simp_all add: pg_api_def)
  then consider "as_events st = ?db" "as_exports st = ?db"
    | i' hold where "as_events st = snd (pg_set_legal_hold cd faults ?db i' hold)" "as_exports st = ?db"
    | j where "job_status j = ''PENDING''" "as_events st = ?db" "as_exports st = snd (pg_create_job cd faults now ?db j)"
    by (auto simp: request_effect_def data_of_def node_view_def)
  then have step: "(ledger_step cd)\<^sup>=\<^sup>= ?db ((as_events st)\<lparr>pg_jobs := pg_jobs (as_exports st)\<rparr>)"
  proof cases
    case (2 i' hold)
    then show ?thesis
      using hold_effect [of cd faults ?db i' hold] hold_row [of cd ?db] by auto
  next
    case (3 j)
    then show ?thesis
      using create_job_effect [OF 3(1), of cd faults now ?db] add_job [of cd _ ?db] by auto
  qed simp
  with fleet_node [OF ok, of i] loop_ok_grows [OF _ ledger_move_grows [OF step]] show ?thesis
    by (intro movesI [of cd s _ i "?n\<lparr>nd_policy := as_redactor st, nd_metrics := as_metrics st\<rparr>"])
      (simp_all add: answer_step_def node_ok_def)
qed

section \<open>The fleet refines the ledger\<close>

lemma fleet_step_moves:
  assumes "fleet_step cd s s'" and ok: "fleet_ok cd s" and steady: "steady_codec cd"
  shows "moves cd s s'"
  using assms(1)
proof (cases rule: fleet_step.cases)
  case (fleet_prepare i dp faults applied m fresh now tlib lib msg)
  with prepare_moves [OF ok fleet_prepare(3)] show ?thesis by simp
next
  case (fleet_finish dp faults applied m fresh now tlib i lib)
  with finish_moves [OF ok fleet_finish(2)] show ?thesis by simp
next
  case (fleet_anchor faults fresh signer notary_url i)
  then show ?thesis
    using tick_moves [OF ok steady] by simp
next
  case (fleet_request faults now files lib ae t rq i resp st)
  then show ?thesis
    using request_moves [OF ok fleet_request(2)] by simp
next
  case (fleet_lost i)
  with fleet_node [OF ok, of i] show ?thesis
    by (intro movesI [of cd s _ i "(fl_node s i)\<lparr>nd_loop := AnchorIdle\<rparr>"]) (simp_all add: node_ok_def loop_ok_def)
next
  case (fleet_restart i r)
  then show ?thesis
    by (intro movesI [of cd s _ i "fresh_node r"]) (simp_all add: fresh_node_ok)
qed

lemma fleet_start: "fleet_ok cd (start_fleet objs policy)"
  by (simp add: fleet_ok_def start_fleet_def ledger_ok_empty fresh_node_ok)

text \<open>For a codec that is not steady nothing is claimed.\<close>

interpretation fleet: simulation "\<lambda>s. \<exists>objs policy. s = start_fleet objs policy" "\<lambda>s s'. steady_codec cd \<and> fleet_step cd s s'"
  "fleet_ok cd" "\<lambda>db. db = empty_db" "ledger_step cd" fl_db
  for cd
proof
  show "fleet_ok cd s'" if "steady_codec cd \<and> fleet_step cd s s'" "fleet_ok cd s" for s s' :: "'a fleet"
    using that moves_ok fleet_step_moves by blast
  show "(ledger_step cd)\<^sup>*\<^sup>* (fl_db s) (fl_db s')" if "steady_codec cd \<and> fleet_step cd s s'" "fleet_ok cd s" for s s' :: "'a fleet"
    using that fleet_step_moves [of cd s s'] by (fastforce simp: moves_def)
  show "fleet_ok cd s" if "\<exists>objs policy. s = start_fleet objs policy" for s :: "'a fleet"
    using that by (auto simp: fleet_start)
qed (auto simp: start_fleet_def)

lemma fleet_run:
  assumes "(fleet_step cd)\<^sup>*\<^sup>* s s'" and "steady_codec cd" and "fleet_ok cd s"
  shows "fleet_ok cd s'" and "(ledger_step cd)\<^sup>*\<^sup>* (fl_db s) (fl_db s')"
proof -
  have "(\<lambda>s s'. steady_codec cd \<and> fleet_step cd s s')\<^sup>*\<^sup>* s s'"
    using assms(1,2) by simp
  then show "fleet_ok cd s'" "(ledger_step cd)\<^sup>*\<^sup>* (fl_db s) (fl_db s')"
    using fleet.run_ok fleet.run_abs assms(3) by blast+
qed

lemmas fleet_reachable = fleet_run [OF _ _ fleet_start]

section \<open>Anchoring from any state\<close>

lemma node_ticks:
  "nd_loop (fl_node s i) = AnchorIdle \<Longrightarrow> aj_chain_head job (fl_db s) = Inr (Some h) \<Longrightarrow>
     node_tick job i s = set_node i ((fl_node s i)\<lparr>nd_loop := AnchorHead h\<rparr>) s"
  "nd_loop (fl_node s i) = AnchorHead h \<Longrightarrow> anchor_sign job h (fl_db s) (fl_db s) = (Inr a, db') \<Longrightarrow>
     node_tick job i s = set_node i ((fl_node s i)\<lparr>nd_loop := AnchorStored h a\<rparr>) (s\<lparr>fl_db := db'\<rparr>)"
  "nd_loop (fl_node s i) = AnchorStored h a \<Longrightarrow>
     node_tick job i s = set_node i ((fl_node s i)\<lparr>nd_loop := AnchorIdle\<rparr>) (s\<lparr>fl_db := snd (anchor_mark job h a (fl_db s))\<rparr>)"
  by (simp_all add: node_tick_def)

lemma set_node_twice [simp]:
  "set_node i m (set_node i n s) = set_node i m s"
  "(set_node i n s)\<lparr>fl_db := db\<rparr> = set_node i n (s\<lparr>fl_db := db\<rparr>)"
  by (simp_all add: set_node_def)

text \<open>
  Three ticks of one replica that no fault meets: wherever the other replicas stand, the newest row is
  signed and stored and every row is flagged.
\<close>

lemma catch_up:
  fixes fresh :: string
  assumes ok: "fleet_ok cd s" and steady: "steady_codec cd" and idle: "nd_loop (fl_node s i) = AnchorIdle"
    and rows: "pg_events (fl_db s) \<noteq> []"
    and signed: "signer (ev_this_hash (last (pg_log (fl_db s)))) = Inr (sig, key)"
    and columns: "cd_time cd zero_time = Inr z" "cd_text cd key = Inr key'" "cd_text cd url = Inr url'"
  defines "tick \<equiv> node_tick (pg_anchor_job cd no_faults fresh signer url) i"
  shows "\<exists>b. an_root_hash b = ev_this_hash (last (pg_log (fl_db s))) \<and> an_signature b = sig \<and>
      fl_db (tick (tick (tick s))) = (fl_db s)\<lparr>pg_anchors := pg_anchors (fl_db s) @ [b],
        pg_events := map (\<lambda>r. r\<lparr>ev_anchored := True\<rparr>) (pg_events (fl_db s))\<rparr> \<and>
      nd_loop (fl_node (tick (tick (tick s))) i) = AnchorIdle"
proof -
  let ?job = "pg_anchor_job cd no_faults fresh signer url" and ?db = "fl_db s"
  define h where "h = last (pg_log ?db)"
  have db_ok: "ledger_ok cd ?db"
    using ok by (simp add: fleet_ok_def)
  have "pg_log ?db \<noteq> []"
    using rows by (simp add: pg_log_def) (metis set_empty set_sort)
  then have log: "pg_log ?db = butlast (pg_log ?db) @ [h]" and h: "h \<in> set (pg_events ?db)"
    by (simp_all add: h_def) (metis last_in_set set_pg_log)
  have head: "aj_chain_head ?job ?db = Inr (Some h)"
    by (simp add: pg_anchor_job_def pg_chain_head_def pg_log_def [symmetric]) (subst log, simp)
  have t1: "tick s = set_node i ((fl_node s i)\<lparr>nd_loop := AnchorHead h\<rparr>) s"
    unfolding tick_def by (rule node_ticks(1) [OF idle head])
  have known: "row_known ?db h"
    using h by (auto simp: row_known_def)
  have keys: "cd_uuid cd (ev_id h) = Inr (ev_id h)" "cd_time cd (ev_ts h) = Inr (ev_ts h)"
    using row_known_exact [OF known ledger_readable [OF db_ok steady]] by simp_all
  have size: "length (ev_this_hash h) = 32"
    by (rule ledger_row_hashes [OF db_ok h])
  define a where "a = \<lparr>an_id = fresh, an_anchored_at = zero_time, an_root_hash = ev_this_hash h, an_last_event_id = ev_id h,
    an_last_event_ts = ev_ts h, an_signature = sig, an_kms_key_id = key, an_notary_url = url, an_event_count = 1\<rparr>"
  define b where "b = a\<lparr>an_anchored_at := z, an_kms_key_id := key', an_notary_url := url'\<rparr>"
  have sign: "anchor_sign ?job h ?db ?db = (Inr a, ?db\<lparr>pg_anchors := pg_anchors ?db @ [b]\<rparr>)"
    using size signed columns keys
    by (simp add: anchor_sign_def pg_anchor_job_def pg_insert_anchor_def a_def b_def Let_def flip: h_def)
  have t2: "tick (tick s) = set_node i ((fl_node s i)\<lparr>nd_loop := AnchorStored h a\<rparr>)
      (s\<lparr>fl_db := ?db\<lparr>pg_anchors := pg_anchors ?db @ [b]\<rparr>\<rparr>)"
    unfolding t1 unfolding tick_def using node_ticks(2) [of "set_node i ((fl_node s i)\<lparr>nd_loop := AnchorHead h\<rparr>) s" i h ?job a] sign
    by simp
  have "covered_by (ev_ts h) (ev_id h) r" if "r \<in> set (pg_events ?db)" for r
    using pg.log_ascending [OF ledger_readable [OF db_ok steady]] that ascending_last_max [of ev_key "pg_log ?db" r]
    by (simp add: covered_by_key h_def ev_key_def)
  then have all: "map (anchor_event (ev_ts h) (ev_id h)) (pg_events ?db) = map (\<lambda>r. r\<lparr>ev_anchored := True\<rparr>) (pg_events ?db)"
    by (simp add: anchor_event_def)
  have t3: "tick (tick (tick s)) = set_node i ((fl_node s i)\<lparr>nd_loop := AnchorIdle\<rparr>)
      (s\<lparr>fl_db := ?db\<lparr>pg_anchors := pg_anchors ?db @ [b], pg_events := map (\<lambda>r. r\<lparr>ev_anchored := True\<rparr>) (pg_events ?db)\<rparr>\<rparr>)"
    unfolding t2 unfolding tick_def using keys all
    by (subst node_ticks(3) [of _ i h a])
      (simp_all add: anchor_mark_def pg_anchor_job_def pg_mark_anchored_def mark_unanchored)
  show ?thesis
    unfolding t3 h_def [symmetric] by (rule exI [of _ b]) (simp add: b_def a_def)
qed

section \<open>Samples\<close>

lemma steady_samples: "steady_codec sample_codec" "steady_codec nano_codec"
  by (auto simp: steady_codec_def sample_codec_def nano_codec_def split: if_splits)

text \<open>Two replicas: the first stores an event, the second anchors it.\<close>

definition fleet_lib :: "(pg_db, unit, pg_db) deps" where
  "fleet_lib =
     \<lparr>dp_insert_chained = pg_insert_chained nano_codec no_faults False,
      dp_put = Some (\<lambda>objs bucket opts body. (Inr (bytes_of (po_key opts)), objs)), dp_payload_bucket = ''b'',
      dp_storage_class = ''STANDARD'', dp_retention_days = 2555, dp_legal_hold_default = False,
      dp_redactor = None, dp_dead_letters = None, dp_topic = ''audit.v1'',
      dp_unmarshal = (\<lambda>b. Inr sample_envelope), dp_error_text = (\<lambda>e. '''')\<rparr>"

definition fleet_deps :: "(pg_db, unit, pg_db) deps" where
  "fleet_deps = pg_deps nano_codec no_faults False 0 ''f'' (Time 9) (reloader_apply sample_lib no_policy) fleet_lib"

definition empty_fleet :: "unit fleet" where
  "empty_fleet = start_fleet () (\<lambda>i. no_policy)"

definition one_row_fleet :: "unit fleet" where
  "one_row_fleet = finish_step fleet_deps 0 (prepare_step fleet_deps sample_message 0 empty_fleet)"

definition sample_signer :: "bytes \<Rightarrow> (bytes \<times> string) result" where
  "sample_signer root = Inr (root, ''k'')"

definition sample_tick :: "unit fleet \<Rightarrow> unit fleet" where
  "sample_tick = node_tick (pg_anchor_job nano_codec no_faults ''i'' sample_signer '''') 1"

definition anchored_fleet :: "unit fleet" where
  "anchored_fleet = sample_tick (sample_tick (sample_tick one_row_fleet))"

definition fleet_row :: event where
  "fleet_row = (let row = payload_row fleet_deps sample_envelope (sha256 [7]) ''a'' False in
     link_event (chain_hash_fn row) (replicate 32 0) row)"

lemma node_policies: "nd_policy (fl_node empty_fleet i) = no_policy"
  by (simp add: empty_fleet_def start_fleet_def fresh_node_def)

lemma sample_prepare:
  "\<exists>w. ingest_prepare fleet_deps sample_message (node_world empty_fleet (fl_node empty_fleet 0)) =
     (Inr (sample_envelope, sha256 [7], payload_row fleet_deps sample_envelope (sha256 [7]) ''a'' False), w) \<and>
     is_dead w = empty_db"
proof -
  have dec: "decode_and_validate (dp_unmarshal fleet_deps) (im_value sample_message) = Inr sample_envelope"
    using sample_steps(1) by (simp add: fleet_deps_def pg_deps_def fleet_lib_def sample_deps_def mem_deps_def)
  have red: "redact_payload fleet_deps sample_envelope [7] = Inr ([7], False)"
    by (simp add: fleet_deps_def pg_deps_def redact_payload_def reloader_apply_def no_policy_def policy_apply_def)
  have put: "put_payload fleet_deps sample_envelope [7] st = (Inr ''a'', st)" for st
    by (simp add: put_payload_def fleet_deps_def pg_deps_def fleet_lib_def payload_options_def sample_envelope_def)
  show ?thesis
    using sample_steps(2,4)
    by (simp add: ingest_prepare_def prepare_decoded_def Let_def dec red put node_world_def empty_fleet_def start_fleet_def)
qed

lemma one_row_fleet_run: "(fleet_step nano_codec)\<^sup>*\<^sup>* empty_fleet one_row_fleet"
proof -
  let ?s1 = "prepare_step fleet_deps sample_message 0 empty_fleet"
  have deps: "fleet_deps = pg_deps nano_codec no_faults False 0 ''f'' (Time 9)
      (reloader_apply sample_lib (nd_policy (fl_node empty_fleet 0))) fleet_lib"
    by (simp add: fleet_deps_def node_policies)
  have "nd_policy (fl_node ?s1 0) = no_policy"
    by (simp add: prepare_step_def Let_def node_policies split: prod.split sum.split)
  then have deps1: "fleet_deps = pg_deps nano_codec no_faults False 0 ''f'' (Time 9)
      (reloader_apply sample_lib (nd_policy (fl_node ?s1 0))) fleet_lib"
    by (simp add: fleet_deps_def)
  have "fleet_step nano_codec empty_fleet ?s1"
    by (rule fleet_prepare [OF _ deps]) (simp add: empty_fleet_def start_fleet_def fresh_node_def)
  moreover have "fleet_step nano_codec ?s1 one_row_fleet"
    unfolding one_row_fleet_def by (rule fleet_finish [OF deps1])
  ultimately show ?thesis
    by (meson r_into_rtranclp rtranclp.rtrancl_into_rtrancl)
qed

lemma one_row_fleet_db: "fl_db one_row_fleet = empty_db\<lparr>pg_events := [fleet_row]\<rparr>"
proof -
  let ?row = "payload_row fleet_deps sample_envelope (sha256 [7]) ''a'' False"
  let ?s1 = "prepare_step fleet_deps sample_message 0 empty_fleet"
  have s1: "nd_consumer (fl_node ?s1 0) = Prepared sample_envelope (sha256 [7]) ?row" "fl_db ?s1 = empty_db"
    using sample_prepare by (auto simp: prepare_step_def Let_def)
  have hash: "envelope_hash_fn sample_envelope (sha256 [7]) = chain_hash_fn ?row"
    by (simp add: fun_eq_iff envelope_hash_fn_def chain_hash_fn_def payload_row_def)
  have exact: "exact_event nano_codec ?row"
    by (simp add: exact_event_def exact_defs nano_codec_def sample_codec_def payload_row_def sample_envelope_def)
  have "pg_insert_snapshot nano_codec no_faults False 0 empty_db ?row (chain_hash_fn ?row) =
      (Inr True, fleet_row, empty_db\<lparr>pg_events := [fleet_row]\<rparr>)"
    using encode_exact [of nano_codec fleet_row] exact
    by (simp add: pg_insert_snapshot_current pg_insert_chained_def head_hash_def empty_db_def Let_def insert_event_row_def fleet_row_def
        link_event_def [symmetric])
  then show ?thesis
    using s1 hash
    by (simp add: one_row_fleet_def finish_step_def Let_def ingest_finish_def insert_row_def node_world_def
        fleet_deps_def pg_deps_def frame_simps)
qed

lemma one_row_fleet_ok: "fleet_ok nano_codec one_row_fleet"
  by (rule fleet_reachable(1) [OF one_row_fleet_run [unfolded empty_fleet_def] steady_samples(2)])

lemma sample_tick_run: "(fleet_step cd)\<^sup>*\<^sup>* s s' \<Longrightarrow> cd = nano_codec \<Longrightarrow> (fleet_step cd)\<^sup>*\<^sup>* s (sample_tick s')"
  unfolding sample_tick_def by (meson fleet_anchor rtranclp.rtrancl_into_rtrancl)

lemma anchored_fleet_run: "(fleet_step nano_codec)\<^sup>*\<^sup>* empty_fleet anchored_fleet"
  unfolding anchored_fleet_def using one_row_fleet_run by (intro sample_tick_run) simp_all

lemma sample_caught_up:
  "nd_loop (fl_node anchored_fleet 1) = AnchorIdle \<and> (\<exists>b. an_root_hash b = ev_this_hash fleet_row \<and>
     fl_db anchored_fleet = empty_db\<lparr>pg_events := [fleet_row\<lparr>ev_anchored := True\<rparr>], pg_anchors := [b]\<rparr>)"
proof -
  have idle: "nd_loop (fl_node one_row_fleet 1) = AnchorIdle"
    by (simp add: one_row_fleet_def finish_step_def prepare_step_def Let_def empty_fleet_def start_fleet_def fresh_node_def
        split: consumer_phase.split prod.split sum.split)
  have log: "pg_log (fl_db one_row_fleet) = [fleet_row]"
    by (simp add: one_row_fleet_db pg_log_def)
  have rows: "pg_events (fl_db one_row_fleet) \<noteq> []"
    by (simp add: one_row_fleet_db)
  have columns: "cd_time nano_codec zero_time = Inr zero_time" "cd_text nano_codec ''k'' = Inr ''k''"
    "cd_text nano_codec '''' = Inr ''''"
    by (simp_all add: nano_codec_def sample_codec_def)
  have signed: "sample_signer (ev_this_hash (last (pg_log (fl_db one_row_fleet)))) = Inr (ev_this_hash fleet_row, ''k'')"
    by (simp add: log sample_signer_def)
  obtain b where b: "an_root_hash b = ev_this_hash fleet_row" and "nd_loop (fl_node anchored_fleet 1) = AnchorIdle" and after: "fl_db anchored_fleet =
      (fl_db one_row_fleet)\<lparr>pg_anchors := pg_anchors (fl_db one_row_fleet) @ [b],
        pg_events := map (\<lambda>r. r\<lparr>ev_anchored := True\<rparr>) (pg_events (fl_db one_row_fleet))\<rparr>"
    using catch_up [where signer = sample_signer and s = one_row_fleet and cd = nano_codec and i = 1 and fresh = "''i''",
        OF one_row_fleet_ok steady_samples(2) idle rows signed columns]
    unfolding anchored_fleet_def sample_tick_def log by auto
  then show ?thesis
    by (auto intro!: exI [of _ b] simp: one_row_fleet_db empty_db_def)
qed

lemmas anchored_fleet_db = sample_caught_up [THEN conjunct2]

lemma anchored_fleet_idle: "nd_loop (fl_node anchored_fleet 1) = AnchorIdle"
  using sample_caught_up by simp

section \<open>Properties\<close>

text \<open>
  Property C5. The deployed service refines its ledger: whatever any number of replicas do, in any
  interleaving of their message steps, anchor steps and requests, with statements that fail, commits whose
  answer is lost and replicas that stop and restart, every step from a reachable state either leaves the
  shared database as it is or is one step of the specification: a row linked to the newest one is added (or,
  if it is late, linked to the newest one of an earlier state), an anchor of a stored row is added, flags that
  an anchor covers are set, a hold is switched, a dead letter or a new pending job is added. The database
  starts empty, so each of its states is one that the specification reaches. The column types are assumed to
  return what they returned once.
\<close>

theorem fleet_refines_ledger:
  assumes "(fleet_step cd)\<^sup>*\<^sup>* (start_fleet objs policy) s" and "fleet_step cd s s'" and "steady_codec cd"
  shows "(fl_db s' = fl_db s \<or> ledger_step cd (fl_db s) (fl_db s')) \<and> (ledger_step cd)\<^sup>*\<^sup>* empty_db (fl_db s)"
proof -
  have "moves cd s s'"
    by (rule fleet_step_moves [OF assms(2) fleet_reachable(1) [OF assms(1,3)] assms(3)])
  then show ?thesis
    using fleet_reachable(2) [OF assms(1,3)] by (auto simp: moves_def start_fleet_def)
qed

theorem fleet_refines_ledger_witness:
  "(ledger_step nano_codec)\<^sup>*\<^sup>* empty_db (fl_db one_row_fleet) \<and> length (pg_events (fl_db one_row_fleet)) = 1 \<and>
   fl_db (sample_tick one_row_fleet) \<in> {fl_db one_row_fleet} \<union> Collect (ledger_step nano_codec (fl_db one_row_fleet))"
proof -
  have "fleet_step nano_codec one_row_fleet (sample_tick one_row_fleet)"
    unfolding sample_tick_def by (rule fleet_anchor)
  from fleet_refines_ledger [OF one_row_fleet_run [unfolded empty_fleet_def] this steady_samples(2)] show ?thesis
    by (auto simp: one_row_fleet_db)
qed

text \<open>
  Property C4. Nothing in the shared database is ever lost or rewritten: from any reachable state of the fleet on,
  the rows stay in their insertion order with all their columns but the two flags, no anchored flag is taken
  back, and anchors, export jobs and dead letters are only added; no fault, lost answer or restart of a
  replica changes that.
\<close>

theorem fleet_only_appends:
  assumes "(fleet_step cd)\<^sup>*\<^sup>* (start_fleet objs policy) s" and "(fleet_step cd)\<^sup>*\<^sup>* s s'" and "steady_codec cd"
  shows "prefix (map immutable_part (pg_events (fl_db s))) (map immutable_part (pg_events (fl_db s'))) \<and>
    (\<forall>k < length (pg_events (fl_db s)). ev_anchored (pg_events (fl_db s) ! k) \<longrightarrow> ev_anchored (pg_events (fl_db s') ! k)) \<and>
    prefix (pg_anchors (fl_db s)) (pg_anchors (fl_db s')) \<and> prefix (pg_jobs (fl_db s)) (pg_jobs (fl_db s')) \<and>
    prefix (pg_dead (fl_db s)) (pg_dead (fl_db s'))"
  using ledger_run_grows [OF fleet_run(2) [OF assms(2,3) fleet_reachable(1) [OF assms(1,3)]]] by (simp add: grows_def)

theorem fleet_only_appends_witness:
  "prefix [immutable_part fleet_row] (map immutable_part (pg_events (fl_db anchored_fleet)))"
proof -
  have "(fleet_step nano_codec)\<^sup>*\<^sup>* one_row_fleet anchored_fleet"
    unfolding anchored_fleet_def by (intro sample_tick_run) simp_all
  from fleet_only_appends [OF one_row_fleet_run [unfolded empty_fleet_def] this steady_samples(2)] show ?thesis
    by (simp add: one_row_fleet_db)
qed

text \<open>
  Property C3. Rows are linked to the newest row before them, and only late rows fork. The ids are distinct,
  and the \<open>k\<close>-th row that the replicas inserted is, up to its two flags, what the column types make of an
  event that ingest built; its hash is the hash of that event, before the column types changed anything. It is
  linked to the newest by \<open>(ts, id)\<close> of the first \<open>k\<close> rows, or, if it is late (one of them is newer than it), of
  some of the first of them. If two rows have the same predecessor, one of the two is late or two hashes clash
  (two stored rows have the same hash, or one has the hash of the empty chain). A transaction may read any
  earlier state of the table, and the server admits what a serializable one may (\<open>admits_snapshot\<close>). The column
  types are assumed to return what they returned once.
\<close>

theorem fleet_rows_link_to_newest:
  assumes "(fleet_step cd)\<^sup>*\<^sup>* (start_fleet objs policy) s" and "steady_codec cd"
    and "k < length (pg_events (fl_db s))"
  defines "rows \<equiv> pg_events (fl_db s)"
  defines "prev \<equiv> ev_prev_hash (rows ! k)"
  shows "distinct (map ev_id rows) \<and>
    (\<exists>e r. admissible_event e \<and> ev_this_hash (rows ! k) = chain_hash_fn e prev \<and>
       encode_row cd (link_event (chain_hash_fn e) prev e) = Inr r \<and> immutable_part (rows ! k) = immutable_part r) \<and>
    (prev = tip_of (take k rows) \<or> late rows k \<and> (\<exists>m \<le> k. prev = tip_of (take m rows))) \<and>
    (\<forall>j < k. ev_prev_hash (rows ! j) = prev \<longrightarrow> late rows j \<or> late rows k \<or> hash_clash rows)"
proof -
  have ok: "ledger_ok cd (fl_db s)"
    using fleet_reachable(1) [OF assms(1,2)] by (simp add: fleet_ok_def)
  have k: "k < length rows" and ids: "distinct (map ev_id rows)"
    using assms(3) ledger_okD(1) [OF ok] by (simp_all add: rows_def pg_inv_def)
  obtain m e r where e: "admissible_event e" "stored_as cd (take m rows) e = Inr r" and "m \<le> k"
    and same: "immutable_part (rows ! k) = immutable_part r"
    and newest: "tip_of (take m rows) = tip_of (take k rows) \<or> late rows k"
    using ledger_okD(2) [OF ok, of k] k by (auto simp: inserted_at_def rows_def)
  have prev: "prev = tip_of (take m rows)"
    using stored_as_fields(3) [OF e(2)] immutable_fields(4) [OF same] by (simp add: prev_def)
  have "ev_this_hash (rows ! k) = chain_hash_fn e prev"
    using stored_as_fields(3,4) [OF e(2)] immutable_fields(3) [OF same] prev by simp
  moreover have "encode_row cd (link_event (chain_hash_fn e) prev e) = Inr r"
    using e(2) by (simp add: stored_as_def prev)
  moreover have "late rows j \<or> late rows k \<or> hash_clash rows" if "j < k" "ev_prev_hash (rows ! j) = prev" for j
    using fork_is_late [OF ids _ _ that(1) k] ledger_linked_unless_late [OF ok] that(2) unfolding rows_def prev_def by blast
  ultimately show ?thesis
    using ids e(1) same newest \<open>m \<le> k\<close> prev by metis
qed

theorem fleet_rows_link_to_newest_witness:
  "ev_prev_hash (pg_events (fl_db anchored_fleet) ! 0) = zero_hash \<and>
   (\<exists>e :: event. ev_this_hash (pg_events (fl_db anchored_fleet) ! 0) = chain_hash_fn e zero_hash)"
  using fleet_rows_link_to_newest [OF anchored_fleet_run [unfolded empty_fleet_def] steady_samples(2), of 0] anchored_fleet_db
  by auto blast+

text \<open>
  Property C11. Anchors and flags mean what they say, however many replicas run their anchor loops side by side
  and wherever they fail: every stored anchor names a stored row by id and time and carries that row's hash,
  and a row is flagged as anchored only if it is at or before the row that some stored anchor names.
\<close>

theorem fleet_anchors_are_backed:
  assumes "(fleet_step cd)\<^sup>*\<^sup>* (start_fleet objs policy) s" and "steady_codec cd"
  shows "(\<forall>a \<in> set (pg_anchors (fl_db s)). \<exists>r \<in> set (pg_events (fl_db s)).
      ev_id r = an_last_event_id a \<and> ev_ts r = an_last_event_ts a \<and> ev_this_hash r = an_root_hash a) \<and>
    (\<forall>r \<in> set (pg_events (fl_db s)). ev_anchored r \<longrightarrow>
      (\<exists>a \<in> set (pg_anchors (fl_db s)). covered_by (an_last_event_ts a) (an_last_event_id a) r))"
proof -
  have "ledger_ok cd (fl_db s)"
    using fleet_reachable(1) [OF assms] by (simp add: fleet_ok_def)
  then show ?thesis
    using ledger_okD(3,4) unfolding anchors_sound_def flags_covered_def by blast
qed

theorem fleet_anchors_are_backed_witness:
  "\<exists>a. pg_anchors (fl_db anchored_fleet) = [a] \<and> an_root_hash a = ev_this_hash fleet_row \<and> an_last_event_id a = ev_id fleet_row"
  using fleet_anchors_are_backed [OF anchored_fleet_run [unfolded empty_fleet_def] steady_samples(2)] anchored_fleet_db
  by auto

text \<open>
  Property C12. Over PostgreSQL a sweep accuses nobody without a reason. If the events reached the fleet in
  \<open>(ts, id)\<close> order, then a sweep whose bounds the time column keeps as they are (whole microseconds on
  PostgreSQL, or no bound), whose context is not cancelled and whose event queries do not fail returns a report
  without anchor mismatches, and its status is OK exactly if each row of the window still hashes to its own
  hash, that is, if the column types returned the event as it was hashed: replicas, holds, anchorings and the
  faults of the fleet's own statements cannot break a link. The anchor query may fail. No stored time is zero
  (ingest refuses such events), and a value that a column type has returned is returned again as it is. Bounds
  that the column rounds, which the API and the command accept, select another window.
\<close>

theorem fleet_in_order_sweep:
  fixes lo hi :: time
  assumes "(fleet_step cd)\<^sup>*\<^sup>* (start_fleet objs policy) s" and "steady_codec cd"
    and "ascending ev_key (pg_events (fl_db s))" and "\<forall>r \<in> set (pg_events (fl_db s)). \<not> is_zero (ev_ts r)"
    and "\<forall>k. \<not> cancelled k" and "exact_filter cd (sweep_filter lo hi)"
  shows "\<exists>rep. sweep cancelled (pg_list cd no_faults (fl_db s)) (pg_get cd no_faults (fl_db s))
      (Some (pg_list_anchors cd faults (fl_db s))) lo hi signer now = Some (Inr rep) \<and>
    rp_anchor_mismatches rep = 0 \<and>
    (rp_status rep = StatusOK \<longleftrightarrow>
      (\<forall>r \<in> set (pg_events (fl_db s)). matches_fields (sweep_filter lo hi) r \<longrightarrow> ev_this_hash r = event_hash r))"
proof -
  let ?rows = "[r \<leftarrow> pg_log (fl_db s). matches_fields (sweep_filter lo hi) r]"
  have ok: "ledger_ok cd (fl_db s)"
    using fleet_reachable(1) [OF assms(1,2)] by (simp add: fleet_ok_def)
  note linked = ledger_linked [OF ok assms(3)]
  obtain m n where "?rows = take n (drop m (pg_log (fl_db s)))"
    using window_contiguous [of "pg_log (fl_db s)" lo hi] assms(3) linked(1) by auto
  then have "linked ?rows"
    using linked linked_window by simp
  then have "intact ?rows \<longleftrightarrow> (\<forall>r \<in> set (pg_events (fl_db s)). matches_fields (sweep_filter lo hi) r \<longrightarrow> ev_this_hash r = event_hash r)"
    by (auto simp: intact_def hash_ok_def)
  then show ?thesis
    using ledger_sweep [OF ok assms(2,4,5,6), of faults signer now] by auto
qed

theorem fleet_in_order_sweep_witness:
  "\<exists>rep. sweep (\<lambda>k. False) (pg_list nano_codec no_faults (fl_db anchored_fleet)) (pg_get nano_codec no_faults (fl_db anchored_fleet))
      (Some (pg_list_anchors nano_codec no_faults (fl_db anchored_fleet))) zero_time zero_time None (Time 9) = Some (Inr rep) \<and>
    rp_anchor_mismatches rep = 0 \<and> rp_status rep = StatusOK"
proof -
  obtain b where db: "fl_db anchored_fleet = empty_db\<lparr>pg_events := [fleet_row\<lparr>ev_anchored := True\<rparr>], pg_anchors := [b]\<rparr>"
    using anchored_fleet_db by blast
  have row: "\<not> is_zero (ev_ts fleet_row)" "ev_this_hash fleet_row = event_hash (fleet_row\<lparr>ev_anchored := True\<rparr>)"
    by (simp_all add: fleet_row_def Let_def payload_row_def sample_envelope_def is_zero_def zero_time_def event_hash_def
        chain_hash_fn_def link_event_def)
  have exact: "exact_filter nano_codec (sweep_filter zero_time zero_time)"
    by (simp add: exact_filter_def sweep_filter_def zero_filter_def zero_cursor_def)
  show ?thesis
    using fleet_in_order_sweep [OF anchored_fleet_run [unfolded empty_fleet_def] steady_samples(2) _ _ _ exact,
        of "\<lambda>k. False" no_faults None "Time 9"] row
    by (simp add: db)
qed

text \<open>
  Property C14. A sweep with a lower bound checks no anchor over PostgreSQL: the anchor job leaves the time of
  an anchor zero and the insert passes it on, so every anchor is dated in the year 1; the report counts no
  anchor, and an altered root would not be noticed.
\<close>

theorem fleet_windowed_sweep_checks_no_anchor:
  fixes lo hi :: time
  assumes "(fleet_step cd)\<^sup>*\<^sup>* (start_fleet objs policy) s" and "steady_codec cd"
    and "cd_time cd zero_time = Inr zero_time" and "zero_time < lo" and "exact_time cd lo" and "is_zero hi \<or> exact_time cd hi"
    and "\<forall>r \<in> set (pg_events (fl_db s)). \<not> is_zero (ev_ts r)" and "\<forall>k. \<not> cancelled k"
  shows "\<exists>rep. sweep cancelled (pg_list cd no_faults (fl_db s)) (pg_get cd no_faults (fl_db s))
      (Some (pg_list_anchors cd no_faults (fl_db s))) lo hi signer now = Some (Inr rep) \<and>
    rp_anchor_count rep = 0 \<and> rp_checked_anchors rep = 0"
proof -
  have ok: "ledger_ok cd (fl_db s)"
    using fleet_reachable(1) [OF assms(1,2)] by (simp add: fleet_ok_def)
  show ?thesis
    using ledger_unchecked [OF ok assms(2,3,4,5,6,7)] assms(8) by blast
qed

theorem fleet_windowed_sweep_checks_no_anchor_witness:
  "length (pg_anchors (fl_db anchored_fleet)) = 1 \<and>
   (\<exists>rep. sweep (\<lambda>k. False) (pg_list nano_codec no_faults (fl_db anchored_fleet)) (pg_get nano_codec no_faults (fl_db anchored_fleet))
      (Some (pg_list_anchors nano_codec no_faults (fl_db anchored_fleet))) (Time 1) zero_time None (Time 9) = Some (Inr rep) \<and>
    rp_anchor_count rep = 0)"
proof -
  obtain b where db: "fl_db anchored_fleet = empty_db\<lparr>pg_events := [fleet_row\<lparr>ev_anchored := True\<rparr>], pg_anchors := [b]\<rparr>"
    using anchored_fleet_db by blast
  have row: "\<not> is_zero (ev_ts fleet_row)"
    by (simp add: fleet_row_def Let_def payload_row_def sample_envelope_def is_zero_def zero_time_def link_event_def)
  have codec: "cd_time nano_codec zero_time = Inr zero_time" "exact_time nano_codec (Time 1)" "zero_time < Time 1"
    by (simp_all add: nano_codec_def exact_time_def zero_time_def less_time_def)
  show ?thesis
    using fleet_windowed_sweep_checks_no_anchor [OF anchored_fleet_run [unfolded empty_fleet_def] steady_samples(2) codec(1,3,2),
        of zero_time "\<lambda>k. False" None "Time 9"] row
    by (auto simp: db)
qed

text \<open>
  Property C13. Anchoring catches up: in every reachable state, wherever the other replicas are and whatever
  failed before, three steps of an idle anchor loop that no fault meets store a signed anchor with the hash
  of the newest row and leave every row flagged, so an anchor run that was lost is made good by any replica.
\<close>

theorem fleet_anchoring_catches_up:
  fixes fresh :: string
  assumes "(fleet_step cd)\<^sup>*\<^sup>* (start_fleet objs policy) s" and "steady_codec cd"
    and "nd_loop (fl_node s i) = AnchorIdle" and "pg_events (fl_db s) \<noteq> []"
    and "signer (ev_this_hash (last (pg_log (fl_db s)))) = Inr (sig, key)"
    and "cd_time cd zero_time = Inr z" and "cd_text cd key = Inr key'" and "cd_text cd url = Inr url'"
  defines "tick \<equiv> node_tick (pg_anchor_job cd no_faults fresh signer url) i"
  shows "\<exists>b. an_root_hash b = ev_this_hash (last (pg_log (fl_db s))) \<and> an_signature b = sig \<and>
    pg_anchors (fl_db (tick (tick (tick s)))) = pg_anchors (fl_db s) @ [b] \<and>
    pg_events (fl_db (tick (tick (tick s)))) = map (\<lambda>r. r\<lparr>ev_anchored := True\<rparr>) (pg_events (fl_db s)) \<and>
    nd_loop (fl_node (tick (tick (tick s))) i) = AnchorIdle"
  using catch_up [where s = s and cd = cd and i = i and signer = signer and url = url and fresh = fresh,
      OF fleet_reachable(1) [OF assms(1,2)] assms(2-8)]
  unfolding tick_def by fastforce

theorem fleet_anchoring_catches_up_witness:
  "\<exists>b. an_root_hash b = ev_this_hash fleet_row \<and>
     pg_anchors (fl_db (sample_tick (sample_tick (sample_tick anchored_fleet)))) = pg_anchors (fl_db anchored_fleet) @ [b]"
proof -
  obtain b where db: "fl_db anchored_fleet = empty_db\<lparr>pg_events := [fleet_row\<lparr>ev_anchored := True\<rparr>], pg_anchors := [b]\<rparr>"
    using anchored_fleet_db by blast
  have idle: "nd_loop (fl_node anchored_fleet 1) = AnchorIdle"
    by (rule anchored_fleet_idle)
  have columns: "cd_time nano_codec zero_time = Inr zero_time" "cd_text nano_codec ''k'' = Inr ''k''"
    "cd_text nano_codec '''' = Inr ''''"
    by (simp_all add: nano_codec_def sample_codec_def)
  have rows: "pg_events (fl_db anchored_fleet) \<noteq> []" and log: "pg_log (fl_db anchored_fleet) = [fleet_row\<lparr>ev_anchored := True\<rparr>]"
    by (simp_all add: db pg_log_def)
  have signed: "sample_signer (ev_this_hash (last (pg_log (fl_db anchored_fleet)))) = Inr (ev_this_hash fleet_row, ''k'')"
    by (simp add: log sample_signer_def)
  show ?thesis
    using fleet_anchoring_catches_up [where signer = sample_signer and s = anchored_fleet and cd = nano_codec and i = 1
        and fresh = "''i''", OF anchored_fleet_run [unfolded empty_fleet_def] steady_samples(2) idle rows signed columns]
    unfolding sample_tick_def by (auto simp: log)
qed

end
