(* ===== verification/Telemetry.thy ===== *)
theory Telemetry
  imports Ingest Config
begin

text \<open>
  \<open>internal/otel/otel.go\<close>: the process-wide tracer and meter providers, and the shutdown function that
  \<open>Init\<close> hands out; \<open>internal/metrics/metrics.go\<close>: the collectors and their one registration.
  The OpenTelemetry SDK (merging resources, creating exporters, stopping a provider) is a parameter.
\<close>

section \<open>Init\<close>

record ('r, 'x, 'y, 's) otel_lib =
  ol_resource :: "string \<Rightarrow> 'r result"
  ol_span_exporter :: "string \<Rightarrow> 'x result"
  ol_metric_exporter :: "string \<Rightarrow> 'y result"
  ol_stop_tracer :: "'x \<times> 'r \<Rightarrow> 's \<Rightarrow> go_error option \<times> 's"
  ol_stop_meter :: "'y \<times> 'r \<Rightarrow> 's \<Rightarrow> go_error option \<times> 's"

text \<open>A provider without exporter, or one that exports; \<open>None\<close> while the process has set none.\<close>

datatype 'p provider = PlainProvider | ExportingProvider 'p

datatype propagator = TraceContext | Baggage

record ('r, 'x, 'y) otel_globals =
  og_tracer :: "('x \<times> 'r) provider option"
  og_meter :: "('y \<times> 'r) provider option"
  og_propagator :: "propagator list option"

definition unset_globals :: "('r, 'x, 'y) otel_globals" where
  "unset_globals = \<lparr>og_tracer = None, og_meter = None, og_propagator = None\<rparr>"

text \<open>What the returned function does to the world the providers export to: both are always stopped, and
  the error of the tracer is preferred.\<close>

definition stop_providers ::
  "('r, 'x, 'y, 's) otel_lib \<Rightarrow> 'x \<times> 'r \<Rightarrow> 'y \<times> 'r \<Rightarrow> 's \<Rightarrow> go_error option \<times> 's" where
  "stop_providers lib tp mp s =
     (case ol_stop_tracer lib tp s of
        (err, s1) \<Rightarrow>
          (case ol_stop_meter lib mp s1 of
             (err', s2) \<Rightarrow>
               (let trace_err = map_option (ErrWrap ''trace shutdown'') err;
                    metric_err = map_option (ErrWrap ''metric shutdown'') err'
                in (if trace_err \<noteq> None then trace_err else metric_err, s2))))"

definition otel_endpoint :: "env \<Rightarrow> string" where
  "otel_endpoint en = trim_space (getenv en ''OTEL_EXPORTER_OTLP_ENDPOINT'')"

definition otel_service_name :: "env \<Rightarrow> string \<Rightarrow> string" where
  "otel_service_name en service_name =
     (let name = trim_space (getenv en ''OTEL_SERVICE_NAME'') in if name \<noteq> '''' then name else service_name)"

definition strip_scheme :: "string \<Rightarrow> string" where
  "strip_scheme endpoint = trim_prefix (trim_prefix endpoint ''http://'') ''grpc://''"

definition otel_init ::
  "('r, 'x, 'y, 's) otel_lib \<Rightarrow> env \<Rightarrow> string \<Rightarrow> ('r, 'x, 'y) otel_globals \<Rightarrow>
   ('s \<Rightarrow> go_error option \<times> 's) result \<times> ('r, 'x, 'y) otel_globals" where
  "otel_init lib en service_name g =
     (let endpoint = otel_endpoint en in
      if endpoint = '''' then
        (Inr (\<lambda>s. (None, s)),
         g\<lparr>og_tracer := Some PlainProvider, og_meter := Some PlainProvider,
           og_propagator := Some [TraceContext, Baggage]\<rparr>)
      else
        (let name = otel_service_name en service_name;
             target = strip_scheme endpoint
         in case ol_resource lib name of
              Inl err \<Rightarrow> (Inl (ErrWrap ''otel resource'' err), g)
            | Inr res \<Rightarrow>
                (case ol_span_exporter lib target of
                   Inl err \<Rightarrow> (Inl (ErrWrap ''otel trace exporter'' err), g)
                 | Inr span_exp \<Rightarrow>
                     (case ol_metric_exporter lib target of
                        Inl err \<Rightarrow> (Inl (ErrWrap ''otel metric exporter'' err), g)
                      | Inr metric_exp \<Rightarrow>
                          (let tp = (span_exp, res); mp = (metric_exp, res) in
                           (Inr (stop_providers lib tp mp),
                            g\<lparr>og_tracer := Some (ExportingProvider tp), og_meter := Some (ExportingProvider mp),
                              og_propagator := Some [TraceContext, Baggage]\<rparr>))))))"

text \<open>An error leaves the providers of the process as they were.\<close>

lemma otel_init_error_keeps: "otel_init lib en name g = (Inl err, g') \<Longrightarrow> g' = g"
  by (auto simp: otel_init_def Let_def split: if_splits sum.splits)

lemma otel_init_sets:
  "otel_init lib en name g = (Inr stop, g') \<Longrightarrow>
   og_tracer g' \<noteq> None \<and> og_meter g' \<noteq> None \<and> og_propagator g' = Some [TraceContext, Baggage]"
  by (auto simp: otel_init_def Let_def split: if_splits sum.splits)

lemma otel_init_stop:
  assumes "otel_init lib en name g = (Inr stop, g')" and "otel_endpoint en \<noteq> ''''"
  obtains tp mp where "stop = stop_providers lib tp mp" "og_tracer g' = Some (ExportingProvider tp)"
    "og_meter g' = Some (ExportingProvider mp)"
  using assms by (auto simp: otel_init_def Let_def split: sum.splits)

text \<open>Without an endpoint nothing of the SDK is called, so \<open>Init\<close> cannot fail.\<close>

lemma otel_init_unset:
  assumes "otel_endpoint en = ''''"
  shows "otel_init lib en name g = otel_init lib' en name' g" "\<exists>stop. fst (otel_init lib en name g) = Inr stop \<and> stop s = (None, s)"
  using assms by (simp_all add: otel_init_def)

text \<open>Both providers are stopped whatever the first answers, and an error is lost only to an earlier one.\<close>

lemma stop_providers_world:
  "snd (stop_providers lib tp mp s) = snd (ol_stop_meter lib mp (snd (ol_stop_tracer lib tp s)))"
  by (simp add: stop_providers_def Let_def split: prod.split)

lemma stop_providers_error:
  "fst (stop_providers lib tp mp s) = None \<longleftrightarrow>
   fst (ol_stop_tracer lib tp s) = None \<and> fst (ol_stop_meter lib mp (snd (ol_stop_tracer lib tp s))) = None"
  by (auto simp: stop_providers_def Let_def split: prod.split)

lemma strip_scheme_cases:
  "strip_scheme (''http://'' @ s) = trim_prefix s ''grpc://''"
  "strip_scheme (''grpc://'' @ s) = s"
  by (simp_all add: strip_scheme_def trim_prefix_def has_prefix_def)

text \<open>A TLS endpoint keeps its scheme, which is no host and port.\<close>

lemma strip_scheme_https: "strip_scheme (''https://'' @ s) = ''https://'' @ s"
  by (simp add: strip_scheme_def trim_prefix_def has_prefix_def)

section \<open>Registration of the collectors\<close>

text \<open>
  The collectors in the order \<open>Register\<close> passes them to \<open>MustRegister\<close>, each under its full name
  \<open>audit_event_log_<name>\<close> with its labels; \<open>collector_of\<close> says which one an increment belongs to.
\<close>

definition collectors :: "(string \<times> string list) list" where
  "collectors = map (\<lambda>(name, labels). (''audit_event_log_'' @ name, labels))
     [(''events_ingested_total'', [''service'']), (''ingest_duplicates_total'', [''service'']),
      (''ingest_rejections_total'', [''service'', ''reason'']), (''ingest_duration_seconds'', [''service'']),
      (''query_duration_seconds'', [''endpoint'']), (''chain_anchors_total'', [''outcome'']),
      (''chain_verify_outcomes_total'', [''status'']), (''exports_created_total'', [''format'']),
      (''exports_completed_total'', [''format'', ''outcome'']), (''dead_lettered_total'', [''topic''])]"

primrec collector_index :: "metric \<Rightarrow> nat" where
  "collector_index (EventsIngested a) = 0"
| "collector_index (IngestDuplicates a) = 1"
| "collector_index (IngestRejections a b) = 2"
| "collector_index (IngestLatency a) = 3"
| "collector_index (QueryLatency a) = 4"
| "collector_index (ChainAnchors a) = 5"
| "collector_index (ChainVerifyOutcomes a) = 6"
| "collector_index (ExportsCreated a) = 7"
| "collector_index (ExportsCompleted a b) = 8"
| "collector_index (DeadLettered a) = 9"

primrec metric_labels :: "metric \<Rightarrow> string list" where
  "metric_labels (EventsIngested a) = [a]"
| "metric_labels (IngestDuplicates a) = [a]"
| "metric_labels (IngestRejections a b) = [a, b]"
| "metric_labels (IngestLatency a) = [a]"
| "metric_labels (QueryLatency a) = [a]"
| "metric_labels (ChainAnchors a) = [a]"
| "metric_labels (ChainVerifyOutcomes a) = [a]"
| "metric_labels (ExportsCreated a) = [a]"
| "metric_labels (ExportsCompleted a b) = [a, b]"
| "metric_labels (DeadLettered a) = [a]"

text \<open>\<open>registerOnce\<close> and what each registerer holds; \<open>None\<close> is the default registerer, as the nil argument
  of \<open>Register\<close> is. \<open>MustRegister\<close> panics (\<open>None\<close> as the result) when a name is already taken.\<close>

record registry =
  rg_done :: bool
  rg_names :: "string option \<Rightarrow> string list"

definition must_register :: "string option \<Rightarrow> registry \<Rightarrow> registry option" where
  "must_register reg st =
     (if set (map fst collectors) \<inter> set (rg_names st reg) = {}
      then Some (st\<lparr>rg_names := (rg_names st)(reg := rg_names st reg @ map fst collectors)\<rparr>) else None)"

definition register :: "string option \<Rightarrow> registry \<Rightarrow> registry option" where
  "register reg st = (if rg_done st then Some st else must_register reg (st\<lparr>rg_done := True\<rparr>))"

definition new_registry :: registry where
  "new_registry = \<lparr>rg_done = False, rg_names = (\<lambda>reg. [])\<rparr>"

text \<open>The package's \<open>init\<close> registers with the default registerer before \<open>main\<close> runs.\<close>

definition package_init :: "registry option" where
  "package_init = register None new_registry"

lemma collectors_distinct: "distinct (map fst collectors)"
  by (simp add: collectors_def)

lemma collector_labels:
  "collector_index m < length collectors \<and> length (metric_labels m) = length (snd (collectors ! collector_index m))"
  by (cases m) (simp_all add: collectors_def)

lemma package_init_registers:
  obtains st where "package_init = Some st" "rg_done st" "rg_names st None = map fst collectors"
  by (simp add: package_init_def register_def must_register_def new_registry_def)

text \<open>Every later call is without effect, also one with a registerer of the caller's own, which therefore
  never holds a collector.\<close>

lemma register_later: "rg_done st \<Longrightarrow> register reg st = Some st"
  by (simp add: register_def)

end
