(* ===== verification/Lifecycle.thy ===== *)
theory Lifecycle
  imports App Telemetry Cli Systems
begin

text \<open>
  The life of the process: \<open>Server.Run\<close>, \<open>startLoops\<close> and \<open>Shutdown\<close> of \<open>internal/app/app.go\<close> in
  development mode, and \<open>main\<close> of \<open>cmd/audit-logger/main.go\<close> around them. The goroutines (the main one,
  the consumer loop, the anchor loop, the requests in flight) take their steps in any order on the
  service of \<open>App\<close>.
\<close>

section \<open>State\<close>

text \<open>
  Where \<open>Run\<close> is: in its \<open>select\<close>, in \<open>http.Shutdown\<close>, in \<open>wg.Wait\<close> (with the error of \<open>http.Shutdown\<close>),
  or returned. The context is cancelled by \<open>Shutdown\<close> only.
\<close>

datatype main_phase = Serving | Closing | Draining "go_error option" | RunDone "go_error option"

text \<open>The goroutine of the anchor loop: not started, at work (with a tick waiting in the channel of the
  ticker, which holds one), or returned.\<close>

datatype anchor_loop = NoLoop | Ticking bool | LoopDone

record process =
  pr_phase :: main_phase
  pr_cancelled :: bool
  pr_wg :: nat
  pr_feed :: "service fake_consumer"
  pr_consumer :: run_status
  pr_ticker :: anchor_loop
  pr_requests :: nat

abbreviation process_service :: "process \<Rightarrow> service" where
  "process_service p \<equiv> fk_world (pr_feed p)"

definition on_service :: "(service \<Rightarrow> service) \<Rightarrow> process \<Rightarrow> process" where
  "on_service f p = p\<lparr>pr_feed := (pr_feed p)\<lparr>fk_world := f (process_service p)\<rparr>\<rparr>"

lemma on_service_simps [simp]:
  "process_service (on_service f p) = f (process_service p)" "pr_phase (on_service f p) = pr_phase p"
  "pr_cancelled (on_service f p) = pr_cancelled p" "pr_wg (on_service f p) = pr_wg p"
  "pr_consumer (on_service f p) = pr_consumer p" "pr_ticker (on_service f p) = pr_ticker p"
  "pr_requests (on_service f p) = pr_requests p" "fk_feed (pr_feed (on_service f p)) = fk_feed (pr_feed p)"
  "fk_committed (pr_feed (on_service f p)) = fk_committed (pr_feed p)"
  by (simp_all add: on_service_def)

text \<open>\<open>startLoops\<close>: the consumer loop always, the anchor loop when its interval is positive (a ticker
  panics otherwise).\<close>

definition start_loops :: "config \<Rightarrow> process \<Rightarrow> process" where
  "start_loops cfg p =
     (let p1 = p\<lparr>pr_wg := pr_wg p + 1, pr_consumer := Running\<rparr>
      in if cfg_chain_anchor_interval cfg > 0 then p1\<lparr>pr_wg := pr_wg p1 + 1, pr_ticker := Ticking False\<rparr>
         else p1)"

definition start_run :: "config \<Rightarrow> service fake_consumer \<Rightarrow> process" where
  "start_run cfg f = start_loops cfg
     \<lparr>pr_phase = Serving, pr_cancelled = False, pr_wg = 0, pr_feed = f, pr_consumer = Returned None,
      pr_ticker = NoLoop, pr_requests = 0\<rparr>"

text \<open>The pipeline as \<open>Build\<close> wires it from the configuration, and the handler of the consumer loop.\<close>

definition wire_deps ::
  "config \<Rightarrow> string \<Rightarrow> time \<Rightarrow> (bytes \<Rightarrow> envelope result) \<Rightarrow> (char \<Rightarrow> string) \<Rightarrow>
   (string \<Rightarrow> string \<Rightarrow> bytes \<Rightarrow> (bytes \<times> bool) result) \<Rightarrow> (mem_store, fake_s3, dead_letter_store) deps" where
  "wire_deps cfg fresh now unmarshal rune_text redactor =
     mem_deps fresh now (cfg_payload_bucket cfg) (cfg_payload_storage_class cfg) (cfg_retention_days cfg)
       (cfg_legal_hold_default cfg) (Some redactor) (cfg_kafka_topic cfg) unmarshal (go_error_text rune_text)"

definition service_handler ::
  "config \<Rightarrow> string \<Rightarrow> time \<Rightarrow> (bytes \<Rightarrow> envelope result) \<Rightarrow> (char \<Rightarrow> string) \<Rightarrow> text_lib \<Rightarrow> service handler" where
  "service_handler cfg fresh now unmarshal rune_text tlib msg s =
     (case app_handler (wire_deps cfg fresh now unmarshal rune_text (reloader_apply tlib (se_policy s))) msg (se_world s) of
        (res, w) \<Rightarrow> (res, s\<lparr>se_world := w\<rparr>))"

section \<open>Steps\<close>

text \<open>What the program does. The consumer's \<open>select\<close> may take a message although the context is cancelled,
  and the anchor loop's a tick: Go chooses among ready cases. \<open>http.Shutdown\<close> returns when no request is in
  flight, with the error of closing the listener if there was one, or with the context's error after five
  seconds.\<close>

inductive process_step :: "config \<Rightarrow> process \<Rightarrow> process \<Rightarrow> bool" for cfg :: config where
  do_consume: "pr_consumer p = Running \<Longrightarrow>
     run_step (service_handler cfg fresh now unmarshal rune_text tlib) (pr_cancelled p) (pr_feed p) Running f \<Longrightarrow>
     process_step cfg p (p\<lparr>pr_feed := f\<rparr>)"
| do_consumer_return: "pr_consumer p = Running \<Longrightarrow>
     run_step (service_handler cfg fresh now unmarshal rune_text tlib) (pr_cancelled p) (pr_feed p) (Returned err) f \<Longrightarrow>
     process_step cfg p (p\<lparr>pr_feed := f, pr_consumer := Returned err, pr_wg := pr_wg p - 1\<rparr>)"
| do_anchor_start: "pr_ticker p = Ticking True \<Longrightarrow> se_loop (process_service p) = AnchorIdle \<Longrightarrow>
     process_step cfg p (on_service (anchor_tick fresh now signer (cfg_external_notary_url cfg)) (p\<lparr>pr_ticker := Ticking False\<rparr>))"
| do_anchor_continue: "pr_ticker p = Ticking t \<Longrightarrow> se_loop (process_service p) \<noteq> AnchorIdle \<Longrightarrow>
     process_step cfg p (on_service (anchor_tick fresh now signer (cfg_external_notary_url cfg)) p)"
| do_anchor_return: "pr_ticker p = Ticking t \<Longrightarrow> se_loop (process_service p) = AnchorIdle \<Longrightarrow> pr_cancelled p \<Longrightarrow>
     process_step cfg p (p\<lparr>pr_ticker := LoopDone, pr_wg := pr_wg p - 1\<rparr>)"
| do_respond: "pr_requests p > 0 \<Longrightarrow>
     serve (wire_api now files lib) ae t rq (api_view (process_service p)) = (resp, st) \<Longrightarrow>
     process_step cfg p (on_service (\<lambda>s. from_api s st) (p\<lparr>pr_requests := pr_requests p - 1\<rparr>))"
| do_http_closed: "pr_phase p = Closing \<Longrightarrow> pr_requests p = 0 \<Longrightarrow>
     process_step cfg p (p\<lparr>pr_phase := Draining None\<rparr>)"
| do_http_close_error: "pr_phase p = Closing \<Longrightarrow> pr_requests p = 0 \<Longrightarrow>
     process_step cfg p (p\<lparr>pr_phase := Draining (Some err)\<rparr>)"
| do_http_timeout: "pr_phase p = Closing \<Longrightarrow> pr_requests p > 0 \<Longrightarrow>
     process_step cfg p (p\<lparr>pr_phase := Draining (Some (ErrMsg ''context deadline exceeded''))\<rparr>)"
| do_wait_done: "pr_phase p = Draining err \<Longrightarrow> pr_wg p = 0 \<Longrightarrow>
     process_step cfg p (p\<lparr>pr_phase := RunDone err\<rparr>)"

text \<open>What happens to it: a message arrives, the ticker fires, a client connects (only while the listener is
  open), a signal arrives (\<open>Shutdown\<close> cancels the context first), the listener fails.\<close>

inductive outside_step :: "process \<Rightarrow> process \<Rightarrow> bool" where
  on_message: "enqueue msg (pr_feed p) = (r, f) \<Longrightarrow> outside_step p (p\<lparr>pr_feed := f\<rparr>)"
| on_tick: "pr_ticker p = Ticking t \<Longrightarrow> outside_step p (p\<lparr>pr_ticker := Ticking True\<rparr>)"
| on_connect: "pr_phase p = Serving \<Longrightarrow> outside_step p (p\<lparr>pr_requests := pr_requests p + 1\<rparr>)"
| on_signal: "pr_phase p = Serving \<Longrightarrow> outside_step p (p\<lparr>pr_cancelled := True, pr_phase := Closing\<rparr>)"
| on_listen_error: "pr_phase p = Serving \<Longrightarrow> outside_step p (p\<lparr>pr_phase := RunDone (Some err)\<rparr>)"

definition any_step :: "config \<Rightarrow> process \<Rightarrow> process \<Rightarrow> bool" where
  "any_step cfg p p' \<longleftrightarrow> process_step cfg p p' \<or> outside_step p p'"

inductive_cases process_stepE: "process_step cfg p p'"
inductive_cases outside_stepE: "outside_step p p'"

section \<open>What every step keeps\<close>

definition loop_count :: "process \<Rightarrow> nat" where
  "loop_count p = (if pr_consumer p = Running then 1 else 0) + (case pr_ticker p of Ticking t \<Rightarrow> 1 | _ \<Rightarrow> 0)"

text \<open>The wait group counts the loops, an anchor run is under way only inside its loop, and the phase of
  \<open>Run\<close> says what has been waited for.\<close>

definition phase_ok :: "process \<Rightarrow> bool" where
  "phase_ok p \<longleftrightarrow>
     (case pr_phase p of
        Serving \<Rightarrow> \<not> pr_cancelled p
      | Closing \<Rightarrow> pr_cancelled p
      | Draining err \<Rightarrow> pr_cancelled p \<and> (err = None \<longrightarrow> pr_requests p = 0)
      | RunDone err \<Rightarrow> (pr_cancelled p \<longrightarrow> pr_wg p = 0) \<and> (err = None \<longrightarrow> pr_cancelled p \<and> pr_requests p = 0))"

definition process_ok :: "process \<Rightarrow> bool" where
  "process_ok p \<longleftrightarrow> pr_wg p = loop_count p \<and> phase_ok p \<and>
     ((\<forall>t. pr_ticker p \<noteq> Ticking t) \<longrightarrow> se_loop (process_service p) = AnchorIdle)"

text \<open>Each step of the process is a step of the service, or none.\<close>

lemma service_handler_step:
  assumes "service_handler cfg fresh now unmarshal rune_text tlib msg s = (res, s')"
  shows "service_step s s' \<and> se_loop s' = se_loop s \<and> res = None"
proof -
  obtain w where w: "app_handler (wire_deps cfg fresh now unmarshal rune_text (reloader_apply tlib (se_policy s)))
      msg (se_world s) = (res, w)" and s': "s' = s\<lparr>se_world := w\<rparr>"
    using assms by (auto simp: service_handler_def split: prod.splits)
  moreover from w have "res = None"
    by (simp add: app_handler_ingest)
  ultimately show ?thesis
    using step_consume [OF refl w [unfolded wire_deps_def]] by simp
qed

lemma consume_step:
  assumes "run_step (service_handler cfg fresh now unmarshal rune_text tlib) c f Running f'"
  obtains msg where "fk_feed f = msg # fk_feed f'" "fk_committed f' = fk_committed f @ [im_offset msg]"
    "service_step (fk_world f) (fk_world f')" "se_loop (fk_world f') = se_loop (fk_world f)"
proof -
  from assms obtain msg rest where feed: "fk_feed f = msg # rest"
    and f': "f' = handle_next (service_handler cfg fresh now unmarshal rune_text tlib) msg rest f"
    by (auto simp: run_step_running)
  obtain res s' where h: "service_handler cfg fresh now unmarshal rune_text tlib msg (fk_world f) = (res, s')"
    by fastforce
  from service_handler_step [OF h] feed f' h that show thesis
    by (simp add: handle_next_def)
qed

lemma return_step:
  "run_step h c f (Returned err) f' \<Longrightarrow> f' = f \<and> (err = Some ErrContext \<and> c \<or> err = None)"
  by (auto elim: run_stepE)

lemma from_api_loop [simp]: "se_loop (from_api s st) = se_loop s"
  by (simp add: from_api_def)

lemma process_step_service:
  assumes "process_step cfg p p'"
  shows "service_step\<^sup>=\<^sup>= (process_service p) (process_service p')"
  using assms
proof cases
  case (do_consume fresh now unmarshal rune_text tlib f)
  then show ?thesis by (auto elim: consume_step)
next
  case (do_consumer_return fresh now unmarshal rune_text tlib err f)
  then show ?thesis by (auto dest: return_step)
qed (auto intro: step_anchor step_request)

lemma outside_step_service: "outside_step p p' \<Longrightarrow> process_service p' = process_service p"
  by (auto elim!: outside_stepE simp: enqueue_def split: if_splits)

lemma any_step_service: "any_step cfg p p' \<Longrightarrow> service_step\<^sup>*\<^sup>* (process_service p) (process_service p')"
  by (auto simp: any_step_def dest: process_step_service outside_step_service)

lemma process_step_ok:
  assumes "process_step cfg p p'" and "process_ok p"
  shows "process_ok p'"
  using assms(1)
proof cases
  case (do_consume fresh now unmarshal rune_text tlib f)
  then show ?thesis
    using assms(2) by (auto elim!: consume_step simp: process_ok_def loop_count_def phase_ok_def split: main_phase.splits)
next
  case (do_consumer_return fresh now unmarshal rune_text tlib err f)
  then have "f = pr_feed p"
    by (auto dest: return_step)
  with do_consumer_return assms(2) show ?thesis
    by (auto simp: process_ok_def loop_count_def phase_ok_def split: main_phase.splits)
qed (use assms(2) in \<open>auto simp: process_ok_def loop_count_def phase_ok_def split: main_phase.splits\<close>)

lemma outside_step_ok:
  assumes "outside_step p p'" and "process_ok p"
  shows "process_ok p'"
  using assms(1)
proof cases
  case (on_message msg r f)
  then have "fk_world f = process_service p"
    by (auto simp: enqueue_def split: if_splits)
  moreover have "loop_count p' = loop_count p" "phase_ok p' = phase_ok p"
    by (simp_all add: on_message loop_count_def phase_ok_def split: main_phase.split)
  ultimately show ?thesis
    using on_message assms(2) by (simp add: process_ok_def)
qed (use assms(2) in \<open>auto simp: process_ok_def loop_count_def phase_ok_def split: main_phase.splits\<close>)

lemma start_run_ok: "se_loop (fk_world f) = AnchorIdle \<Longrightarrow> process_ok (start_run cfg f)"
  by (simp add: start_run_def start_loops_def Let_def process_ok_def loop_count_def phase_ok_def)

text \<open>The process simulates the service, so what holds of every run of the service holds here.\<close>

definition fresh_process :: "config \<Rightarrow> process \<Rightarrow> bool" where
  "fresh_process cfg p \<longleftrightarrow> (\<exists>f r. p = start_run cfg f \<and> fk_world f = start_service r)"

lemma fresh_process_service: "fresh_process cfg p \<Longrightarrow> \<exists>r. process_service p = start_service r"
  by (auto simp: fresh_process_def start_run_def start_loops_def Let_def)

lemma fresh_process_ok: "fresh_process cfg p \<Longrightarrow> process_ok p"
  by (auto simp: fresh_process_def start_service_def intro: start_run_ok)

interpretation live: simulation "fresh_process cfg" "any_step cfg" process_ok
  "\<lambda>s. \<exists>r. s = start_service r" service_step process_service for cfg
  by unfold_locales
    (auto simp: any_step_def fresh_process_service
      intro: fresh_process_ok process_step_ok outside_step_ok any_step_service [unfolded any_step_def])

section \<open>Shutting down\<close>

text \<open>What is left to do after the signal: the messages in the feed, the requests in flight, the rest of an
  anchor run and of the tick that waits, the return of each loop, and the phases of \<open>Shutdown\<close>.\<close>

definition anchor_work :: "anchor_phase \<Rightarrow> nat" where
  "anchor_work ph = (case ph of AnchorIdle \<Rightarrow> 0 | AnchorHead h \<Rightarrow> 2 | AnchorStored h a \<Rightarrow> 1)"

definition shutdown_work :: "process \<Rightarrow> nat" where
  "shutdown_work p =
     length (fk_feed (pr_feed p)) + pr_requests p + (if pr_consumer p = Running then 1 else 0) +
     (case pr_ticker p of Ticking t \<Rightarrow> if t then 4 else 1 | _ \<Rightarrow> 0) + anchor_work (se_loop (process_service p)) +
     (case pr_phase p of Serving \<Rightarrow> 3 | Closing \<Rightarrow> 2 | Draining err \<Rightarrow> 1 | RunDone err \<Rightarrow> 0)"

lemma anchor_tick_work:
  "se_loop s = AnchorIdle \<Longrightarrow> anchor_work (se_loop (anchor_tick fresh now signer url s)) \<le> 2"
  "se_loop s \<noteq> AnchorIdle \<Longrightarrow> anchor_work (se_loop (anchor_tick fresh now signer url s)) < anchor_work (se_loop s)"
  by (auto simp: anchor_work_def anchor_tick_def Let_def split: anchor_phase.split sum.split option.split prod.split)

lemma process_step_work:
  assumes "process_step cfg p p'"
  shows "shutdown_work p' < shutdown_work p"
  using assms
proof cases
  case (do_consume fresh now unmarshal rune_text tlib f)
  then show ?thesis
    by (auto elim!: consume_step simp: shutdown_work_def)
next
  case (do_consumer_return fresh now unmarshal rune_text tlib err f)
  then have "f = pr_feed p"
    by (auto dest: return_step)
  with do_consumer_return show ?thesis
    by (simp add: shutdown_work_def)
next
  case (do_anchor_start fresh now signer)
  with anchor_tick_work(1) [of "process_service p" fresh now signer "cfg_external_notary_url cfg"] show ?thesis
    by (simp add: shutdown_work_def on_service_def anchor_work_def)
next
  case (do_anchor_continue t fresh now signer)
  with anchor_tick_work(2) [of "process_service p" fresh now signer "cfg_external_notary_url cfg"] show ?thesis
    by (simp add: shutdown_work_def on_service_def)
qed (simp_all add: shutdown_work_def on_service_def)

lemma process_step_cancelled: "process_step cfg p p' \<Longrightarrow> pr_cancelled p' = pr_cancelled p"
  by (auto elim!: process_stepE)

definition returned :: "process \<Rightarrow> bool" where
  "returned p \<longleftrightarrow> (\<exists>err. pr_phase p = RunDone err)"

lemma loop_can_stop:
  assumes "process_ok p" and "pr_cancelled p" and "pr_wg p > 0"
  shows "\<exists>p'. process_step cfg p p'"
proof (cases "pr_consumer p = Running")
  case True
  from assms(2) have "run_step h (pr_cancelled p) (pr_feed p) (Returned (Some ErrContext)) (pr_feed p)" for h
    by (simp add: run_cancelled)
  with do_consumer_return [OF True] show ?thesis
    by blast
next
  case False
  with assms obtain t where "pr_ticker p = Ticking t"
    by (auto simp: process_ok_def loop_count_def split: anchor_loop.splits)
  with assms(2) do_anchor_continue do_anchor_return show ?thesis
    by metis
qed

lemma shutdown_progress:
  assumes "process_ok p" and "pr_cancelled p" and "\<not> returned p"
  shows "\<exists>p'. process_step cfg p p'"
proof (cases "pr_phase p")
  case Serving
  with assms show ?thesis by (simp add: process_ok_def phase_ok_def)
next
  case Closing
  with do_http_closed do_http_timeout show ?thesis by (metis neq0_conv)
next
  case (Draining err)
  with do_wait_done loop_can_stop assms show ?thesis by (metis neq0_conv)
next
  case (RunDone err)
  with assms show ?thesis by (simp add: returned_def)
qed

interpretation ending: winding_down "\<lambda>p. process_ok p \<and> pr_phase p = Closing" "process_step cfg"
  "\<lambda>p. process_ok p \<and> pr_cancelled p" shutdown_work returned for cfg
proof unfold_locales
  show "process_ok p \<and> pr_phase p = Closing \<Longrightarrow> process_ok p \<and> pr_cancelled p" for p
    by (auto simp: process_ok_def phase_ok_def)
qed (auto simp: process_step_cancelled process_step_work intro: process_step_ok shutdown_progress)

text \<open>No message is dropped on the way: what is not committed stays in the feed, in its order.\<close>

definition offsets :: "process \<Rightarrow> int list" where
  "offsets p = fk_committed (pr_feed p) @ map im_offset (fk_feed (pr_feed p))"

lemma process_step_offsets: "process_step cfg p p' \<Longrightarrow> offsets p' = offsets p"
proof (induction rule: process_step.induct)
  case (do_consume p fresh now unmarshal rune_text tlib f)
  then show ?case by (auto elim!: consume_step simp: offsets_def)
next
  case (do_consumer_return p fresh now unmarshal rune_text tlib err f)
  then show ?case by (auto dest!: return_step simp: offsets_def)
qed (simp_all add: offsets_def)

lemma process_run_offsets: "(process_step cfg)\<^sup>*\<^sup>* p p' \<Longrightarrow> offsets p' = offsets p"
  by (induction rule: rtranclp_induct) (simp_all add: process_step_offsets)

section \<open>The entry point\<close>

text \<open>What \<open>verify-chain\<close> gets from its surroundings besides the environment and its arguments.\<close>

record cli_env =
  cv_cancelled :: "nat \<Rightarrow> bool"
  cv_open_db :: "string \<Rightarrow> ((filter \<Rightarrow> list_result result) \<times> (string \<Rightarrow> event result)) result"
  cv_create_file :: "string \<Rightarrow> go_error option"
  cv_parse_time :: "string \<Rightarrow> time result"
  cv_fmt :: "time \<Rightarrow> string"
  cv_now :: time

definition verify_chain_command :: "cli_env \<Rightarrow> env \<Rightarrow> string list \<Rightarrow> int option" where
  "verify_chain_command ce en args =
     map_option fst (run_verify_chain (cv_cancelled ce) (cv_open_db ce) (cv_create_file ce) (cv_parse_time ce)
       (cv_fmt ce) (cv_now ce) (getenv en ''DB_URL'') (getenv en ''KMS_KEY_ID'') args)"

text \<open>
  \<open>main\<close>: the exit status, and what was done to the world the telemetry is exported to. \<open>log.Fatalf\<close> exits
  with status 1 at once, without the deferred shutdown of the providers. \<open>run\<close> is the result of \<open>Run\<close>.
\<close>

definition audit_main ::
  "cli_env \<Rightarrow> ('r, 'x, 'y, 's) otel_lib \<Rightarrow> (string \<Rightarrow> int option) \<Rightarrow> (string \<Rightarrow> string) \<Rightarrow> env \<Rightarrow>
   ('p, 'b) build_env \<Rightarrow> (('p, 'b) server \<Rightarrow> go_error option) \<Rightarrow> string list \<Rightarrow> 's \<Rightarrow> (int \<times> 's) option" where
  "audit_main ce lib parse_dur tab en be run args s =
     (if length args > 1 \<and> args ! 1 = ''verify-chain'' then
        (case verify_chain_command ce en (drop 2 args) of None \<Rightarrow> None | Some code \<Rightarrow> Some (code, s))
      else
        (case fst (otel_init lib en ''audit-event-log'' unset_globals) of
           Inl err \<Rightarrow> Some (1, s)
         | Inr stop \<Rightarrow>
             (case build (be\<lparr>be_env := en\<rparr>) (load_config parse_dur tab en) of
                Inl err \<Rightarrow> Some (1, s)
              | Inr srv \<Rightarrow>
                  (case run srv of
                     Some err \<Rightarrow> Some (1, s)
                   | None \<Rightarrow> Some (0, snd (stop s))))))"

text \<open>The service exits with 0 exactly when everything came up and \<open>Run\<close> returned nil.\<close>

lemma audit_main_success:
  assumes "\<not> (length args > 1 \<and> args ! 1 = ''verify-chain'')"
  shows "(\<exists>s'. audit_main ce lib parse_dur tab en be run args s = Some (0, s')) \<longleftrightarrow>
    (\<exists>stop g srv. otel_init lib en ''audit-event-log'' unset_globals = (Inr stop, g) \<and>
       build (be\<lparr>be_env := en\<rparr>) (load_config parse_dur tab en) = Inr srv \<and> run srv = None)"
  using assms by (cases "otel_init lib en ''audit-event-log'' unset_globals")
    (auto simp: audit_main_def split: sum.splits option.splits)

text \<open>Spans and metrics still buffered are flushed on that exit only: every failing exit loses them.\<close>

lemma audit_main_failure_keeps_telemetry:
  "audit_main ce lib parse_dur tab en be run args s = Some (code, s') \<Longrightarrow> code \<noteq> 0 \<Longrightarrow> s' = s"
  by (auto simp: audit_main_def split: sum.splits option.splits if_splits)

lemma audit_main_stops_both:
  assumes "audit_main ce lib parse_dur tab en be run args s = Some (0, s')" and "otel_endpoint en \<noteq> ''''"
    and "\<not> (length args > 1 \<and> args ! 1 = ''verify-chain'')"
  shows "\<exists>tp mp. s' = snd (ol_stop_meter lib mp (snd (ol_stop_tracer lib tp s)))"
proof -
  obtain stop g where "otel_init lib en ''audit-event-log'' unset_globals = (Inr stop, g)" "s' = snd (stop s)"
    using assms(1,3) by (cases "otel_init lib en ''audit-event-log'' unset_globals")
      (auto simp: audit_main_def split: sum.splits option.splits)
  with otel_init_stop [OF this(1) assms(2)] show ?thesis
    by (metis stop_providers_world)
qed

text \<open>A process that is signalled with a message in the feed, a request in flight and a tick waiting.\<close>

definition sample_feed :: "service fake_consumer" where
  "sample_feed = new_fake_consumer 0 (start_service no_policy)"

definition signalled_process :: process where
  "signalled_process =
     (start_run sample_config sample_feed)\<lparr>pr_feed := sample_feed\<lparr>fk_feed := [sample_message]\<rparr>,
       pr_requests := 1, pr_ticker := Ticking True, pr_cancelled := True, pr_phase := Closing\<rparr>"

lemma outside_run: "outside_step p q \<Longrightarrow> (any_step cfg)\<^sup>*\<^sup>* q r \<Longrightarrow> (any_step cfg)\<^sup>*\<^sup>* p r"
  by (rule converse_rtranclp_into_rtranclp) (simp_all add: any_step_def)

lemma signalled_reachable:
  "fresh_process sample_config (start_run sample_config sample_feed)"
  "(any_step sample_config)\<^sup>*\<^sup>* (start_run sample_config sample_feed) signalled_process"
proof -
  let ?p0 = "start_run sample_config sample_feed"
  let ?p1 = "?p0\<lparr>pr_feed := sample_feed\<lparr>fk_feed := [sample_message]\<rparr>\<rparr>"
  let ?p2 = "?p1\<lparr>pr_requests := pr_requests ?p1 + 1\<rparr>"
  let ?p3 = "?p2\<lparr>pr_ticker := Ticking True\<rparr>"
  have start: "pr_phase ?p0 = Serving" "pr_feed ?p0 = sample_feed" "pr_requests ?p0 = 0" "pr_ticker ?p0 = Ticking False"
    by (simp_all add: start_run_def start_loops_def Let_def sample_config_def load_config_def env_dur_def getenv_def minute_def)
  show "fresh_process sample_config ?p0"
    unfolding fresh_process_def by (rule exI [of _ sample_feed]) (auto simp: sample_feed_def new_fake_consumer_def)
  have s1: "outside_step ?p0 ?p1"
    by (rule on_message [of sample_message _ None])
      (unfold start, simp add: enqueue_def sample_feed_def new_fake_consumer_def)
  have s2: "outside_step ?p1 ?p2"
    by (rule on_connect) (simp add: start)
  have "pr_ticker ?p2 = Ticking False"
    using start(4) by simp
  then have s3: "outside_step ?p2 ?p3"
    by (rule on_tick)
  have s4: "outside_step ?p3 signalled_process"
    using on_signal [of ?p3] start by (simp add: signalled_process_def)
  show "(any_step sample_config)\<^sup>*\<^sup>* ?p0 signalled_process"
    by (rule outside_run [OF s1 outside_run [OF s2 outside_run [OF s3 outside_run [OF s4 rtranclp.rtrancl_refl]]]])
qed

lemma signalled_state:
  "pr_phase signalled_process = Closing" "offsets signalled_process = [42]"
  by (simp_all add: signalled_process_def offsets_def sample_feed_def new_fake_consumer_def sample_message_def)

section \<open>Properties\<close>

text \<open>
  Property C31. Graceful shutdown comes to an end: from every state of the running process in which a
  signal has just been handled, \<open>Run\<close> can return, no schedule of the goroutines keeps it from returning (a
  run without new messages and ticks has at most \<open>shutdown_work\<close> steps, and until \<open>Run\<close> has returned
  there is always a next step), and no message is dropped: at every moment the committed offsets
  followed by the ones still in the feed are what they were.
\<close>

theorem shutdown_terminates:
  assumes "(any_step cfg)\<^sup>*\<^sup>* p0 p" and "fresh_process cfg p0" and "pr_phase p = Closing"
  shows "(\<exists>p' err. (process_step cfg)\<^sup>*\<^sup>* p p' \<and> pr_phase p' = RunDone err) \<and>
    (\<forall>n p'. (process_step cfg ^^ n) p p' \<longrightarrow>
       n \<le> shutdown_work p \<and> offsets p' = offsets p \<and>
       ((\<exists>err. pr_phase p' = RunDone err) \<or> (\<exists>q. process_step cfg p' q)))"
proof -
  have ok: "process_ok p" "pr_cancelled p"
    using live.reachable_ok [OF assms(1,2)] assms(3) by (auto simp: process_ok_def phase_ok_def)
  have "n \<le> shutdown_work p \<and> offsets p' = offsets p \<and> (returned p' \<or> (\<exists>q. process_step cfg p' q))"
    if "(process_step cfg ^^ n) p p'" for n p'
    using that ok ending.run_bounded [of n cfg p p'] ending.stuck_finished [of cfg p p'] process_run_offsets
      relpowp_imp_rtranclp [OF that] by fastforce
  with ending.finishes [of p cfg] ok show ?thesis
    by (auto simp: returned_def)
qed

theorem shutdown_terminates_witness:
  "(any_step sample_config)\<^sup>*\<^sup>* (start_run sample_config sample_feed) signalled_process \<and>
   pr_phase signalled_process = Closing \<and>
   (\<exists>n p' err. (process_step sample_config ^^ n) signalled_process p' \<and> pr_phase p' = RunDone err \<and>
      n \<le> shutdown_work signalled_process \<and> offsets p' = [42])"
proof -
  note ends = shutdown_terminates [OF signalled_reachable(2,1) signalled_state(1)]
  then obtain p' err where "(process_step sample_config)\<^sup>*\<^sup>* signalled_process p'" and phase: "pr_phase p' = RunDone err"
    by blast
  then obtain n where run: "(process_step sample_config ^^ n) signalled_process p'"
    by (auto simp: rtranclp_power)
  moreover from ends run have "n \<le> shutdown_work signalled_process \<and> offsets p' = [42]"
    by (simp add: signalled_state)
  ultimately show ?thesis
    using phase signalled_reachable(2) signalled_state(1) by blast
qed

text \<open>
  Property C23. When \<open>Run\<close> returns after a signal (as it does whenever it returns nil), nothing is left
  half done: the consumer loop and the anchor loop have returned, no anchor run is between its store
  accesses, the wait group is empty, and if the result is nil no request is in flight. The stores are
  those of a run of the service.
\<close>

theorem shutdown_is_clean:
  assumes "(any_step cfg)\<^sup>*\<^sup>* p0 p" and "fresh_process cfg p0" and "pr_phase p = RunDone err"
    and "pr_cancelled p \<or> err = None"
  shows "pr_wg p = 0 \<and> (\<exists>res. pr_consumer p = Returned res) \<and> (\<forall>t. pr_ticker p \<noteq> Ticking t) \<and>
    se_loop (process_service p) = AnchorIdle \<and> (err = None \<longrightarrow> pr_requests p = 0) \<and>
    (\<exists>r. service_step\<^sup>*\<^sup>* (start_service r) (process_service p)) \<and> service_ok (process_service p)"
proof -
  have ok: "process_ok p"
    by (rule live.reachable_ok [OF assms(1,2)])
  with assms(3,4) have "loop_count p = 0" "pr_wg p = 0" "err = None \<longrightarrow> pr_requests p = 0"
    by (auto simp: process_ok_def phase_ok_def)
  moreover from this(1) have "pr_consumer p \<noteq> Running" "\<forall>t. pr_ticker p \<noteq> Ticking t"
    by (auto simp: loop_count_def split: if_splits)
  moreover from this(1) have "\<exists>res. pr_consumer p = Returned res"
    by (cases "pr_consumer p") auto
  moreover obtain r where "service_step\<^sup>*\<^sup>* (start_service r) (process_service p)"
    using live.reachable_abs [OF assms(1,2)] fresh_process_service [OF assms(2)] live.run_abs [OF assms(1)]
      fresh_process_ok [OF assms(2)] by auto
  ultimately show ?thesis
    using ok service_run_keeps by (auto simp: process_ok_def)
qed

theorem shutdown_is_clean_witness:
  "\<exists>p err. (any_step sample_config)\<^sup>*\<^sup>* (start_run sample_config sample_feed) p \<and>
     pr_phase p = RunDone err \<and> pr_cancelled p \<and> offsets p = [42] \<and>
     pr_wg p = 0 \<and> pr_consumer p \<noteq> Running \<and> se_loop (process_service p) = AnchorIdle"
proof -
  have "process_ok signalled_process \<and> pr_cancelled signalled_process"
    using live.reachable_ok [OF signalled_reachable(2,1)] by (simp add: signalled_process_def)
  then obtain p where run: "(process_step sample_config)\<^sup>*\<^sup>* signalled_process p" and "returned p"
    using ending.finishes [of signalled_process sample_config] by blast
  then obtain err where phase: "pr_phase p = RunDone err"
    by (auto simp: returned_def)
  have cancelled: "pr_cancelled p" "offsets p = [42]"
    using ending.run_ok [OF run] \<open>process_ok signalled_process \<and> pr_cancelled signalled_process\<close>
      process_run_offsets [OF run] signalled_state(2) by simp_all
  have "(any_step sample_config)\<^sup>*\<^sup>* signalled_process p"
    using run by (rule rtranclp_mono [THEN predicate2D, rotated]) (auto simp: any_step_def)
  with signalled_reachable(2) have reach: "(any_step sample_config)\<^sup>*\<^sup>* (start_run sample_config sample_feed) p"
    by (rule rtranclp_trans)
  from shutdown_is_clean [OF this signalled_reachable(1) phase] cancelled phase reach show ?thesis
    by fastforce
qed

end
