(* ===== verification/Spec2Isabelle.thy ===== *)
theory Spec2Isabelle
  imports Tamper Anchor Runs Objects Redaction Ingest Consumer Config Auth Api Export Postgres Forks Replicas
    Adapters Migrations Cli App Ledger Fleet Telemetry Lifecycle Systems
begin

text \<open>
  A verification development for the audit logger, a Go service that consumes audit events from Kafka,
  links them into a SHA-256 hash chain in an index (PostgreSQL or in memory), keeps the payloads in an
  object store under retention, anchors the chain with signatures, and serves reads, verification,
  holds and exports over REST.

  \<^bold>\<open>How the parts interact.\<close> A message from the consumer (\<open>internal/kafka\<close>) goes through the pipeline
  (\<open>internal/ingest\<close>): decode and validate (\<open>internal/event\<close>), check the payload hash, redact
  (\<open>internal/redaction\<close>), write the payload (\<open>internal/s3\<close>), insert the row linked to the newest one
  (\<open>internal/store\<close>, \<open>internal/chain\<close>). The anchor job signs the newest hash (\<open>internal/kms\<close>) and flags
  the rows it covers; a sweep pages through a window, verifies the links and compares the anchors. The
  REST handlers (\<open>internal/api\<close>, behind \<open>internal/auth\<close>) read the index, run the sweep, set legal holds,
  create export jobs and reload the redaction policy. \<open>internal/app\<close> wires all of it from
  \<open>internal/config\<close>; \<open>cmd/migrate\<close> and the \<open>verify-chain\<close> command work on the database directly.

  \<^bold>\<open>Theories.\<close> In the order of their imports:
  \<^item> \<open>Prelude\<close>, \<open>Gostd\<close>, \<open>Sha256\<close>: lists kept in ascending key order, the linear order on times and strings,
    what the code uses of Go's library (string functions, \<open>atoi\<close>, UTF-8, int64 durations, hex, base64),
    and SHA-256 and HMAC computed in full on words.
  \<^item> \<open>Event\<close> (\<open>internal/event/event.go\<close>): the envelope, its validation, payload hashes.
  \<^item> \<open>Store\<close> (\<open>internal/store/store.go\<close>): the records, cursors, and the interfaces as locales:
    \<open>event_pager\<close> (what paging needs), its extensions \<open>event_reader\<close> and \<open>event_store\<close>, and
    \<open>anchor_store\<close>, stated over an abstract log in ascending (time, id) order.
  \<^item> \<open>Chain\<close>, \<open>Tamper\<close> (\<open>internal/chain/chain.go\<close>): the canonical encoding, verification, the Merkle root;
    what verification detects (each lemma has the escape that two SHA-256 inputs collide) and what it
    does not.
  \<^item> \<open>Memstore\<close> (\<open>internal/store/memstore\<close>): the in-memory stores with their shared pointers; interprets
    the interfaces.
  \<^item> \<open>Anchor\<close> (\<open>internal/chain/chain.go\<close>): the anchor job and the sweep, proved once in the locales.
  \<^item> \<open>Runs\<close>: any sequence of store operations as a step relation; what every run keeps.
  \<^item> \<open>Objects\<close> (\<open>internal/s3/s3.go\<close>), \<open>Redaction\<close> (\<open>internal/redaction\<close>), \<open>Ingest\<close>
    (\<open>internal/ingest/ingest.go\<close>, in the locale \<open>ingesting\<close>), \<open>Consumer\<close> (\<open>internal/kafka/kafka.go\<close> and the
    message handler of \<open>internal/app/app.go\<close>).
  \<^item> \<open>Config\<close>, \<open>Auth\<close>, \<open>Api\<close>: settings, tokens and roles, router and handlers.
  \<^item> \<open>Export\<close> (\<open>internal/export/export.go\<close>): the job runner with every failure path, CSV and manifest.
  \<^item> \<open>Postgres\<close> (\<open>internal/store/postgres/postgres.go\<close>): the SQL stores, and the refinement \<open>same_log\<close>: they
    answer every sequence of calls as the in-memory stores do, up to the next cursor of a last page that is
    exactly full; interprets \<open>event_pager\<close>. \<open>Forks\<close>: late rows, and what lists of linked rows have in common.
    \<open>Replicas\<close>: the statements of \<open>InsertChained\<close> of several replicas interleaved, with lost commits, over a
    server that promises no more than that some serial order explains what it committed.
  \<^item> \<open>Adapters\<close> (\<open>internal/kms\<close>, \<open>kmsadapter\<close>, \<open>s3adapter\<close>, \<open>kafkaadapter\<close>), \<open>Migrations\<close>
    (\<open>internal/store/migrations\<close>, \<open>cmd/migrate\<close>), \<open>Cli\<close> (\<open>internal/cli\<close>, \<open>verify-chain\<close>).
  \<^item> \<open>App\<close> (\<open>internal/app\<close>): \<open>build\<close>, and the running service, whose steps are messages, the three
    store accesses of an anchor run, and authenticated requests, in any order.
  \<^item> \<open>Ledger\<close>, \<open>Fleet\<close>: the deployed service. \<open>Ledger\<close> is the abstract specification of the shared
    database, what may ever be done to it; \<open>Fleet\<close> is any number of replicas (consumer loop, anchor loop,
    requests) over one PostgreSQL database and one object store, and refines it.
  \<^item> \<open>Telemetry\<close> (\<open>internal/otel\<close>, \<open>internal/metrics\<close>): the telemetry set-up with its errors and its
    shutdown, the collectors and their one registration.
  \<^item> \<open>Lifecycle\<close> (\<open>Run\<close>, \<open>startLoops\<close>, \<open>Shutdown\<close> of \<open>internal/app\<close>, \<open>cmd/audit-logger/main.go\<close>): the
    goroutines of the process as steps over the service, from start to the return of \<open>Run\<close>, and \<open>main\<close>.
  \<^item> \<open>Systems\<close>: the locales \<open>step_system\<close> (an invariant of runs), \<open>simulation\<close> and \<open>winding_down\<close> (a
    system that runs out of steps), interpreted on the step relations of \<open>Objects\<close>, \<open>Runs\<close>,
    \<open>Replicas\<close>, \<open>App\<close>, \<open>Ledger\<close>, \<open>Fleet\<close> and \<open>Lifecycle\<close>.

  \<^bold>\<open>Conventions.\<close> A Go struct is a record whose fields carry a prefix, an \<open>error\<close> result is the left side
  of a sum, a nil pointer or interface is \<open>None\<close>. Times are nanoseconds since the epoch; the int64 wrap
  of \<open>UnixNano\<close> and of durations is written out. Counters are a multiset of increments. An operation that
  holds a mutex is one transition. Code outside the repository is a parameter of the definitions that
  call it: the JSON codec, RFC 3339 formatting, the Unicode case table, UUID syntax, the clock, fresh
  ids, crypto/rsa, the AWS SDK, kafka-go, the conversion of values by the database and the failure of its
  statements. Hypotheses on them are named definitions (\<open>exact_event\<close>, \<open>steady_codec\<close>, \<open>serializable\<close>) and each
  theorem that uses one has an instance in which it holds.

  \<^bold>\<open>Loops.\<close> Recursion on lists and the halving Merkle levels terminate; the paging loop of the sweep and
  of the export, and the broker loop, are \<open>partial_function (option)\<close>, where not returning is \<open>None\<close>: that
  they return is proved (\<open>sweep_returns\<close>, \<open>export_job_returns\<close>, \<open>adapter_run_drains\<close>). No fuel is used.
  The loops of the goroutines are step relations; that a signal brings them to an end is
  \<open>shutdown_terminates\<close>, with a bound on the number of steps.

  \<^bold>\<open>What the lemmas show.\<close> Store lemmas: the log stays ordered, ids are unique, rows are never lost or
  altered. Chain lemmas: acceptance is equivalent to the link equations, a root commits to the rows, and
  a chronological feed is always accepted. Ingest lemmas: one accepted message adds exactly one row, every
  message is counted once and committed, and each stored reference points to an object. API and
  authentication: only an administrator's valid token changes state. Service: over any run the rows are
  well formed and every anchor matches its row. Fleet: however many replicas run and however they fail, the
  database only grows, each row is linked to the newest row before it unless it is late (one that was stored
  before it has a later time), only late rows fork the chain, anchors and flags are backed by rows and
  anchors, a feed in order raises no false alarm, and any replica makes a lost anchor run good. Process: it simulates the service, every signal leads to
  the return of \<open>Run\<close>, and then no loop is running and no anchor run is half done. Several theorems state behaviour the authors may not
  intend: false alarms for late rows, exports over anchors without an event, the lost retry of a failed
  payload write, export jobs that never leave PENDING, times and ids that a column changes after they were
  hashed, a lock that is taken after the snapshot, and anchors without a date, which no sweep with a lower
  bound checks.

  \<^bold>\<open>Not modelled.\<close> The sockets of the HTTP server, percent escapes in request paths, spans, log output,
  message headers (nothing reads them), how the OpenTelemetry SDK batches and exports, and the SQL inside
  the migration scripts. In \<open>App\<close> and \<open>Lifecycle\<close> the service runs in development mode: the REST
  handlers act on the in-memory stores, the consumer is the in-memory one (the loop of the broker's
  consumer is \<open>adapter_run\<close>), and the whole of a message is one step. In \<open>Fleet\<close> it runs over PostgreSQL
  and a message is two steps, one for each store it touches (\<open>ingest_in_two_steps\<close>); there the insert
  transaction is one transition that sees any earlier state of the table (\<open>pg_insert_snapshot\<close>), which
  \<open>Replicas\<close> derives from serializability up to clashing hashes (\<open>commit_is_snapshot_insert\<close>), a request is one step (it changes at most one
  table, with one statement), messages come in any order and number, as a broker may re-deliver them, and a
  sweep reads one state of the database. The export runner sees the stores as they are when the job starts;
  nothing the service runs calls it. A
  request in flight is a count, and what it asks is chosen when it is answered. A signal that arrives
  before \<open>Run\<close> listens for it ends the process at once and is left out.
\<close>

end
